(* ===== verification/Gateway_Prelude.thy ===== *)
theory Gateway_Prelude
  imports Complex_Main "HOL-Library.Word" "HOL-Library.Monad_Syntax" "HOL-Library.Char_ord"
    "HOL-Library.List_Lexorder"
begin

text \<open>
  What every component of the development shares: the types that stand for the Go types of
  the sources, the outcome type of a Go call, bounded channels used as counting semaphores,
  and generic facts on lists, options and maps.

  \<^item> \<open>'a go\<close> is the outcome of a Go call. \<open>Some\<close> is a call that returned; \<open>None\<close> is a
    goroutine that does not get past the call, because the runtime panicked (index out of
    range, nil pointer) or because it waits on a channel nobody serves. Errors that the code
    returns are ordinary values inside \<open>Some\<close>.
  \<^item> \<^verbatim>\<open>time.Time\<close> and \<^verbatim>\<open>time.Duration\<close> are \<open>int\<close>, in nanoseconds.
  \<^item> \<^verbatim>\<open>string\<close> is \<open>string\<close>, a list of bytes; \<^verbatim>\<open>[]byte\<close> of a wire message is \<open>8 word list\<close>.
\<close>

section \<open>Types of the sources\<close>

type_synonym byte = "8 word"
type_synonym bytes = "byte list"
type_synonym u16 = "16 word"
type_synonym u32 = "32 word"
type_synonym nanos = int
type_synonym 'a go = "'a option"

abbreviation millisecond :: nanos where "millisecond \<equiv> 1000000"
abbreviation second :: nanos where "second \<equiv> 1000000000"
abbreviation minute :: nanos where "minute \<equiv> 60000000000"
abbreviation hour :: nanos where "hour \<equiv> 3600000000000"

named_theorems wire_simps \<open>reads and writes of wire messages\<close>
named_theorems chan_simps \<open>operations of bounded channels\<close>

section \<open>The outcome of a Go call\<close>

lemma go_bind_Some_iff [simp]:
  "(Option.bind m f = Some y) \<longleftrightarrow> (\<exists>x. m = Some x \<and> f x = Some y)"
  by (cases m) auto

lemma go_returns_bind [intro]:
  "m = Some x \<Longrightarrow> f x = Some y \<Longrightarrow> Option.bind m f = Some y"
  by simp

section \<open>Lists\<close>

lemma filter_id_if: "(\<And>x. x \<in> set xs \<Longrightarrow> P x) \<Longrightarrow> filter P xs = xs"
  by (induction xs) auto

lemma sum_list_map_filter_split:
  "sum_list (map f xs) =
     sum_list (map f (filter P xs)) + (sum_list (map f (filter (\<lambda>x. \<not> P x) xs)) :: nat)"
  by (induction xs) auto

lemma map_of_filter_fst:
  "map_of (filter (\<lambda>p. fst p \<noteq> k) ps) = (map_of ps)(k := None)"
  by (induction ps) (auto simp: fun_eq_iff)

lemma distinct_map_filter: "distinct (map f xs) \<Longrightarrow> distinct (map f (filter P xs))"
  by (induction xs) auto

lemma filter_unique_key:
  assumes "distinct (map f xs)" and "x \<in> set xs"
  shows "filter (\<lambda>y. f y = f x) xs = [x]"
  using assms
proof (induction xs)
  case (Cons a xs)
  show ?case
  proof (cases "x = a")
    case True
    moreover have "filter (\<lambda>y. f y = f a) xs = []"
      using Cons.prems(1) by (auto simp: filter_empty_conv image_iff)
    ultimately show ?thesis by simp
  next
    case False
    with Cons.prems have "f a \<noteq> f x" by auto
    with Cons False show ?thesis by auto
  qed
qed simp

lemma last_in_set_conv: "xs \<noteq> [] \<Longrightarrow> \<exists>ys y. xs = ys @ [y]"
  by (metis rev_exhaust)

lemma find_Some_mem: "find P xs = Some x \<Longrightarrow> x \<in> set xs \<and> P x"
  by (induction xs) (auto split: if_splits)

section \<open>Channels of empty structs\<close>

text \<open>
  \<^verbatim>\<open>make(chan struct{}, n)\<close> used as a semaphore: how many tokens it holds and how many it can
  hold. \<open>chan_try_send\<close> is a \<^verbatim>\<open>select\<close> with a send and a \<^verbatim>\<open>default\<close>; \<open>chan_recv\<close> is a receive,
  which waits forever when nobody will send.
\<close>

record channel =
  ch_len :: nat
  ch_cap :: nat

definition make_chan :: "nat \<Rightarrow> channel" where
  "make_chan n = \<lparr>ch_len = 0, ch_cap = n\<rparr>"

definition chan_try_send :: "channel \<Rightarrow> channel \<times> bool" where
  "chan_try_send c =
     (if ch_len c < ch_cap c then (c\<lparr>ch_len := Suc (ch_len c)\<rparr>, True) else (c, False))"

definition chan_recv :: "channel \<Rightarrow> channel go" where
  "chan_recv c = (if 0 < ch_len c then Some (c\<lparr>ch_len := ch_len c - 1\<rparr>) else None)"

definition chan_ok :: "channel \<Rightarrow> bool" where
  "chan_ok c \<longleftrightarrow> ch_len c \<le> ch_cap c"

text \<open>
  The contract of a counting semaphore: a successful acquire is undone by a release, a refused
  acquire changes nothing, and the number of tokens never passes the capacity.
\<close>

locale semaphore =
  fixes acquire :: "'c \<Rightarrow> 'c \<times> bool"
    and release :: "'c \<Rightarrow> 'c go"
    and held :: "'c \<Rightarrow> nat"
    and capacity :: "'c \<Rightarrow> nat"
  assumes acquire_granted: "acquire c = (c', True) \<Longrightarrow>
      held c' = Suc (held c) \<and> capacity c' = capacity c \<and> held c < capacity c"
    and acquire_refused: "acquire c = (c', False) \<Longrightarrow> c' = c \<and> capacity c \<le> held c"
    and release_acquired: "acquire c = (c', True) \<Longrightarrow> release c' = Some c"
    and release_held: "0 < held c \<Longrightarrow>
      \<exists>c'. release c = Some c' \<and> held c' = held c - 1 \<and> capacity c' = capacity c"
begin

lemma acquire_bounded:
  "held c \<le> capacity c \<Longrightarrow> acquire c = (c', b) \<Longrightarrow> held c' \<le> capacity c' \<and> capacity c' = capacity c"
  by (cases b) (auto dest: acquire_granted acquire_refused)

lemma release_bounded:
  "held c \<le> capacity c \<Longrightarrow> release c = Some c' \<Longrightarrow> 0 < held c \<Longrightarrow> held c' \<le> capacity c'"
  using release_held [of c] by auto

lemma acquire_iff: "snd (acquire c) \<longleftrightarrow> held c < capacity c"
  by (cases "acquire c"; cases "snd (acquire c)") (auto dest: acquire_granted acquire_refused)

end

interpretation ch: semaphore chan_try_send chan_recv ch_len ch_cap
  by unfold_locales (auto simp: chan_try_send_def chan_recv_def split: if_splits)

lemma chan_try_send_ok [simp]: "chan_ok c \<Longrightarrow> chan_ok (fst (chan_try_send c))"
  using ch.acquire_bounded [of c "fst (chan_try_send c)" "snd (chan_try_send c)"]
  by (simp add: chan_ok_def)

lemma make_chan_simps [simp]: "ch_len (make_chan n) = 0" "ch_cap (make_chan n) = n"
  "chan_ok (make_chan n)"
  by (simp_all add: make_chan_def chan_ok_def)

lemma chan_cap_try_send [simp]: "ch_cap (fst (chan_try_send c)) = ch_cap c"
  by (simp add: chan_try_send_def)

end
