(* ===== verification/Dns_Wire.thy ===== *)
theory Dns_Wire
  imports Gateway_Prelude
begin

text \<open>
  DNS messages as the policy resolver reads and rewrites them: the helpers of
  \<^verbatim>\<open>internal/policydns/cache.go\<close> from \<^verbatim>\<open>normalizedQueryKey\<close> on (record walk, cacheable life
  time, ageing of a cached answer) and the question parser of \<^verbatim>\<open>internal/policydns/resolver.go\<close>.
  Messages come from the network, so every read is an explicit \<open>go\<close> outcome: an index outside
  the slice is \<open>None\<close>, the panic of the Go runtime. The totality lemmas show that no input
  reaches it.
\<close>

unbundle bit_operations_syntax

section \<open>Reads and writes of big-endian fields\<close>

definition byte_at :: "bytes \<Rightarrow> nat \<Rightarrow> byte go" where
  "byte_at m i = (if i < length m then Some (m ! i) else None)"

definition u16_at :: "bytes \<Rightarrow> nat \<Rightarrow> u16 go" where
  "u16_at m i =
     (if i + 2 \<le> length m then Some (push_bit 8 (ucast (m ! i)) OR ucast (m ! (i + 1))) else None)"

definition u32_at :: "bytes \<Rightarrow> nat \<Rightarrow> u32 go" where
  "u32_at m i =
     (if i + 4 \<le> length m
      then Some (push_bit 24 (ucast (m ! i)) OR push_bit 16 (ucast (m ! (i + 1))) OR
                 push_bit 8 (ucast (m ! (i + 2))) OR ucast (m ! (i + 3)))
      else None)"

definition put_u32 :: "bytes \<Rightarrow> nat \<Rightarrow> u32 \<Rightarrow> bytes go" where
  "put_u32 m i v =
     (if i + 4 \<le> length m
      then Some (m[i := ucast (drop_bit 24 v), i + 1 := ucast (drop_bit 16 v),
                   i + 2 := ucast (drop_bit 8 v), i + 3 := ucast v])
      else None)"

lemma byte_at_Some [wire_simps]: "i < length m \<Longrightarrow> byte_at m i = Some (m ! i)"
  by (simp add: byte_at_def)

lemma u16_at_returns [wire_simps]: "i + 2 \<le> length m \<Longrightarrow> \<exists>v. u16_at m i = Some v"
  by (simp add: u16_at_def)

lemma u32_at_returns [wire_simps]: "i + 4 \<le> length m \<Longrightarrow> \<exists>v. u32_at m i = Some v"
  by (simp add: u32_at_def)

lemma u32_bytes:
  fixes v :: u32
  shows "push_bit 24 (ucast (ucast (drop_bit 24 v) :: byte)) OR
         push_bit 16 (ucast (ucast (drop_bit 16 v) :: byte)) OR
         push_bit 8 (ucast (ucast (drop_bit 8 v) :: byte)) OR ucast (ucast v :: byte) = v"
    (is "?joined = v")
proof (rule bit_word_eqI)
  fix n assume "n < LENGTH(32)"
  then consider "n < 8" | "8 \<le> n \<and> n < 16" | "16 \<le> n \<and> n < 24" | "24 \<le> n \<and> n < 32"
    by fastforce
  then show "bit ?joined n = bit v n"
    by cases (auto simp: bit_simps)
qed

lemma put_u32_returns: "i + 4 \<le> length m \<Longrightarrow> \<exists>m'. put_u32 m i v = Some m'"
  by (simp add: put_u32_def)

lemma put_u32_length: "put_u32 m i v = Some m' \<Longrightarrow> length m' = length m"
  by (auto simp: put_u32_def split: if_splits)

lemma put_u32_frame: "put_u32 m i v = Some m' \<Longrightarrow> j < i \<or> i + 4 \<le> j \<Longrightarrow> m' ! j = m ! j"
  by (auto simp: put_u32_def split: if_splits)

lemma put_u32_read: "put_u32 m i v = Some m' \<Longrightarrow> u32_at m' i = Some v"
  using u32_bytes [of v] by (auto simp: put_u32_def u32_at_def split: if_splits)

section \<open>The record walk (cache.go)\<close>

function skipName :: "bytes \<Rightarrow> nat \<Rightarrow> (nat \<times> bool) go" where
  "skipName message offset =
     (if length message \<le> offset then Some (0, False)
      else do {
        b \<leftarrow> byte_at message offset;
        let n = unat b;
        let offset' = Suc offset;
        if n = 0 then Some (offset', True)
        else if b AND 0xC0 = 0xC0 then
          (if length message \<le> offset' then Some (0, False) else Some (Suc offset', True))
        else if 63 < n \<or> length message < offset' + n then Some (0, False)
        else skipName message (offset' + n)
      })"
  by pat_completeness auto
termination
  by (relation "measure (\<lambda>(m, i). length m - i)") auto

declare skipName.simps [simp del]

text \<open>The loop over the question section, written out in \<open>responseTTL\<close> and in
  \<open>adjustResponseTTLs\<close>. The inner \<open>None\<close> is the early return on a malformed section.\<close>

fun skipQuestions :: "nat \<Rightarrow> bytes \<Rightarrow> nat \<Rightarrow> nat option go" where
  "skipQuestions 0 message offset = Some (Some offset)"
| "skipQuestions (Suc n) message offset = do {
     (nxt, ok) \<leftarrow> skipName message offset;
     if \<not> ok \<or> length message < nxt + 4 then Some None
     else skipQuestions n message (nxt + 4)
   }"

fun minimumRecordTTL_loop ::
  "nat \<Rightarrow> bytes \<Rightarrow> nat \<Rightarrow> bool \<Rightarrow> u32 \<Rightarrow> bool \<Rightarrow> (u32 \<times> nat \<times> bool) go" where
  "minimumRecordTTL_loop 0 message offset negativeSOA minimum found = Some (minimum, offset, True)"
| "minimumRecordTTL_loop (Suc n) message offset negativeSOA minimum found = do {
     (nxt, ok) \<leftarrow> skipName message offset;
     if \<not> ok \<or> length message < nxt + 10 then Some (0, 0, False)
     else do {
       recordType \<leftarrow> u16_at message nxt;
       ttl \<leftarrow> u32_at message (nxt + 4);
       sz \<leftarrow> u16_at message (nxt + 8);
       let offset' = nxt + 10 + unat sz;
       if length message < offset' then Some (0, 0, False)
       else if recordType = 41 then
         minimumRecordTTL_loop n message offset' negativeSOA minimum found
       else if negativeSOA \<and> recordType \<noteq> 6 then
         minimumRecordTTL_loop n message offset' negativeSOA minimum found
       else if negativeSOA \<and> unat sz < 20 then
         minimumRecordTTL_loop n message offset' negativeSOA minimum found
       else do {
         ttl' \<leftarrow> (if negativeSOA then do {
                   soaMinimum \<leftarrow> u32_at message (offset' - 4);
                   Some (if soaMinimum < ttl then soaMinimum else ttl)
                 } else Some ttl);
         if \<not> found \<or> ttl' < minimum then
           minimumRecordTTL_loop n message offset' negativeSOA ttl' True
         else minimumRecordTTL_loop n message offset' negativeSOA minimum found
       }
     }
   }"

definition minimumRecordTTL :: "bytes \<Rightarrow> nat \<Rightarrow> nat \<Rightarrow> bool \<Rightarrow> (u32 \<times> nat \<times> bool) go" where
  "minimumRecordTTL message offset records negativeSOA =
     minimumRecordTTL_loop records message offset negativeSOA 0 False"

definition responseTTL :: "bytes \<Rightarrow> nanos go" where
  "responseTTL message =
     (if length message < 12 then Some 0
      else do {
        flags \<leftarrow> u16_at message 2;
        let rcode = flags AND 0x000f;
        if rcode \<noteq> 0 \<and> rcode \<noteq> 3 then Some 0
        else do {
          questions \<leftarrow> u16_at message 4;
          answers \<leftarrow> u16_at message 6;
          authorities \<leftarrow> u16_at message 8;
          additionals \<leftarrow> u16_at message 10;
          walked \<leftarrow> skipQuestions (unat questions) message 12;
          case walked of
            None \<Rightarrow> Some 0
          | Some offset \<Rightarrow> do {
              (minimum, offset, ok) \<leftarrow> minimumRecordTTL message offset (unat answers) False;
              if \<not> ok then Some 0
              else do {
                (minimum, offset, ok) \<leftarrow>
                  (if unat answers = 0 then do {
                     (m, off, ok) \<leftarrow> minimumRecordTTL message offset (unat authorities) True;
                     Some (if 60 < m then 60 else m, off, ok)
                   } else do {
                     (_, off, ok) \<leftarrow> minimumRecordTTL message offset (unat authorities) False;
                     Some (minimum, off, ok)
                   });
                if \<not> ok then Some 0
                else do {
                  (_, _, ok) \<leftarrow> minimumRecordTTL message offset (unat additionals) False;
                  if \<not> ok then Some 0
                  else if minimum = 0 then Some 0
                  else Some (int (unat (if 300 < minimum then 300 else minimum)) * second)
                }
              }
            }
        }
      })"

fun adjustRecords :: "nat \<Rightarrow> bytes \<Rightarrow> nat \<Rightarrow> u32 \<Rightarrow> u32 \<Rightarrow> bytes go" where
  "adjustRecords 0 message offset age override = Some message"
| "adjustRecords (Suc n) message offset age override = do {
     (nxt, ok) \<leftarrow> skipName message offset;
     if \<not> ok \<or> length message < nxt + 10 then Some message
     else do {
       recordType \<leftarrow> u16_at message nxt;
       sz \<leftarrow> u16_at message (nxt + 8);
       let offset' = nxt + 10 + unat sz;
       if length message < offset' then Some message
       else if recordType = 41 then adjustRecords n message offset' age override
       else do {
         ttl \<leftarrow> u32_at message (nxt + 4);
         message' \<leftarrow> put_u32 message (nxt + 4)
           (if 0 < override then override else if ttl \<le> age then 0 else ttl - age);
         adjustRecords n message' offset' age override
       }
     }
   }"

definition adjustResponseTTLs :: "bytes \<Rightarrow> u32 \<Rightarrow> u32 \<Rightarrow> bytes go" where
  "adjustResponseTTLs message age override =
     (if length message < 12 then Some message
      else do {
        questions \<leftarrow> u16_at message 4;
        answers \<leftarrow> u16_at message 6;
        authorities \<leftarrow> u16_at message 8;
        additionals \<leftarrow> u16_at message 10;
        let records = unat answers + unat authorities + unat additionals;
        walked \<leftarrow> skipQuestions (unat questions) message 12;
        case walked of
          None \<Rightarrow> Some message
        | Some offset \<Rightarrow> adjustRecords records message offset age override
      })"

section \<open>Facts of the record walk\<close>

text \<open>\<open>skipName\<close> always returns, moves forward, and stays inside the message.\<close>

lemma skipName_total:
  "\<exists>nxt ok. skipName m i = Some (nxt, ok) \<and> (ok \<longrightarrow> i < nxt \<and> nxt \<le> length m)"
proof (induction m i rule: skipName.induct)
  case (1 m i)
  show ?case
  proof (cases "i < length m")
    case False
    then show ?thesis by (auto simp: skipName.simps [of m i])
  next
    case True
    then have b: "byte_at m i = Some (m ! i)" by (simp add: byte_at_def)
    show ?thesis
    proof (cases "unat (m ! i) = 0 \<or> m ! i AND 0xC0 = 0xC0 \<or> 63 < unat (m ! i) \<or>
        length m < Suc i + unat (m ! i)")
      case True
      with \<open>i < length m\<close> b show ?thesis
        by (auto simp: skipName.simps [of m i] Let_def)
    next
      case False
      with "1.IH" [OF _ b refl refl] \<open>i < length m\<close> obtain nxt ok where
        "skipName m (Suc i + unat (m ! i)) = Some (nxt, ok)"
        "ok \<longrightarrow> Suc i + unat (m ! i) < nxt \<and> nxt \<le> length m"
        by auto
      with False \<open>i < length m\<close> b show ?thesis
        by (auto simp: skipName.simps [of m i] Let_def)
    qed
  qed
qed

lemma skipName_cases:
  obtains (stop) nxt where "skipName m i = Some (nxt, False)"
  | (found) nxt where "skipName m i = Some (nxt, True)" "i < nxt" "nxt \<le> length m"
  using skipName_total [of m i] by (metis (full_types))

lemma skipName_bounds: "skipName m i = Some (nxt, True) \<Longrightarrow> i < nxt \<and> nxt \<le> length m"
  using skipName_total [of m i] by auto

text \<open>
  The header of the record at an offset: where its fixed part starts, its type and TTL, and
  where the next record starts; \<open>None\<close> when the record does not fit. Both loops read a record
  through this header, which shows at once that none of their reads is out of range.
\<close>

definition rr_head :: "bytes \<Rightarrow> nat \<Rightarrow> (nat \<times> u16 \<times> u32 \<times> nat) option" where
  "rr_head m i = (case skipName m i of
     Some (nxt, True) \<Rightarrow>
       (if nxt + 10 \<le> length m \<and> nxt + 10 + unat (the (u16_at m (nxt + 8))) \<le> length m
        then Some (nxt, the (u16_at m nxt), the (u32_at m (nxt + 4)),
                   nxt + 10 + unat (the (u16_at m (nxt + 8))))
        else None)
   | _ \<Rightarrow> None)"

lemma rr_head_bounds:
  "rr_head m i = Some (nxt, rt, ttl, off) \<Longrightarrow> i < nxt \<and> nxt + 10 \<le> off \<and> off \<le> length m"
  by (auto simp: rr_head_def dest: skipName_bounds split: option.splits prod.splits bool.splits if_splits)

lemma rr_head_reads:
  assumes "rr_head m i = Some (nxt, rt, ttl, off)"
  shows "skipName m i = Some (nxt, True)" "u16_at m nxt = Some rt" "u32_at m (nxt + 4) = Some ttl"
    "\<exists>sz. u16_at m (nxt + 8) = Some sz \<and> off = nxt + 10 + unat sz"
  using assms
  by (auto simp: rr_head_def u16_at_def u32_at_def split: option.splits prod.splits bool.splits if_splits)

lemma rr_head_None_cases:
  assumes "rr_head m i = None"
  obtains (name) nxt where "skipName m i = Some (nxt, False)"
  | (fixed) nxt where "skipName m i = Some (nxt, True)" "length m < nxt + 10"
  | (data) nxt rt ttl sz where "skipName m i = Some (nxt, True)" "nxt + 10 \<le> length m"
      "u16_at m nxt = Some rt" "u32_at m (nxt + 4) = Some ttl" "u16_at m (nxt + 8) = Some sz"
      "length m < nxt + 10 + unat sz"
proof (cases m i rule: skipName_cases)
  case (found nxt)
  show ?thesis
  proof (cases "length m < nxt + 10")
    case False
    then obtain rt ttl sz where "u16_at m nxt = Some rt" "u32_at m (nxt + 4) = Some ttl"
        "u16_at m (nxt + 8) = Some sz"
      using u16_at_returns [of nxt m] u32_at_returns [of "nxt + 4" m] u16_at_returns [of "nxt + 8" m]
      by auto
    with assms found False show ?thesis
      by (intro data) (auto simp: rr_head_def split: if_splits)
  qed (rule fixed [OF found(1)])
qed (rule name)

lemma minimumRecordTTL_loop_head:
  "minimumRecordTTL_loop (Suc n) m i neg minimum found =
     (case rr_head m i of
        None \<Rightarrow> Some (0, 0, False)
      | Some (nxt, rt, ttl, off) \<Rightarrow>
          (let ttl' = (if neg then min (the (u32_at m (off - 4))) ttl else ttl) in
           if rt = 41 \<or> neg \<and> (rt \<noteq> 6 \<or> off < nxt + 30)
           then minimumRecordTTL_loop n m off neg minimum found
           else if \<not> found \<or> ttl' < minimum
           then minimumRecordTTL_loop n m off neg ttl' True
           else minimumRecordTTL_loop n m off neg minimum found))"
proof (cases "rr_head m i")
  case None
  then show ?thesis
    by (cases rule: rr_head_None_cases) (simp_all add: None)
next
  case (Some h)
  obtain nxt rt ttl off where h: "h = (nxt, rt, ttl, off)" by (cases h)
  note reads = rr_head_reads [OF Some [unfolded h]]
  note b = rr_head_bounds [OF Some [unfolded h]]
  from reads(4) obtain sz where sz: "u16_at m (nxt + 8) = Some sz" "off = nxt + 10 + unat sz" by blast
  from b obtain soa where soa: "u32_at m (off - 4) = Some soa"
    using u32_at_returns [of "off - 4" m] by auto
  have less_min: "(if soa < ttl then soa else ttl) = min soa ttl" by (auto simp: min_def)
  have "(unat sz < 20) = (off < nxt + 30)" using sz(2) by auto
  with b reads(1-3) sz(1) soa less_min show ?thesis
    unfolding Some h minimumRecordTTL_loop.simps
    by (simp add: sz(2) [symmetric])
qed

definition aged_ttl :: "u32 \<Rightarrow> u32 \<Rightarrow> u32 \<Rightarrow> u32" where
  "aged_ttl age override ttl =
     (if 0 < override then override else if ttl \<le> age then 0 else ttl - age)"

lemma adjustRecords_head:
  "adjustRecords (Suc n) m i age override =
     (case rr_head m i of
        None \<Rightarrow> Some m
      | Some (nxt, rt, ttl, off) \<Rightarrow>
          if rt = 41 then adjustRecords n m off age override
          else adjustRecords n (the (put_u32 m (nxt + 4) (aged_ttl age override ttl))) off age override)"
proof (cases "rr_head m i")
  case None
  then show ?thesis
    by (cases rule: rr_head_None_cases) (simp_all add: None)
next
  case (Some h)
  obtain nxt rt ttl off where h: "h = (nxt, rt, ttl, off)" by (cases h)
  note reads = rr_head_reads [OF Some [unfolded h]]
  note b = rr_head_bounds [OF Some [unfolded h]]
  from reads(4) obtain sz where sz: "u16_at m (nxt + 8) = Some sz" "off = nxt + 10 + unat sz" by blast
  obtain m' where put: "put_u32 m (nxt + 4) (aged_ttl age override ttl) = Some m'"
    using b put_u32_returns [of "nxt + 4" m "aged_ttl age override ttl"] by auto
  show ?thesis
    using b reads(1-3) sz(1) put unfolding Some h adjustRecords.simps aged_ttl_def [symmetric]
    by (simp add: sz(2) [symmetric])
qed

lemma skipQuestions_total:
  "\<exists>r. skipQuestions n m i = Some r \<and> (\<forall>j. r = Some j \<longrightarrow> i \<le> j \<and> (j \<le> length m \<or> j = i))"
proof (induction n arbitrary: i)
  case (Suc n)
  show ?case
  proof (cases m i rule: skipName_cases)
    case (found nxt)
    then show ?thesis
      using Suc.IH [of "nxt + 4"] by (cases "length m < nxt + 4") auto
  qed auto
qed auto

lemma minimumRecordTTL_loop_total:
  "\<exists>t j ok. minimumRecordTTL_loop n m i neg minimum found = Some (t, j, ok) \<and>
     (ok \<longrightarrow> i \<le> j \<and> (j \<le> length m \<or> j = i))"
proof (induction n arbitrary: i minimum found)
  case (Suc n)
  show ?case
  proof (cases "rr_head m i")
    case (Some h)
    obtain nxt rt ttl off where h: "h = (nxt, rt, ttl, off)" by (cases h)
    note b = rr_head_bounds [OF Some [unfolded h]]
    have "\<exists>t j ok. minimumRecordTTL_loop n m off neg x f = Some (t, j, ok) \<and>
        (ok \<longrightarrow> i \<le> j \<and> (j \<le> length m \<or> j = i))" for x f
      using Suc.IH [of off x f] b by fastforce
    then show ?thesis
      unfolding minimumRecordTTL_loop_head Some h by (simp add: Let_def)
  qed (auto simp: minimumRecordTTL_loop_head simp del: minimumRecordTTL_loop.simps)
qed auto

text \<open>What the walk reads from an offset on does not depend on the bytes before it, and what it
  has read does not depend on the bytes behind it.\<close>

definition agree_from :: "nat \<Rightarrow> bytes \<Rightarrow> bytes \<Rightarrow> bool" where
  "agree_from i m m' \<longleftrightarrow> length m' = length m \<and> (\<forall>j. i \<le> j \<longrightarrow> m' ! j = m ! j)"

definition agree_below :: "nat \<Rightarrow> bytes \<Rightarrow> bytes \<Rightarrow> bool" where
  "agree_below i m m' \<longleftrightarrow> length m' = length m \<and> (\<forall>j. j < i \<longrightarrow> m' ! j = m ! j)"

lemma agree_from_mono: "agree_from i m m' \<Longrightarrow> i \<le> j \<Longrightarrow> agree_from j m m'"
  by (auto simp: agree_from_def)

lemma agree_below_mono: "agree_below i m m' \<Longrightarrow> j \<le> i \<Longrightarrow> agree_below j m m'"
  by (auto simp: agree_below_def)

lemma agree_from_reads:
  assumes "agree_from i m m'" "i \<le> j"
  shows "byte_at m' j = byte_at m j" "u16_at m' j = u16_at m j" "u32_at m' j = u32_at m j"
  using assms by (simp_all add: agree_from_def byte_at_def u16_at_def u32_at_def)

lemma agree_below_reads:
  assumes "agree_below i m m'"
  shows "j < i \<Longrightarrow> byte_at m' j = byte_at m j" "j + 2 \<le> i \<Longrightarrow> u16_at m' j = u16_at m j"
    "j + 4 \<le> i \<Longrightarrow> u32_at m' j = u32_at m j"
  using assms by (simp_all add: agree_below_def byte_at_def u16_at_def u32_at_def)

lemma skipName_agree_from: "agree_from i m m' \<Longrightarrow> skipName m' i = skipName m i"
proof (induction m i rule: skipName.induct)
  case (1 m i)
  have len: "length m' = length m" and b: "byte_at m' i = byte_at m i"
    using "1.prems" agree_from_reads(1) [OF "1.prems"] by (auto simp: agree_from_def)
  show ?case
  proof (cases "i < length m")
    case True
    then have b': "byte_at m i = Some (m ! i)" by (simp add: byte_at_def)
    have "unat (m ! i) \<noteq> 0 \<Longrightarrow> m ! i AND 0xC0 \<noteq> 0xC0 \<Longrightarrow>
        \<not> (63 < unat (m ! i) \<or> length m < Suc i + unat (m ! i)) \<Longrightarrow>
        skipName m' (Suc i + unat (m ! i)) = skipName m (Suc i + unat (m ! i))"
      using "1.IH" [OF _ b' refl refl] True agree_from_mono [OF "1.prems"] by simp
    with b b' len show ?thesis
      by (simp add: skipName.simps [of m i] skipName.simps [of m' i] Let_def)
  qed (simp add: skipName.simps [of m i] skipName.simps [of m' i] len)
qed

lemma skipName_agree_below:
  "skipName m i = Some (nxt, True) \<Longrightarrow> agree_below nxt m m' \<Longrightarrow> skipName m' i = Some (nxt, True)"
proof (induction m i rule: skipName.induct)
  case (1 m i)
  have len: "length m' = length m" using "1.prems"(2) by (simp add: agree_below_def)
  have "i < nxt" "nxt \<le> length m" using skipName_bounds [OF "1.prems"(1)] by auto
  then have b': "byte_at m i = Some (m ! i)" and b: "byte_at m' i = Some (m ! i)"
    using "1.prems"(2) by (auto simp: byte_at_def agree_below_def)
  have rec: "unat (m ! i) \<noteq> 0 \<Longrightarrow> m ! i AND 0xC0 \<noteq> 0xC0 \<Longrightarrow>
      \<not> (63 < unat (m ! i) \<or> length m < Suc i + unat (m ! i)) \<Longrightarrow>
      skipName m (Suc i + unat (m ! i)) = Some (nxt, True) \<Longrightarrow>
      skipName m' (Suc i + unat (m ! i)) = Some (nxt, True)"
    using "1.IH" [OF _ b' refl refl] \<open>i < nxt\<close> \<open>nxt \<le> length m\<close> "1.prems"(2) by simp
  show ?case
    using "1.prems"(1) b b' len rec \<open>i < nxt\<close> \<open>nxt \<le> length m\<close>
    by (simp add: skipName.simps [of m i] skipName.simps [of m' i] Let_def split: if_splits)
qed

lemma rr_head_agree_from: "agree_from i m m' \<Longrightarrow> rr_head m' i = rr_head m i"
proof -
  assume a: "agree_from i m m'"
  show ?thesis
  proof (cases m i rule: skipName_cases)
    case (found nxt)
    have "length m' = length m" using a by (simp add: agree_from_def)
    moreover have "u16_at m' nxt = u16_at m nxt" "u32_at m' (nxt + 4) = u32_at m (nxt + 4)"
      "u16_at m' (nxt + 8) = u16_at m (nxt + 8)"
      using agree_from_reads [OF a] found by simp_all
    ultimately show ?thesis
      by (simp add: rr_head_def skipName_agree_from [OF a] found(1))
  qed (simp add: rr_head_def skipName_agree_from [OF a])
qed

lemma rr_head_agree_below:
  assumes "rr_head m i = Some (nxt, rt, ttl, off)" and "agree_below (nxt + 10) m m'"
  shows "rr_head m' i = Some (nxt, rt, ttl, off)"
proof -
  have "length m' = length m" using assms(2) by (simp add: agree_below_def)
  moreover have "skipName m' i = Some (nxt, True)"
    using skipName_agree_below [OF rr_head_reads(1) [OF assms(1)]] agree_below_mono [OF assms(2)] by simp
  moreover have "u16_at m' nxt = u16_at m nxt" "u32_at m' (nxt + 4) = u32_at m (nxt + 4)"
      "u16_at m' (nxt + 8) = u16_at m (nxt + 8)"
    using agree_below_reads [OF assms(2)] by simp_all
  ultimately show ?thesis
    using assms(1) rr_head_reads(1) [OF assms(1)] by (simp add: rr_head_def split: if_splits)
qed

lemma rr_head_put:
  assumes h: "rr_head m i = Some (nxt, rt, ttl, off)" and put: "put_u32 m (nxt + 4) v = Some m'"
  shows "rr_head m' i = Some (nxt, rt, v, off)"
proof -
  have len: "length m' = length m" using put_u32_length [OF put] .
  have frame: "m' ! j = m ! j" if "j < nxt + 4 \<or> nxt + 8 \<le> j" for j
    using put_u32_frame [OF put] that by auto
  have "agree_below nxt m m'" using len frame by (simp add: agree_below_def)
  then have "skipName m' i = Some (nxt, True)"
    by (rule skipName_agree_below [OF rr_head_reads(1) [OF h]])
  moreover have "u16_at m' nxt = u16_at m nxt" "u16_at m' (nxt + 8) = u16_at m (nxt + 8)"
    using frame len by (simp_all add: u16_at_def)
  ultimately show ?thesis
    using h len put_u32_read [OF put] rr_head_reads(1) [OF h]
    by (simp add: rr_head_def split: if_splits)
qed

section \<open>Ageing a cached answer\<close>

text \<open>The TTL fields the walk visits: where each stands and what it holds, OPT records left out,
  up to the first record that does not fit.\<close>

fun record_fields :: "nat \<Rightarrow> bytes \<Rightarrow> nat \<Rightarrow> (nat \<times> u32) list" where
  "record_fields 0 m i = []"
| "record_fields (Suc n) m i =
     (case rr_head m i of
        None \<Rightarrow> []
      | Some (nxt, rt, ttl, off) \<Rightarrow>
          (if rt = 41 then record_fields n m off else (nxt + 4, ttl) # record_fields n m off))"

lemma record_fields_agree_from: "agree_from i m m' \<Longrightarrow> record_fields n m' i = record_fields n m i"
proof (induction n arbitrary: i)
  case (Suc n)
  note head = rr_head_agree_from [OF Suc.prems]
  show ?case
  proof (cases "rr_head m i")
    case (Some h)
    obtain nxt rt ttl off where h: "h = (nxt, rt, ttl, off)" by (cases h)
    have "agree_from off m m'"
      using rr_head_bounds [OF Some [unfolded h]] agree_from_mono [OF Suc.prems] by simp
    then show ?thesis using Suc.IH head Some h by simp
  qed (simp add: head)
qed simp

lemma record_fields_bounds:
  "(p, t) \<in> set (record_fields n m i) \<Longrightarrow> i + 4 < p \<and> p + 4 \<le> length m \<and> u32_at m p = Some t"
proof (induction n arbitrary: i)
  case (Suc n)
  show ?case
  proof (cases "rr_head m i")
    case (Some h)
    obtain nxt rt ttl off where h: "h = (nxt, rt, ttl, off)" by (cases h)
    note b = rr_head_bounds [OF Some [unfolded h]] and r = rr_head_reads(3) [OF Some [unfolded h]]
    show ?thesis
      using Suc.prems Suc.IH [of off] b r by (auto simp: Some h split: if_splits)
  qed (use Suc.prems in simp)
qed simp

lemma record_fields_after: "p \<in> fst ` set (record_fields n m i) \<Longrightarrow> j \<le> i \<Longrightarrow> j < p"
  using record_fields_bounds by fastforce

lemma agree_below_records:
  assumes "length m' = length m"
    and "\<And>j. (\<forall>p \<in> fst ` set (record_fields n m0 i). j < p \<or> p + 4 \<le> j) \<Longrightarrow> m' ! j = m ! j"
  shows "agree_below i m m'"
  unfolding agree_below_def
proof (intro conjI allI impI)
  fix j assume "j < i"
  then show "m' ! j = m ! j"
    by (intro assms(2)) (auto intro: record_fields_after)
qed (rule assms(1))

lemma adjustRecords_spec:
  "\<exists>m'. adjustRecords n m i age override = Some m' \<and> length m' = length m \<and>
     record_fields n m' i = map (apsnd (aged_ttl age override)) (record_fields n m i) \<and>
     (\<forall>j. (\<forall>p \<in> fst ` set (record_fields n m i). j < p \<or> p + 4 \<le> j) \<longrightarrow> m' ! j = m ! j)"
proof (induction n arbitrary: m i)
  case (Suc n)
  show ?case
  proof (cases "rr_head m i")
    case None
    then show ?thesis by (simp add: adjustRecords_head del: adjustRecords.simps)
  next
    case (Some h)
    obtain nxt rt ttl off where h: "h = (nxt, rt, ttl, off)" by (cases h)
    note hd = Some [unfolded h]
    note b = rr_head_bounds [OF hd]
    define m1 where "m1 = (if rt = 41 then m else the (put_u32 m (nxt + 4) (aged_ttl age override ttl)))"
    define t1 where "t1 = (if rt = 41 then ttl else aged_ttl age override ttl)"
    have put: "put_u32 m (nxt + 4) (aged_ttl age override ttl) = Some m1" if "rt \<noteq> 41"
      using put_u32_returns [of "nxt + 4" m] b that by (auto simp: m1_def)
    have head1: "rr_head m1 i = Some (nxt, rt, t1, off)"
      using rr_head_put [OF hd put] hd by (cases "rt = 41") (simp_all add: m1_def t1_def)
    have len1: "length m1 = length m"
      using put_u32_length [OF put] by (cases "rt = 41") (simp_all add: m1_def)
    have frame1: "m1 ! j = m ! j" if "rt = 41 \<or> j < nxt + 4 \<or> nxt + 8 \<le> j" for j
      using put_u32_frame [OF put] that by (cases "rt = 41") (auto simp: m1_def)
    have "agree_from off m m1" using b frame1 len1 by (simp add: agree_from_def)
    then have rest: "record_fields n m1 off = record_fields n m off"
      by (rule record_fields_agree_from)
    from Suc.IH [of m1 off] obtain m' where m': "adjustRecords n m1 off age override = Some m'"
      "length m' = length m1"
      "record_fields n m' off = map (apsnd (aged_ttl age override)) (record_fields n m off)"
      "\<And>j. (\<forall>p \<in> fst ` set (record_fields n m off). j < p \<or> p + 4 \<le> j) \<Longrightarrow> m' ! j = m1 ! j"
      unfolding rest by blast
    have "agree_below off m1 m'"
      using m'(2,4) by (rule agree_below_records)
    then have head': "rr_head m' i = Some (nxt, rt, t1, off)"
      using rr_head_agree_below [OF head1] agree_below_mono b by blast
    show ?thesis
    proof (intro exI conjI)
      show "adjustRecords (Suc n) m i age override = Some m'"
        using m'(1) by (cases "rt = 41") (simp_all add: adjustRecords_head hd m1_def del: adjustRecords.simps)
      show "length m' = length m" using m'(2) len1 by simp
      show "record_fields (Suc n) m' i =
          map (apsnd (aged_ttl age override)) (record_fields (Suc n) m i)"
        using m'(3) by (simp add: head' hd t1_def)
      show "\<forall>j. (\<forall>p \<in> fst ` set (record_fields (Suc n) m i). j < p \<or> p + 4 \<le> j) \<longrightarrow> m' ! j = m ! j"
        using m'(4) frame1 by (auto simp: hd split: if_splits)
    qed
  qed
qed simp

text \<open>The record sections of a whole message.\<close>

definition header_count :: "bytes \<Rightarrow> nat \<Rightarrow> nat" where
  "header_count m i = unat (the (u16_at m i))"

definition first_record :: "bytes \<Rightarrow> nat option" where
  "first_record m = (if length m < 12 then None else the (skipQuestions (header_count m 4) m 12))"

definition ttl_fields :: "bytes \<Rightarrow> (nat \<times> u32) list" where
  "ttl_fields m = (case first_record m of
     None \<Rightarrow> []
   | Some i \<Rightarrow> record_fields (header_count m 6 + header_count m 8 + header_count m 10) m i)"

lemma header_reads:
  "12 \<le> length m \<Longrightarrow> i \<in> {4, 6, 8, 10} \<Longrightarrow> \<exists>c. u16_at m i = Some c \<and> header_count m i = unat c"
  using u16_at_returns [of i m] by (auto simp: header_count_def)

lemma skipQuestions_agree_below:
  "skipQuestions n m i = Some (Some j) \<Longrightarrow> agree_below j m m' \<Longrightarrow> skipQuestions n m' i = Some (Some j)"
proof (induction n arbitrary: i)
  case (Suc n)
  from Suc.prems(1) obtain nxt where nxt: "skipName m i = Some (nxt, True)" "nxt + 4 \<le> length m"
      "skipQuestions n m (nxt + 4) = Some (Some j)"
    by (auto split: if_splits)
  have "nxt + 4 \<le> j" using skipQuestions_total [of n m "nxt + 4"] nxt(3) by auto
  then have "skipName m' i = Some (nxt, True)"
    using skipName_agree_below [OF nxt(1)] agree_below_mono [OF Suc.prems(2)] by simp
  then show ?case
    using Suc.IH [OF nxt(3) Suc.prems(2)] nxt(2) Suc.prems(2) by (simp add: agree_below_def)
qed simp

lemma adjustResponseTTLs_eq:
  "adjustResponseTTLs m age override =
     (case first_record m of
        None \<Rightarrow> Some m
      | Some i \<Rightarrow> adjustRecords (header_count m 6 + header_count m 8 + header_count m 10) m i age override)"
proof (cases "length m < 12")
  case False
  then obtain q a u d where r: "u16_at m 4 = Some q" "header_count m 4 = unat q"
      "u16_at m 6 = Some a" "header_count m 6 = unat a"
      "u16_at m 8 = Some u" "header_count m 8 = unat u"
      "u16_at m 10 = Some d" "header_count m 10 = unat d"
    using header_reads [of m 4] header_reads [of m 6] header_reads [of m 8] header_reads [of m 10]
    by auto
  obtain w where "skipQuestions (unat q) m 12 = Some w"
    using skipQuestions_total [of "unat q" m 12] by blast
  with False r show ?thesis
    by (cases w) (simp_all add: adjustResponseTTLs_def first_record_def)
qed (simp add: adjustResponseTTLs_def first_record_def)

lemma adjustResponseTTLs_spec:
  "\<exists>m'. adjustResponseTTLs m age override = Some m' \<and> length m' = length m \<and>
     ttl_fields m' = map (apsnd (aged_ttl age override)) (ttl_fields m) \<and>
     (\<forall>j. (\<forall>p \<in> fst ` set (ttl_fields m). j < p \<or> p + 4 \<le> j) \<longrightarrow> m' ! j = m ! j)"
proof (cases "first_record m")
  case None
  then show ?thesis by (simp add: adjustResponseTTLs_eq ttl_fields_def)
next
  case (Some i)
  then have len: "12 \<le> length m" and q: "skipQuestions (header_count m 4) m 12 = Some (Some i)"
    using skipQuestions_total [of "header_count m 4" m 12]
    by (auto simp: first_record_def split: if_splits)
  have "12 \<le> i" using skipQuestions_total [of "header_count m 4" m 12] q by auto
  let ?n = "header_count m 6 + header_count m 8 + header_count m 10"
  obtain m' where m': "adjustRecords ?n m i age override = Some m'" "length m' = length m"
    "record_fields ?n m' i = map (apsnd (aged_ttl age override)) (record_fields ?n m i)"
    "\<And>j. (\<forall>p \<in> fst ` set (record_fields ?n m i). j < p \<or> p + 4 \<le> j) \<Longrightarrow> m' ! j = m ! j"
    using adjustRecords_spec [of ?n m i age override] by blast
  have below: "agree_below i m m'"
    using m'(2,4) by (rule agree_below_records)
  have cnt: "header_count m' k = header_count m k" if "k + 2 \<le> 12" for k
    using agree_below_reads(2) [OF below] that \<open>12 \<le> i\<close> by (simp add: header_count_def)
  have "first_record m' = Some i"
    using skipQuestions_agree_below [OF q below] m'(2) len by (simp add: first_record_def cnt)
  then have "ttl_fields m' = record_fields ?n m' i" by (simp add: ttl_fields_def cnt)
  with m' Some show ?thesis by (auto simp: adjustResponseTTLs_eq ttl_fields_def)
qed

section \<open>How long an answer may be cached\<close>

definition answer_fields :: "bytes \<Rightarrow> (nat \<times> u32) list" where
  "answer_fields m = (case first_record m of
     None \<Rightarrow> []
   | Some i \<Rightarrow> record_fields (header_count m 6) m i)"

lemma record_fields_prefix: "set (record_fields a m i) \<subseteq> set (record_fields (a + b) m i)"
proof (induction a arbitrary: i)
  case (Suc a)
  show ?case
  proof (cases "rr_head m i")
    case (Some h)
    then show ?thesis using Suc.IH by (cases h) auto
  qed simp
qed simp

lemma answer_fields_subset: "set (answer_fields m) \<subseteq> set (ttl_fields m)"
  using record_fields_prefix [of "header_count m 6" m _ "header_count m 8 + header_count m 10"]
  by (auto simp: answer_fields_def ttl_fields_def add.assoc split: option.splits)

lemma minimumRecordTTL_loop_lower:
  "minimumRecordTTL_loop n m i False minimum found = Some (t, j, True) \<Longrightarrow>
     (found \<longrightarrow> t \<le> minimum) \<and> (\<forall>(p, ttl) \<in> set (record_fields n m i). t \<le> ttl)"
proof (induction n arbitrary: i minimum found)
  case (Suc n)
  show ?case
  proof (cases "rr_head m i")
    case None
    with Suc.prems show ?thesis by (simp add: minimumRecordTTL_loop_head del: minimumRecordTTL_loop.simps)
  next
    case (Some h)
    obtain nxt rt ttl off where h: "h = (nxt, rt, ttl, off)" by (cases h)
    note prems = Suc.prems [unfolded minimumRecordTTL_loop_head Some h]
    consider "rt = 41" "minimumRecordTTL_loop n m off False minimum found = Some (t, j, True)"
      | "rt \<noteq> 41" "\<not> found \<or> ttl < minimum" "minimumRecordTTL_loop n m off False ttl True = Some (t, j, True)"
      | "rt \<noteq> 41" "found" "minimum \<le> ttl" "minimumRecordTTL_loop n m off False minimum found = Some (t, j, True)"
      using prems by (auto simp: Let_def not_less split: if_splits)
    then show ?thesis
    proof cases
      case 1
      then show ?thesis using Suc.IH [OF 1(2)] by (simp add: Some h)
    next
      case 2
      then show ?thesis using Suc.IH [OF 2(3)] by (auto simp: Some h)
    next
      case 3
      then show ?thesis using Suc.IH [OF 3(4)] by (auto simp: Some h)
    qed
  qed
qed auto

lemma minimumRecordTTL_returns:
  obtains t j ok where "minimumRecordTTL m i n neg = Some (t, j, ok)"
  using minimumRecordTTL_loop_total [of n m i neg 0 False] by (auto simp: minimumRecordTTL_def)

lemma min_seconds:
  fixes a b :: u32
  assumes "a \<le> b"
  shows "int (unat (if c < a then c else a)) * second \<le> int (unat b) * second"
  using assms by (auto simp: word_le_def word_less_def)

lemma cap_seconds:
  fixes a :: u32
  shows "int (unat (if 300 < a then 300 else a)) * second \<le> 300 * second"
  by (auto simp: word_le_def word_less_def)

lemma responseTTL_spec:
  "\<exists>d. responseTTL m = Some d \<and> 0 \<le> d \<and> d \<le> 300 * second \<and>
     (header_count m 6 = 0 \<longrightarrow> d \<le> 60 * second) \<and>
     (0 < d \<longrightarrow> 12 \<le> length m \<and> the (u16_at m 2) AND 0xf \<in> {0, 3} \<and>
        (\<forall>(p, t) \<in> set (answer_fields m). d \<le> int (unat t) * second))"
proof (cases "length m < 12")
  case False
  then obtain f q a u ad where r: "u16_at m 2 = Some f"
      "u16_at m 4 = Some q" "header_count m 4 = unat q"
      "u16_at m 6 = Some a" "header_count m 6 = unat a"
      "u16_at m 8 = Some u" "u16_at m 10 = Some ad"
    using u16_at_returns [of 2 m] header_reads [of m 4] header_reads [of m 6] header_reads [of m 8]
      header_reads [of m 10] by auto
  obtain w where w: "skipQuestions (unat q) m 12 = Some w"
    using skipQuestions_total [of "unat q" m 12] by blast
  show ?thesis
  proof (cases w)
    case None
    then have "responseTTL m = Some 0" using False r w by (simp add: responseTTL_def Let_def)
    then show ?thesis by simp
  next
    case (Some i)
    obtain t1 j1 ok1 where l1: "minimumRecordTTL m i (unat a) False = Some (t1, j1, ok1)"
      by (rule minimumRecordTTL_returns)
    obtain t2 j2 ok2 where l2: "minimumRecordTTL m j1 (unat u) (unat a = 0) = Some (t2, j2, ok2)"
      by (rule minimumRecordTTL_returns)
    obtain t3 j3 ok3 where l3: "minimumRecordTTL m j2 (unat ad) False = Some (t3, j3, ok3)"
      by (rule minimumRecordTTL_returns)
    define low where "low = (if unat a = 0 then (if 60 < t2 then 60 else t2) else t1)"
    have eq: "responseTTL m = Some (if (f AND 0xf = 0 \<or> f AND 0xf = 3) \<and> ok1 \<and> ok2 \<and> ok3 \<and> low \<noteq> 0
        then int (unat (if 300 < low then 300 else low)) * second else 0)"
      using False r w Some l1 l2 l3
      by (cases "unat a = 0") (simp_all add: responseTTL_def low_def Let_def)
    have fields: "answer_fields m = record_fields (unat a) m i"
      using False r w Some by (simp add: answer_fields_def first_record_def)
    have lower: "low \<le> t" if "ok1" "(p, t) \<in> set (answer_fields m)" for p t
      using minimumRecordTTL_loop_lower [of "unat a" m i 0 False t1 j1] l1 that
      by (cases "unat a") (auto simp: fields low_def minimumRecordTTL_def)
    have "unat a = 0 \<Longrightarrow> low \<le> 60" by (auto simp: low_def not_less)
    then have "unat a = 0 \<Longrightarrow> int (unat (if 300 < low then 300 else low)) * second \<le> 60 * second"
      using min_seconds [of low 60 300] by simp
    moreover have "ok1 \<Longrightarrow> (p, t) \<in> set (answer_fields m) \<Longrightarrow>
        int (unat (if 300 < low then 300 else low)) * second \<le> int (unat t) * second" for p t
      using min_seconds [OF lower] by blast
    ultimately show ?thesis
      using eq cap_seconds [of low] r False by auto
  qed
qed (simp add: responseTTL_def)

section \<open>Properties\<close>

text \<open>Ageing a message: for every byte sequence, \<open>adjustResponseTTLs\<close> returns (it never reads or
  writes outside the message), keeps the length, replaces the life time of every walked record
  other than OPT by the override, or by itself less the age and never below zero, and leaves
  every other byte as it is.\<close>

theorem ageing_rewrites_only_ttls:
  "\<exists>m'. adjustResponseTTLs m age override = Some m' \<and> length m' = length m \<and>
     ttl_fields m' = map (apsnd (aged_ttl age override)) (ttl_fields m) \<and>
     (\<forall>j. (\<forall>p \<in> fst ` set (ttl_fields m). j < p \<or> p + 4 \<le> j) \<longrightarrow> m' ! j = m ! j)"
  by (rule adjustResponseTTLs_spec)

definition small_answer :: bytes where
  "small_answer = [0, 7, 0x81, 0x80, 0, 0, 0, 1, 0, 0, 0, 0,
     0, 0, 1, 0, 1, 0, 0, 0, 100, 0, 1, 9]"

theorem ageing_rewrites_only_ttls_witness:
  "\<exists>m'. adjustResponseTTLs small_answer 40 0 = Some m' \<and> m' ! 23 = small_answer ! 23 \<and>
     ttl_fields m' = [(17, 60)]"
proof -
  have fields: "ttl_fields small_answer = [(17, 100)]" by code_simp
  show ?thesis
    using ageing_rewrites_only_ttls [of small_answer 40 0] unfolding fields
    by (auto simp: aged_ttl_def)
qed

text \<open>The cacheable life time of any byte sequence is computed without panicking and is at most
  300 seconds, at most 60 seconds when the message has no answer record; it is positive only for
  the response codes 0 and 3, and then no answer record (other than OPT) is cached beyond its own
  life time.\<close>

theorem responseTTL_bounded:
  "\<exists>d. responseTTL m = Some d \<and> 0 \<le> d \<and> d \<le> 300 * second \<and>
     (header_count m 6 = 0 \<longrightarrow> d \<le> 60 * second) \<and>
     (0 < d \<longrightarrow> 12 \<le> length m \<and> the (u16_at m 2) AND 0xf \<in> {0, 3} \<and>
        (\<forall>(p, t) \<in> set (answer_fields m). d \<le> int (unat t) * second))"
  by (rule responseTTL_spec)

theorem responseTTL_bounded_witness:
  "\<exists>d. responseTTL small_answer = Some d \<and> 0 < d \<and> d \<le> int (unat (100 :: u32)) * second"
proof -
  have "responseTTL small_answer = Some (100 * second)" "answer_fields small_answer = [(17, 100)]"
    by code_simp+
  then show ?thesis using responseTTL_bounded [of small_answer] by simp
qed

end
