(* ===== verification/Dns_Question.thy ===== *)
theory Dns_Question
  imports Dns_Wire
begin

text \<open>
  The question of a DNS message and the identity of a query: \<^verbatim>\<open>parseQuestionName\<close>,
  \<^verbatim>\<open>questionIdentity\<close>, \<^verbatim>\<open>matchingQuestion\<close> of \<^verbatim>\<open>internal/policydns/resolver.go\<close> and
  \<^verbatim>\<open>normalizedQueryKey\<close>, \<^verbatim>\<open>responseWithID\<close> of \<^verbatim>\<open>internal/policydns/cache.go\<close>. A Go string is
  a byte sequence; names and cache keys are \<open>string\<close>, whose characters are bytes.
\<close>

unbundle bit_operations_syntax

section \<open>Operations\<close>

definition byte_char :: "byte \<Rightarrow> char" where
  "byte_char b = char_of (unat b)"

text \<open>The lower-casing of one byte of a label in the loop of \<open>parseQuestionName\<close>.\<close>

definition lower_byte :: "byte \<Rightarrow> byte" where
  "lower_byte b = (if 65 \<le> b \<and> b \<le> 90 then b + 32 else b)"

function parseQuestionName_loop :: "bytes \<Rightarrow> nat \<Rightarrow> string \<Rightarrow> (string \<times> nat) option go" where
  "parseQuestionName_loop message offset name =
     (if length message \<le> offset then Some None
      else do {
        b \<leftarrow> byte_at message offset;
        let n = unat b;
        let offset' = Suc offset;
        if n = 0 then Some (Some (name, offset'))
        else if 63 < n \<or> b AND 0xC0 \<noteq> 0 \<or> length message < offset' + n then Some None
        else parseQuestionName_loop message (offset' + n)
          ((if name \<noteq> [] then name @ ''.'' else name) @
           map (byte_char \<circ> lower_byte) (take n (drop offset' message)))
      })"
  by pat_completeness auto
termination
  by (relation "measure (\<lambda>(m, i, _). length m - i)") auto

declare parseQuestionName_loop.simps [simp del]

definition parseQuestionName :: "bytes \<Rightarrow> (string \<times> nat) option go" where
  "parseQuestionName message =
     (if length message < 12 then Some None else parseQuestionName_loop message 12 [])"

definition questionName :: "bytes \<Rightarrow> string option go" where
  "questionName message = map_option (map_option fst) (parseQuestionName message)"

definition questionIdentity :: "bytes \<Rightarrow> (string \<times> u16 \<times> u16) option go" where
  "questionIdentity message = do {
     parsed \<leftarrow> parseQuestionName message;
     case parsed of
       None \<Rightarrow> Some None
     | Some (name, endp) \<Rightarrow>
         if length message < endp + 4 then Some None
         else do {
           qtype \<leftarrow> u16_at message endp;
           qclass \<leftarrow> u16_at message (endp + 2);
           Some (Some (name, qtype, qclass))
         }
   }"

definition matchingQuestion :: "bytes \<Rightarrow> bytes \<Rightarrow> bool go" where
  "matchingQuestion query response =
     (if length query < 12 \<or> length response < 12 then Some False
      else do {
        queryID \<leftarrow> u16_at query 0;
        responseID \<leftarrow> u16_at response 0;
        if queryID \<noteq> responseID then Some False
        else do {
          queryFlags \<leftarrow> u16_at query 2;
          responseFlags \<leftarrow> u16_at response 2;
          if queryFlags AND 0x8000 \<noteq> 0 \<or> responseFlags AND 0x8000 = 0 then Some False
          else do {
            queryCount \<leftarrow> u16_at query 4;
            responseCount \<leftarrow> u16_at response 4;
            if queryCount \<noteq> 1 \<or> responseCount \<noteq> 1 then Some False
            else do {
              q \<leftarrow> questionIdentity query;
              r \<leftarrow> questionIdentity response;
              Some (q \<noteq> None \<and> q = r)
            }
          }
        }
      })"

definition normalizedQueryKey :: "string \<Rightarrow> bytes \<Rightarrow> string option" where
  "normalizedQueryKey serverTag query =
     (if length query < 12 then None
      else Some (serverTag @ [CHR 0x00] @ map byte_char (query[0 := 0, 1 := 0])))"

definition responseWithID :: "bytes \<Rightarrow> bytes \<Rightarrow> bytes" where
  "responseWithID response queryID =
     (if 2 \<le> length response \<and> 2 \<le> length queryID
      then response[0 := queryID ! 0, 1 := queryID ! 1] else response)"

section \<open>Facts\<close>

lemma byte_char_inj [simp]: "byte_char a = byte_char b \<longleftrightarrow> a = b"
proof
  assume "byte_char a = byte_char b"
  then have "of_char (char_of (unat a) :: char) = (of_char (char_of (unat b) :: char) :: nat)"
    by (simp add: byte_char_def)
  then have "unat a mod 256 = unat b mod 256" by simp
  moreover have "unat a < 256" "unat b < 256" using unsigned_less [of a] unsigned_less [of b] by simp_all
  ultimately show "a = b" by (simp add: word_unat_eq_iff)
qed simp

lemma map_byte_char_inj [simp]: "map byte_char xs = map byte_char ys \<longleftrightarrow> xs = ys"
  by (simp add: inj_map_eq_map inj_def)

lemma parseQuestionName_loop_total:
  "\<exists>r. parseQuestionName_loop m i name = Some r \<and>
     (\<forall>s j. r = Some (s, j) \<longrightarrow> i < j \<and> j \<le> length m)"
proof (induction m i name rule: parseQuestionName_loop.induct)
  case (1 m i name)
  show ?case
  proof (cases "i < length m")
    case True
    then have b: "byte_at m i = Some (m ! i)" by (simp add: byte_at_def)
    show ?thesis
    proof (cases "unat (m ! i) = 0 \<or> 63 < unat (m ! i) \<or> m ! i AND 0xC0 \<noteq> 0 \<or>
        length m < Suc i + unat (m ! i)")
      case True
      with \<open>i < length m\<close> b show ?thesis
        by (auto simp: parseQuestionName_loop.simps [of m i] Let_def)
    next
      case False
      let ?name = "(if name \<noteq> [] then name @ ''.'' else name) @
        map (byte_char \<circ> lower_byte) (take (unat (m ! i)) (drop (Suc i) m))"
      obtain r where r: "parseQuestionName_loop m (Suc i + unat (m ! i)) ?name = Some r"
        "\<forall>s j. r = Some (s, j) \<longrightarrow> Suc i + unat (m ! i) < j \<and> j \<le> length m"
        using "1.IH" [OF _ b refl refl] False \<open>i < length m\<close> by auto
      have "parseQuestionName_loop m i name = Some r"
        using r(1) False \<open>i < length m\<close> b by (subst parseQuestionName_loop.simps) (simp add: Let_def)
      then show ?thesis using r(2) by (auto dest: Suc_lessD)
    qed
  qed (simp add: parseQuestionName_loop.simps [of m i])
qed

lemma parseQuestionName_total:
  "\<exists>r. parseQuestionName m = Some r \<and> (\<forall>s j. r = Some (s, j) \<longrightarrow> 12 < j \<and> j \<le> length m)"
  using parseQuestionName_loop_total [of m 12 "[]"] by (simp add: parseQuestionName_def)

lemma questionIdentity_total: "\<exists>r. questionIdentity m = Some r"
proof -
  obtain r where r: "parseQuestionName m = Some r" using parseQuestionName_total by blast
  show ?thesis
    by (auto simp: questionIdentity_def r u16_at_def split: option.splits)
qed

lemma matchingQuestion_eq:
  assumes "12 \<le> length q" "12 \<le> length r" "questionIdentity q = Some x" "questionIdentity r = Some y"
  obtains qi ri qf rf qc rc where "u16_at q 0 = Some qi" "u16_at r 0 = Some ri"
    "matchingQuestion q r = Some (qi = ri \<and> qf AND 0x8000 = (0 :: u16) \<and> rf AND 0x8000 \<noteq> (0 :: u16) \<and>
       qc = (1 :: u16) \<and> rc = (1 :: u16) \<and> x \<noteq> None \<and> x = y)"
proof -
  obtain qi ri qf rf qc rc where "u16_at q 0 = Some qi" "u16_at r 0 = Some ri"
      "u16_at q 2 = Some qf" "u16_at r 2 = Some rf" "u16_at q 4 = Some qc" "u16_at r 4 = Some rc"
    using u16_at_returns [of 0 q] u16_at_returns [of 0 r] u16_at_returns [of 2 q]
      u16_at_returns [of 2 r] u16_at_returns [of 4 q] u16_at_returns [of 4 r] assms(1,2) by auto
  with assms show thesis by (intro that [of qi ri qf rf qc rc]) (auto simp: matchingQuestion_def)
qed

lemma matchingQuestion_total: "\<exists>b. matchingQuestion q r = Some b"
proof (cases "12 \<le> length q \<and> 12 \<le> length r")
  case True
  obtain x y where "questionIdentity q = Some x" "questionIdentity r = Some y"
    using questionIdentity_total by blast
  with True show ?thesis by (auto elim!: matchingQuestion_eq [of q r])
qed (auto simp: matchingQuestion_def)

lemma u16_high: "ucast (drop_bit 8 (push_bit 8 (ucast a) OR ucast b :: u16)) = (a :: byte)" for b :: byte
  by (rule bit_word_eqI) (auto simp: bit_simps dest: bit_imp_le_length)

lemma u16_low: "ucast (push_bit 8 (ucast a) OR ucast b :: u16) = (b :: byte)" for a :: byte
  by (rule bit_word_eqI) (auto simp: bit_simps)

lemma u16_at_inj:
  assumes "u16_at m i = Some v" "u16_at m' i = Some v"
  shows "m' ! i = m ! i" "m' ! (i + 1) = m ! (i + 1)"
proof -
  let ?w = "\<lambda>m :: bytes. push_bit 8 (ucast (m ! i)) OR ucast (m ! (i + 1)) :: u16"
  from assms have eq: "?w m = ?w m'" by (auto simp: u16_at_def split: if_splits)
  have "ucast (drop_bit 8 (?w m)) = (ucast (drop_bit 8 (?w m')) :: byte)"
    "ucast (?w m) = (ucast (?w m') :: byte)" by (simp_all only: eq)
  then show "m' ! i = m ! i" "m' ! (i + 1) = m ! (i + 1)" by (simp_all only: u16_high u16_low)
qed

lemma take2_eq_nth: "2 \<le> length xs \<Longrightarrow> take 2 xs = [xs ! 0, xs ! 1]"
  by (cases xs; cases "tl xs") auto

text \<open>An accepted answer repeats the identifier and the question of the query.\<close>

lemma matchingQuestion_True:
  assumes "matchingQuestion q r = Some True"
  shows "12 \<le> length q" "12 \<le> length r" "take 2 r = take 2 q"
    "\<exists>x. questionIdentity q = Some (Some x) \<and> questionIdentity r = Some (Some x)"
proof -
  show len: "12 \<le> length q" "12 \<le> length r"
    using assms by (auto simp: matchingQuestion_def split: if_splits)
  obtain x y where xy: "questionIdentity q = Some x" "questionIdentity r = Some y"
    using questionIdentity_total by blast
  obtain qi ri where "u16_at q 0 = Some qi" "u16_at r 0 = Some ri" "qi = ri" "x \<noteq> None" "x = y"
    by (rule matchingQuestion_eq [OF len xy]) (use assms in auto)
  then show "take 2 r = take 2 q" "\<exists>x. questionIdentity q = Some (Some x) \<and> questionIdentity r = Some (Some x)"
    using u16_at_inj [of q 0 qi r] len xy by (auto simp: take2_eq_nth)
qed

section \<open>The query key\<close>

lemma split_at_separator:
  assumes "xs @ x # ys = xs' @ x # ys'" "x \<notin> set xs" "x \<notin> set xs'"
  shows "xs = xs' \<and> ys = ys'"
proof -
  have "takeWhile (\<lambda>c. c \<noteq> x) (xs @ x # ys) = takeWhile (\<lambda>c. c \<noteq> x) (xs' @ x # ys')"
    by (simp only: assms(1))
  moreover have "takeWhile (\<lambda>c. c \<noteq> x) (zs @ x # us) = zs" if "x \<notin> set zs" for zs us
    using that by (induction zs) auto
  ultimately have "xs = xs'" using assms(2,3) by metis
  with assms(1) show ?thesis by simp
qed

lemma normalizedQueryKey_inj:
  assumes "normalizedQueryKey t q = Some k" "normalizedQueryKey t' q' = Some k"
    and "t' = t \<or> CHR 0x00 \<notin> set t \<and> CHR 0x00 \<notin> set t'"
  shows "t' = t \<and> length q' = length q \<and> drop 2 q' = drop 2 q"
proof -
  from assms(1,2) have eq: "t @ CHR 0x00 # map byte_char (q[0 := 0, 1 := 0]) =
      t' @ CHR 0x00 # map byte_char (q'[0 := 0, 1 := 0])"
    by (auto simp: normalizedQueryKey_def split: if_splits)
  have "t = t' \<and> map byte_char (q[0 := 0, 1 := 0]) = map byte_char (q'[0 := 0, 1 := 0])"
    using assms(3) split_at_separator [OF eq] eq by (metis append.assoc list.inject same_append_eq)
  then have "t = t'" and same: "q[0 := 0, 1 := 0] = q'[0 := 0, 1 := 0]" by (auto simp del: list_update.simps)
  moreover have "drop 2 (xs[0 := 0, 1 := 0]) = drop 2 xs" for xs :: bytes
    by (simp add: drop_update_cancel)
  moreover have "length q' = length q" using arg_cong [OF same, of length] by simp
  ultimately show ?thesis by metis
qed

lemma normalizedQueryKey_cong:
  assumes "length q' = length q" "drop 2 q' = drop 2 q"
  shows "normalizedQueryKey t q' = normalizedQueryKey t q"
proof (cases "2 \<le> length q")
  case True
  have "xs[0 := 0, 1 := 0] = 0 # 0 # drop 2 xs" if "2 \<le> length xs" for xs :: bytes
    using that by (cases xs; cases "tl xs") simp_all
  then have "q'[0 := 0, 1 := 0] = q[0 := 0, 1 := 0]" using True assms by simp
  then show ?thesis using assms(1) by (simp add: normalizedQueryKey_def)
qed (use assms in \<open>simp add: normalizedQueryKey_def\<close>)

lemma responseWithID_length [simp]: "length (responseWithID r q) = length r"
  by (simp add: responseWithID_def)

lemma responseWithID_drop: "drop 2 (responseWithID r q) = drop 2 r"
  by (simp add: responseWithID_def drop_update_cancel)

lemma responseWithID_take:
  "2 \<le> length r \<Longrightarrow> 2 \<le> length q \<Longrightarrow> take 2 (responseWithID r q) = take 2 q"
  by (cases r; cases "tl r") (simp_all add: responseWithID_def take2_eq_nth)

section \<open>Encoding and parsing a name\<close>

text \<open>The wire form of a list of labels: each label behind its length byte, and a zero byte.\<close>

fun encode_name :: "bytes list \<Rightarrow> bytes" where
  "encode_name [] = [0]"
| "encode_name (l # ls) = of_nat (length l) # l @ encode_name ls"

fun dotted :: "string list \<Rightarrow> string" where
  "dotted [] = []"
| "dotted [l] = l"
| "dotted (l # ls) = l @ ''.'' @ dotted ls"

definition good_label :: "bytes \<Rightarrow> bool" where
  "good_label l \<longleftrightarrow> 0 < length l \<and> length l \<le> 63"

definition extend_name :: "string \<Rightarrow> string list \<Rightarrow> string" where
  "extend_name name ls = (if ls = [] then name else if name = [] then dotted ls else name @ ''.'' @ dotted ls)"

lemma extend_name_Cons:
  "l \<noteq> [] \<Longrightarrow> extend_name ((if name \<noteq> [] then name @ ''.'' else name) @ l) ls = extend_name name (l # ls)"
  by (cases ls) (auto simp: extend_name_def)

lemma label_length_byte:
  assumes "good_label l"
  shows "unat (of_nat (length l) :: byte) = length l" "(of_nat (length l) :: byte) AND 0xC0 = 0"
proof -
  let ?b = "of_nat (length l) :: byte"
  have small: "length l < 64" using assms by (simp add: good_label_def)
  then show u: "unat ?b = length l" by (simp add: unat_of_nat)
  have "unat (take_bit 6 ?b) = take_bit 6 (unat ?b)" by (rule unsigned_take_bit_eq)
  also have "\<dots> = unat ?b" using u small by (simp add: take_bit_nat_eq_self_iff)
  finally have low: "take_bit 6 ?b = ?b" by (simp only: word_unat_eq_iff)
  have high: "(0xC0 :: byte) = push_bit 6 3" by simp
  have "take_bit 6 ?b AND push_bit 6 3 = 0"
    by (rule bit_word_eqI) (simp only: bit_and_iff bit_take_bit_iff bit_push_bit_iff, simp)
  then show "?b AND 0xC0 = 0" by (simp only: low high)
qed

lemma encode_name_pos [simp]: "encode_name ls \<noteq> []"
  by (cases ls) simp_all

lemma parse_encoded_name:
  assumes "\<forall>l \<in> set ls. good_label l"
  shows "parseQuestionName_loop (pre @ encode_name ls @ rest) (length pre) name =
    Some (Some (extend_name name (map (map (byte_char \<circ> lower_byte)) ls),
                length pre + length (encode_name ls)))"
  using assms
proof (induction ls arbitrary: pre name)
  case Nil
  then show ?case
    by (simp add: parseQuestionName_loop.simps [of "pre @ 0 # rest"] byte_at_def extend_name_def nth_append)
next
  case (Cons l ls)
  let ?m = "pre @ encode_name (l # ls) @ rest" and ?b = "of_nat (length l) :: byte"
  let ?pre = "pre @ ?b # l"
  let ?lower = "map (byte_char \<circ> lower_byte)"
  from Cons.prems have l: "good_label l" by simp
  then have ne: "l \<noteq> []" "unat ?b \<noteq> 0" "\<not> 63 < unat ?b"
    using label_length_byte(1) [OF l] by (auto simp: good_label_def)
  have m: "?m = ?pre @ encode_name ls @ rest" by simp
  have b: "byte_at ?m (length pre) = Some ?b" by (simp add: byte_at_def nth_append)
  have len: "Suc (length pre) + length l < length ?m" using encode_name_pos [of ls] by simp
  have tk: "take (length l) (drop (Suc (length pre)) ?m) = l" by simp
  have "parseQuestionName_loop ?m (length pre) name =
      parseQuestionName_loop ?m (length ?pre)
        ((if name \<noteq> [] then name @ ''.'' else name) @ ?lower l)"
    using ne b tk len label_length_byte [OF l]
    by (subst parseQuestionName_loop.simps) (simp add: Let_def del: encode_name.simps drop_append take_append)
  also have "\<dots> = Some (Some (extend_name ((if name \<noteq> [] then name @ ''.'' else name) @ ?lower l)
      (map ?lower ls), length ?pre + length (encode_name ls)))"
    unfolding m using Cons.prems by (intro Cons.IH) simp
  finally show ?case
    using ne by (simp add: extend_name_Cons comp_def)
qed

section \<open>Properties\<close>

text \<open>C39: Parsing a question reads back the name that was encoded: for a message with a 12 byte
  header followed by the wire form of labels of 1 to 63 bytes, \<open>parseQuestionName\<close> returns the
  labels lower-cased and joined with dots, and the offset just behind the name.\<close>

theorem parseQuestionName_encoded:
  assumes "length header = 12" and "\<forall>l \<in> set labels. 0 < length l \<and> length l \<le> 63"
  shows "parseQuestionName (header @ encode_name labels @ rest) =
    Some (Some (dotted (map (map (byte_char \<circ> lower_byte)) labels), 12 + length (encode_name labels)))"
  using parse_encoded_name [of labels header rest "[]"] assms
  by (cases labels) (simp_all add: parseQuestionName_def good_label_def extend_name_def)

theorem parseQuestionName_encoded_witness:
  "parseQuestionName (replicate 12 0 @ encode_name [[0x57, 0x77], [0x61]] @ [0, 1, 0, 1]) =
    Some (Some (''ww.a'', 18))"
proof -
  have name: "dotted (map (map (byte_char \<circ> lower_byte)) [[0x57, 0x77], [0x61]]) = ''ww.a''" by code_simp
  show ?thesis
    using parseQuestionName_encoded [of "replicate 12 0" "[[0x57, 0x77], [0x61]]" "[0, 1, 0, 1]"]
    unfolding name by simp
qed

text \<open>No message makes the question code panic, and a response is only accepted for the query it
  answers: \<open>matchingQuestion\<close> returns on every pair of byte sequences, and when it returns true the
  response carries the identifier of the query and its question has the same name, type and
  class.\<close>

theorem matchingQuestion_sound:
  "\<exists>accepted. matchingQuestion query response = Some accepted \<and>
     (accepted \<longrightarrow> take 2 response = take 2 query \<and>
        (\<exists>identity. questionIdentity query = Some (Some identity) \<and>
           questionIdentity response = Some (Some identity)))"
proof -
  obtain accepted where "matchingQuestion query response = Some accepted"
    using matchingQuestion_total by blast
  then show ?thesis using matchingQuestion_True(3,4) [of query response] by (cases accepted) auto
qed

theorem matchingQuestion_sound_witness:
  "take 2 ([0, 7, 0x81, 0, 0, 1, 0, 0, 0, 0, 0, 0, 1, 97, 0, 0, 1, 0, 1] :: bytes) = [0, 7] \<and>
   matchingQuestion [0, 7, 1, 0, 0, 1, 0, 0, 0, 0, 0, 0, 1, 97, 0, 0, 1, 0, 1]
     [0, 7, 0x81, 0, 0, 1, 0, 0, 0, 0, 0, 0, 1, 97, 0, 0, 1, 0, 1] = Some True"
proof -
  have "matchingQuestion [0, 7, 1, 0, 0, 1, 0, 0, 0, 0, 0, 0, 1, 97, 0, 0, 1, 0, 1]
     [0, 7, 0x81, 0, 0, 1, 0, 0, 0, 0, 0, 0, 1, 97, 0, 0, 1, 0, 1] = Some True" by code_simp
  then show ?thesis
    using matchingQuestion_sound [of "[0, 7, 1, 0, 0, 1, 0, 0, 0, 0, 0, 0, 1, 97, 0, 0, 1, 0, 1]"
        "[0, 7, 0x81, 0, 0, 1, 0, 0, 0, 0, 0, 0, 1, 97, 0, 0, 1, 0, 1]"] by simp
qed

text \<open>C40: Cache keys do not collide across upstreams: two queries to the same server tag, or to two tags
  without a NUL byte, have the same key exactly when the tags agree, the queries have the same length and they
  agree in every byte behind the two-byte identifier. The code does not exclude a NUL byte in a tag.\<close>

theorem query_key_separates:
  assumes "tag' = tag \<or> CHR 0x00 \<notin> set tag \<and> CHR 0x00 \<notin> set tag'" and "normalizedQueryKey tag query = Some key"
  shows "normalizedQueryKey tag' query' = Some key \<longleftrightarrow> tag' = tag \<and> length query' = length query \<and> drop 2 query' = drop 2 query"
  using normalizedQueryKey_inj [OF assms(2) _ assms(1)] normalizedQueryKey_cong [of query' query tag] assms(2) by auto

theorem query_key_separates_witness:
  "\<exists>key. normalizedQueryKey ''a'' [0, 5, 1, 0, 0, 1, 0, 0, 0, 0, 0, 0, 7] = Some key \<and>
     normalizedQueryKey ''a'' [0, 9, 1, 0, 0, 1, 0, 0, 0, 0, 0, 0, 7] = Some key \<and>
     normalizedQueryKey ''b'' [0, 9, 1, 0, 0, 1, 0, 0, 0, 0, 0, 0, 7] \<noteq> Some key"
proof -
  let ?q = "[0, 5, 1, 0, 0, 1, 0, 0, 0, 0, 0, 0, 7] :: bytes"
  let ?q' = "[0, 9, 1, 0, 0, 1, 0, 0, 0, 0, 0, 0, 7] :: bytes"
  obtain key where key: "normalizedQueryKey ''a'' ?q = Some key" by (simp add: normalizedQueryKey_def)
  show ?thesis
    using key query_key_separates [OF _ key, of "''a''" ?q'] query_key_separates [OF _ key, of "''b''" ?q'] by simp
qed

end
