(* ===== verification/Dns_Cache.thy ===== *)
theory Dns_Cache
  imports Dns_Question
begin

text \<open>
  The response cache of the policy resolver, \<^verbatim>\<open>responseCache\<close> of
  \<^verbatim>\<open>internal/policydns/cache.go\<close>: a map from query keys to elements of a doubly linked list
  in order of use, bounded in entries and in bytes. List elements are pointers in Go; here an
  element is an address, the list is a sequence of addresses with their values, and the map
  holds addresses, so that agreement of the map with the list is an invariant to prove and not
  a consequence of the representation.
\<close>

unbundle bit_operations_syntax

section \<open>State\<close>

record cacheEntry =
  ce_key :: string
  ce_response :: bytes
  ce_weight :: int
  ce_stored :: nanos
  ce_expires :: nanos
  ce_staleAt :: nanos

type_synonym element = nat

record responseCache =
  rc_limit :: int
  rc_byteLimit :: int
  rc_used :: int
  rc_staleTTL :: nanos
  rc_entries :: "string \<rightharpoonup> element"
  rc_order :: "(element \<times> cacheEntry) list"
  rc_next :: element

text \<open>\<open>rc_next\<close> is the next address the allocator hands out.\<close>

section \<open>Linked list operations\<close>

definition list_remove :: "element \<Rightarrow> (element \<times> 'a) list \<Rightarrow> (element \<times> 'a) list" where
  "list_remove el order = filter (\<lambda>p. fst p \<noteq> el) order"

definition moveToFront :: "element \<Rightarrow> (element \<times> 'a) list \<Rightarrow> (element \<times> 'a) list" where
  "moveToFront el order = filter (\<lambda>p. fst p = el) order @ list_remove el order"

definition list_assign :: "element \<Rightarrow> 'a \<Rightarrow> (element \<times> 'a) list \<Rightarrow> (element \<times> 'a) list" where
  "list_assign el v order = map (\<lambda>p. if fst p = el then (el, v) else p) order"

section \<open>Operations\<close>

text \<open>Go's integer division, which truncates towards zero.\<close>

definition go_div :: "int \<Rightarrow> int \<Rightarrow> int" where
  "go_div a b = (if (a < 0) = (b < 0) then \<bar>a\<bar> div \<bar>b\<bar> else - (\<bar>a\<bar> div \<bar>b\<bar>))"

definition cachedResponse :: "bytes \<Rightarrow> bytes \<Rightarrow> nanos \<Rightarrow> u32 \<Rightarrow> bytes go" where
  "cachedResponse response queryID age overrideTTL =
     adjustResponseTTLs (responseWithID response queryID)
       (word_of_int (go_div age second)) overrideTTL"

definition newResponseCache :: "int \<Rightarrow> int \<Rightarrow> nanos \<Rightarrow> responseCache" where
  "newResponseCache limit byteLimit staleTTL =
     \<lparr>rc_limit = limit, rc_byteLimit = byteLimit, rc_used = 0, rc_staleTTL = staleTTL,
      rc_entries = Map.empty, rc_order = [], rc_next = 0\<rparr>"

definition cache_get ::
  "responseCache \<Rightarrow> string \<Rightarrow> bytes \<Rightarrow> nanos \<Rightarrow> (responseCache \<times> bytes option) go" where
  "cache_get cache key queryID now =
     (case rc_entries cache key of
        None \<Rightarrow> Some (cache, None)
      | Some el \<Rightarrow> do {
          entry \<leftarrow> map_of (rc_order cache) el;
          if \<not> now < ce_expires entry then
            (if \<not> now < ce_staleAt entry
             then Some (cache\<lparr>rc_used := rc_used cache - ce_weight entry,
                              rc_order := list_remove el (rc_order cache),
                              rc_entries := (rc_entries cache)(key := None)\<rparr>, None)
             else Some (cache, None))
          else do {
            response \<leftarrow> cachedResponse (ce_response entry) queryID (now - ce_stored entry) 0;
            Some (cache\<lparr>rc_order := moveToFront el (rc_order cache)\<rparr>, Some response)
          }
        })"

definition getStale ::
  "responseCache \<Rightarrow> string \<Rightarrow> bytes \<Rightarrow> nanos \<Rightarrow> (responseCache \<times> bytes option) go" where
  "getStale cache key queryID now =
     (if rc_staleTTL cache \<le> 0 then Some (cache, None)
      else case rc_entries cache key of
        None \<Rightarrow> Some (cache, None)
      | Some el \<Rightarrow> do {
          entry \<leftarrow> map_of (rc_order cache) el;
          if now < ce_expires entry \<or> \<not> now < ce_staleAt entry then Some (cache, None)
          else do {
            response \<leftarrow> cachedResponse (ce_response entry) queryID 0 30;
            Some (cache\<lparr>rc_order := moveToFront el (rc_order cache)\<rparr>, Some response)
          }
        })"

text \<open>The eviction loop at the end of \<open>putOwned\<close>; \<open>Back\<close> of an empty list is the nil
  dereference.\<close>

function cache_evict :: "responseCache \<Rightarrow> responseCache go" where
  "cache_evict cache =
     (if rc_limit cache < int (length (rc_order cache)) \<or> rc_byteLimit cache < rc_used cache
      then if rc_order cache = [] then None
        else let entry = snd (last (rc_order cache)) in
          cache_evict (cache\<lparr>rc_used := rc_used cache - ce_weight entry,
                             rc_entries := (rc_entries cache)(ce_key entry := None),
                             rc_order := butlast (rc_order cache)\<rparr>)
      else Some cache)"
  by pat_completeness auto
termination
  by (relation "measure (\<lambda>c. length (rc_order c))") auto

declare cache_evict.simps [simp del]

definition entry_weight :: "string \<Rightarrow> bytes \<Rightarrow> int" where
  "entry_weight key response = 128 + int (length key) + int (length response)"

definition putOwned ::
  "responseCache \<Rightarrow> string \<Rightarrow> bytes \<Rightarrow> nanos \<Rightarrow> nanos \<Rightarrow> responseCache go" where
  "putOwned cache key response ttl now =
     (let weight = entry_weight key response in
      if rc_limit cache \<le> 0 \<or> rc_byteLimit cache \<le> 0 \<or> rc_byteLimit cache < weight \<or> ttl \<le> 0 \<or>
         length response < 2
      then Some cache
      else do {
        let entry = \<lparr>ce_key = key, ce_response = response[0 := 0, 1 := 0], ce_weight = weight,
                     ce_stored = now, ce_expires = now + ttl,
                     ce_staleAt = now + (ttl + rc_staleTTL cache)\<rparr>;
        stored \<leftarrow> (case rc_entries cache key of
          Some existing \<Rightarrow> do {
            old \<leftarrow> map_of (rc_order cache) existing;
            Some (cache\<lparr>rc_used := rc_used cache - ce_weight old + weight,
                        rc_order := moveToFront existing
                          (list_assign existing (entry\<lparr>ce_key := ce_key old\<rparr>) (rc_order cache))\<rparr>)
          }
        | None \<Rightarrow>
            Some (cache\<lparr>rc_order := (rc_next cache, entry) # rc_order cache,
                        rc_entries := (rc_entries cache)(key \<mapsto> rc_next cache),
                        rc_used := rc_used cache + weight,
                        rc_next := Suc (rc_next cache)\<rparr>));
        cache_evict stored
      })"

section \<open>The invariant\<close>

definition key_index :: "(element \<times> cacheEntry) list \<Rightarrow> (string \<times> element) list" where
  "key_index order = map (\<lambda>(el, entry). (ce_key entry, el)) order"

definition total_weight :: "(element \<times> cacheEntry) list \<Rightarrow> int" where
  "total_weight order = sum_list (map (ce_weight \<circ> snd) order)"

text \<open>The part of the invariant the eviction loop keeps, before the bounds hold again.\<close>

definition cache_linked :: "responseCache \<Rightarrow> bool" where
  "cache_linked c \<longleftrightarrow>
     distinct (map fst (rc_order c)) \<and> distinct (map (ce_key \<circ> snd) (rc_order c)) \<and>
     (\<forall>p \<in> set (rc_order c). fst p < rc_next c) \<and>
     rc_entries c = map_of (key_index (rc_order c)) \<and>
     rc_used c = total_weight (rc_order c) \<and>
     (\<forall>p \<in> set (rc_order c). ce_weight (snd p) = entry_weight (ce_key (snd p)) (ce_response (snd p)) \<and>
        2 \<le> length (ce_response (snd p)))"

definition cache_bounded :: "responseCache \<Rightarrow> bool" where
  "cache_bounded c \<longleftrightarrow>
     int (length (rc_order c)) \<le> max 0 (rc_limit c) \<and> rc_used c \<le> max 0 (rc_byteLimit c)"

definition cache_ok :: "responseCache \<Rightarrow> bool" where
  "cache_ok c \<longleftrightarrow> cache_linked c \<and> cache_bounded c"

text \<open>What the cache holds, most recently used entry first.\<close>

definition cached :: "responseCache \<Rightarrow> cacheEntry list" where
  "cached c = map snd (rc_order c)"

definition cache_find :: "responseCache \<Rightarrow> string \<Rightarrow> cacheEntry option" where
  "cache_find c key = find (\<lambda>e. ce_key e = key) (cached c)"

section \<open>The list and its index\<close>

text \<open>The facts about the list alone: addresses and keys are unique and weights are right.\<close>

definition order_ok :: "(element \<times> cacheEntry) list \<Rightarrow> bool" where
  "order_ok order \<longleftrightarrow>
     distinct (map fst order) \<and> distinct (map (ce_key \<circ> snd) order) \<and>
     (\<forall>p \<in> set order. ce_weight (snd p) = entry_weight (ce_key (snd p)) (ce_response (snd p)) \<and>
        2 \<le> length (ce_response (snd p)))"

lemma cache_linked_alt:
  "cache_linked c \<longleftrightarrow> order_ok (rc_order c) \<and> (\<forall>p \<in> set (rc_order c). fst p < rc_next c) \<and>
     rc_entries c = map_of (key_index (rc_order c)) \<and> rc_used c = total_weight (rc_order c)"
  by (auto simp: cache_linked_def order_ok_def)

lemma total_weight_simps [simp]:
  "total_weight [] = 0" "total_weight (p # ps) = ce_weight (snd p) + total_weight ps"
  "total_weight (ps @ qs) = total_weight ps + total_weight qs"
  by (simp_all add: total_weight_def)

lemma entry_weight_pos [simp]: "0 < entry_weight key response"
  by (simp add: entry_weight_def)

lemma total_weight_nonneg: "order_ok order \<Longrightarrow> 0 \<le> total_weight order"
  unfolding total_weight_def by (rule sum_list_nonneg) (auto simp: order_ok_def less_imp_le)

lemma order_same:
  assumes "order_ok order" "(el, e) \<in> set order" "p \<in> set order"
  shows "fst p = el \<longleftrightarrow> p = (el, e)" "ce_key (snd p) = ce_key e \<longleftrightarrow> p = (el, e)"
  using assms by (auto simp: order_ok_def distinct_map inj_on_def)

lemma order_filter_same:
  assumes "order_ok order" "(el, e) \<in> set order"
  shows "filter (\<lambda>p. fst p = el) order = [(el, e)]"
  using filter_unique_key [of fst order "(el, e)"] assms by (simp add: order_ok_def)

lemma list_remove_by_key:
  assumes "order_ok order" "(el, e) \<in> set order"
  shows "list_remove el order = filter (\<lambda>p. ce_key (snd p) \<noteq> ce_key e) order"
  unfolding list_remove_def using order_same [OF assms] by (intro filter_cong) auto

lemma moveToFront_eq:
  assumes "order_ok order" "(el, e) \<in> set order"
  shows "moveToFront el order = (el, e) # list_remove el order"
  using order_filter_same [OF assms] by (simp add: moveToFront_def)

lemma order_ok_remove: "order_ok order \<Longrightarrow> order_ok (list_remove el order)"
  by (auto simp: order_ok_def list_remove_def distinct_map_filter)

lemma order_ok_Cons:
  "order_ok ((el, e) # order) \<longleftrightarrow>
     order_ok order \<and> el \<notin> fst ` set order \<and> ce_key e \<notin> (ce_key \<circ> snd) ` set order \<and>
     ce_weight e = entry_weight (ce_key e) (ce_response e) \<and> 2 \<le> length (ce_response e)"
  by (auto simp: order_ok_def)

lemma order_ok_front:
  assumes "order_ok order" "(el, e) \<in> set order" "ce_key e' = ce_key e"
    "ce_weight e' = entry_weight (ce_key e') (ce_response e')" "2 \<le> length (ce_response e')"
  shows "order_ok ((el, e') # list_remove el order)"
proof -
  have "el \<notin> fst ` set (list_remove el order)" by (auto simp: list_remove_def)
  moreover have "ce_key e' \<notin> (ce_key \<circ> snd) ` set (list_remove el order)"
    using assms(3) by (auto simp: list_remove_by_key [OF assms(1,2)])
  ultimately show ?thesis using assms order_ok_remove [OF assms(1)] by (simp add: order_ok_Cons)
qed

lemma total_weight_remove:
  assumes "order_ok order" "(el, e) \<in> set order"
  shows "total_weight (list_remove el order) = total_weight order - ce_weight e"
proof -
  have "total_weight order = total_weight (filter (\<lambda>p. fst p = el) order) + total_weight (list_remove el order)"
    by (induction order) (auto simp: list_remove_def)
  with order_filter_same [OF assms] show ?thesis by simp
qed

lemma key_index_Cons: "map_of (key_index ((el, e) # order)) = (map_of (key_index order))(ce_key e \<mapsto> el)"
  by (simp add: key_index_def)

lemma key_index_remove:
  assumes "order_ok order" "(el, e) \<in> set order"
  shows "map_of (key_index (list_remove el order)) = (map_of (key_index order))(ce_key e := None)"
proof -
  have "key_index (list_remove el order) = filter (\<lambda>p. fst p \<noteq> ce_key e) (key_index order)"
    by (simp add: list_remove_by_key [OF assms] key_index_def filter_map comp_def case_prod_beta)
  then show ?thesis by (simp add: map_of_filter_fst)
qed

lemma key_index_lookup:
  assumes "order_ok order"
  shows "map_of (key_index order) key = Some el \<longleftrightarrow> (\<exists>e. (el, e) \<in> set order \<and> ce_key e = key)"
proof -
  have "distinct (map fst (key_index order))"
    using assms by (simp add: order_ok_def key_index_def comp_def case_prod_beta)
  then show ?thesis by (auto simp: key_index_def)
qed

lemma order_value:
  assumes "order_ok order" "(el, e) \<in> set order"
  shows "map_of order el = Some e"
  using assms by (simp add: order_ok_def)

lemma find_by_key:
  assumes "distinct (map f xs)" "x \<in> set xs"
  shows "find (\<lambda>y. f y = f x) xs = Some x"
  using assms by (induction xs) (auto simp: image_iff)

text \<open>The index agrees with what the cache holds.\<close>

lemma cache_lookup_cases:
  assumes "cache_linked c"
  obtains (absent) "rc_entries c key = None" "cache_find c key = None"
  | (present) el e where "rc_entries c key = Some el" "cache_find c key = Some e"
      "(el, e) \<in> set (rc_order c)" "map_of (rc_order c) el = Some e" "ce_key e = key"
proof (cases "rc_entries c key")
  case None
  with assms have "key \<notin> fst ` set (key_index (rc_order c))"
    by (simp add: cache_linked_alt map_of_eq_None_iff)
  then have "cache_find c key = None"
    by (auto simp: cache_find_def cached_def find_None_iff key_index_def image_iff)
  with None that(1) show ?thesis by blast
next
  case (Some el)
  have ok: "order_ok (rc_order c)" using assms by (simp add: cache_linked_alt)
  from Some assms obtain e where e: "(el, e) \<in> set (rc_order c)" "ce_key e = key"
    using key_index_lookup [OF ok, of key el] by (auto simp: cache_linked_alt)
  have "distinct (map ce_key (cached c))" "e \<in> set (cached c)"
    using ok e by (force simp: order_ok_def cached_def)+
  then have "cache_find c key = Some e"
    unfolding cache_find_def using find_by_key e(2) by metis
  with Some e order_value [OF ok e(1)] that(2) show ?thesis by blast
qed

section \<open>The abstract cache\<close>

text \<open>
  The contract of the cache without addresses and index: a list of entries, most recently used
  first, one entry for a key, cut to the longest prefix that fits the two limits.
\<close>

definition lru_fits :: "int \<Rightarrow> int \<Rightarrow> cacheEntry list \<Rightarrow> bool" where
  "lru_fits limit byteLimit es \<longleftrightarrow>
     int (length es) \<le> limit \<and> sum_list (map ce_weight es) \<le> byteLimit"

definition lru_drop :: "string \<Rightarrow> cacheEntry list \<Rightarrow> cacheEntry list" where
  "lru_drop key es = filter (\<lambda>e. ce_key e \<noteq> key) es"

function lru_trim :: "int \<Rightarrow> int \<Rightarrow> cacheEntry list \<Rightarrow> cacheEntry list" where
  "lru_trim limit byteLimit es =
     (if lru_fits limit byteLimit es \<or> es = [] then es else lru_trim limit byteLimit (butlast es))"
  by pat_completeness auto
termination
  by (relation "measure (\<lambda>(_, _, es). length es)") auto

declare lru_trim.simps [simp del]

lemma lru_trim_prefix: "\<exists>n \<le> length es. lru_trim l b es = take n es \<and>
    (\<forall>k. n < k \<longrightarrow> k \<le> length es \<longrightarrow> \<not> lru_fits l b (take k es))"
proof (induction l b es rule: lru_trim.induct)
  case (1 l b es)
  show ?case
  proof (cases "lru_fits l b es \<or> es = []")
    case True
    then show ?thesis by (intro exI [of _ "length es"]) (simp add: lru_trim.simps [of l b es])
  next
    case False
    then obtain n where n: "n \<le> length (butlast es)" "lru_trim l b (butlast es) = take n (butlast es)"
      and cut: "\<And>k. n < k \<Longrightarrow> k \<le> length (butlast es) \<Longrightarrow> \<not> lru_fits l b (take k (butlast es))"
      using 1 by blast
    have prefix: "take k (butlast es) = take k es" if "k \<le> length (butlast es)" for k
      using that by (simp add: butlast_conv_take min_absorb1)
    have "\<not> lru_fits l b (take k es)" if "n < k" "k \<le> length es" for k
      using that cut [of k] prefix [of k] False by (cases "k = length es") auto
    with False n prefix [of n] show ?thesis
      by (intro exI [of _ n]) (simp add: lru_trim.simps [of l b es])
  qed
qed

lemma lru_trim_fits: "0 \<le> l \<Longrightarrow> 0 \<le> b \<Longrightarrow> lru_fits l b (lru_trim l b es)"
proof (induction l b es rule: lru_trim.induct)
  case (1 l b es)
  then show ?case by (subst lru_trim.simps) (auto simp: lru_fits_def)
qed

lemma lru_trim_Cons:
  assumes "lru_fits l b [e]"
  shows "\<exists>es'. lru_trim l b (e # es) = e # es'"
proof -
  from lru_trim_prefix [of "e # es" l b] obtain n where n: "n \<le> length (e # es)"
      "lru_trim l b (e # es) = take n (e # es)"
    and cut: "\<And>k. n < k \<Longrightarrow> k \<le> length (e # es) \<Longrightarrow> \<not> lru_fits l b (take k (e # es))"
    by blast
  have "n \<noteq> 0" using cut [of 1] assms by auto
  with n show ?thesis by (cases n) auto
qed

section \<open>Every operation keeps the invariant and implements the abstract one\<close>

lemma total_weight_cached: "total_weight (rc_order c) = sum_list (map ce_weight (cached c))"
  by (simp add: total_weight_def cached_def)

lemma cached_simps [simp]:
  "cached (c\<lparr>rc_used := u\<rparr>) = cached c" "cached (c\<lparr>rc_entries := m\<rparr>) = cached c"
  "cached (c\<lparr>rc_next := a\<rparr>) = cached c"
  "cached (c\<lparr>rc_order := ps\<rparr>) = map snd ps"
  by (simp_all add: cached_def)

lemma snd_list_remove:
  assumes "order_ok order" "(el, e) \<in> set order"
  shows "map snd (list_remove el order) = lru_drop (ce_key e) (map snd order)"
  by (simp add: list_remove_by_key [OF assms] lru_drop_def filter_map comp_def)

lemma cache_linked_remove:
  assumes "cache_linked c" "(el, e) \<in> set (rc_order c)"
  shows "cache_linked (c\<lparr>rc_used := rc_used c - ce_weight e, rc_order := list_remove el (rc_order c),
                         rc_entries := (rc_entries c)(ce_key e := None)\<rparr>)"
  using assms order_ok_remove total_weight_remove key_index_remove
  by (auto simp: cache_linked_alt) (auto simp: list_remove_def)

lemma cache_linked_front:
  assumes "cache_linked c" "(el, e) \<in> set (rc_order c)" "ce_key e' = ce_key e"
    "ce_weight e' = entry_weight (ce_key e') (ce_response e')" "2 \<le> length (ce_response e')"
  shows "cache_linked (c\<lparr>rc_used := rc_used c - ce_weight e + ce_weight e',
                         rc_order := (el, e') # list_remove el (rc_order c)\<rparr>)"
proof -
  have ok: "order_ok (rc_order c)" and keyed: "rc_entries c = map_of (key_index (rc_order c))"
    using assms(1) by (simp_all add: cache_linked_alt)
  have "rc_entries c (ce_key e) = Some el"
    using key_index_lookup [OF ok, of "ce_key e" el] assms(2) keyed by auto
  then have "rc_entries c = map_of (key_index ((el, e') # list_remove el (rc_order c)))"
    by (simp add: key_index_Cons key_index_remove [OF ok assms(2)] assms(3) keyed fun_upd_idem)
  then show ?thesis
    using assms order_ok_front [OF ok assms(2-5)] total_weight_remove [OF ok assms(2)]
    by (auto simp: cache_linked_alt list_remove_def)
qed

lemma cache_linked_touch:
  assumes "cache_linked c" "(el, e) \<in> set (rc_order c)"
  shows "cache_linked (c\<lparr>rc_order := moveToFront el (rc_order c)\<rparr>)"
    "cached (c\<lparr>rc_order := moveToFront el (rc_order c)\<rparr>) = e # lru_drop (ce_key e) (cached c)"
proof -
  have ok: "order_ok (rc_order c)" using assms(1) by (simp add: cache_linked_alt)
  have e: "ce_weight e = entry_weight (ce_key e) (ce_response e)" "2 \<le> length (ce_response e)"
    using ok assms(2) by (auto simp: order_ok_def)
  show "cache_linked (c\<lparr>rc_order := moveToFront el (rc_order c)\<rparr>)"
    using cache_linked_front [OF assms refl e] by (simp add: moveToFront_eq [OF ok assms(2)])
  show "cached (c\<lparr>rc_order := moveToFront el (rc_order c)\<rparr>) = e # lru_drop (ce_key e) (cached c)"
    by (simp add: moveToFront_eq [OF ok assms(2)] snd_list_remove [OF ok assms(2)] cached_def)
qed

lemma moveToFront_length [simp]: "length (moveToFront el order) = length order"
  by (simp add: moveToFront_def list_remove_def sum_length_filter_compl)

lemma cache_linked_butlast:
  assumes "cache_linked c" "rc_order c \<noteq> []"
  defines "e \<equiv> snd (last (rc_order c))"
  shows "cache_linked (c\<lparr>rc_used := rc_used c - ce_weight e,
                         rc_entries := (rc_entries c)(ce_key e := None),
                         rc_order := butlast (rc_order c)\<rparr>)"
proof -
  obtain ps el where ps: "rc_order c = ps @ [(el, e)]"
    using last_in_set_conv [OF assms(2)] by (auto simp: e_def)
  have ok: "order_ok (rc_order c)" using assms(1) by (simp add: cache_linked_alt)
  then have "list_remove el (rc_order c) = ps"
    by (auto simp: ps order_ok_def list_remove_def image_iff intro!: filter_id_if)
  then show ?thesis
    using cache_linked_remove [OF assms(1), of el e] by (simp add: ps cache_linked_alt)
qed

lemma cache_evict_spec:
  assumes "cache_linked c" "0 \<le> rc_limit c" "0 \<le> rc_byteLimit c"
  shows "\<exists>c'. cache_evict c = Some c' \<and> cache_linked c' \<and>
    cached c' = lru_trim (rc_limit c) (rc_byteLimit c) (cached c) \<and>
    rc_limit c' = rc_limit c \<and> rc_byteLimit c' = rc_byteLimit c \<and> rc_staleTTL c' = rc_staleTTL c"
  using assms
proof (induction c rule: cache_evict.induct)
  case (1 c)
  have used: "rc_used c = sum_list (map ce_weight (cached c))"
    using 1(2) by (simp add: cache_linked_alt total_weight_cached)
  then have fits: "lru_fits (rc_limit c) (rc_byteLimit c) (cached c) \<longleftrightarrow>
      \<not> (rc_limit c < int (length (rc_order c)) \<or> rc_byteLimit c < rc_used c)"
    by (auto simp: lru_fits_def cached_def)
  show ?case
  proof (cases "lru_fits (rc_limit c) (rc_byteLimit c) (cached c)")
    case True
    then show ?thesis using fits 1(2)
      by (simp add: cache_evict.simps [of c] lru_trim.simps [of _ _ "cached c"])
  next
    case False
    then have ne: "rc_order c \<noteq> []" using 1(2-4) used fits by (auto simp: cached_def)
    let ?e = "snd (last (rc_order c))"
    let ?c = "c\<lparr>rc_used := rc_used c - ce_weight ?e,
                 rc_entries := (rc_entries c)(ce_key ?e := None), rc_order := butlast (rc_order c)\<rparr>"
    have "cache_evict c = cache_evict ?c"
      using False fits ne by (simp add: cache_evict.simps [of c] Let_def)
    moreover have "lru_trim (rc_limit c) (rc_byteLimit c) (cached c) =
        lru_trim (rc_limit ?c) (rc_byteLimit ?c) (cached ?c)"
      using False ne by (subst lru_trim.simps) (simp add: cached_def map_butlast)
    moreover have "cache_linked ?c" by (rule cache_linked_butlast [OF 1(2) ne])
    ultimately show ?thesis
      using 1(1) [OF _ ne refl] False fits 1(3,4) by simp
  qed
qed

lemma cachedResponse_total: "\<exists>r. cachedResponse response queryID age ttl = Some r \<and> length r = length response"
  using adjustResponseTTLs_spec [of "responseWithID response queryID" _ ttl]
  by (force simp: cachedResponse_def)

text \<open>\<open>get\<close> returns the aged entry exactly while it is fresh, and forgets it once it is stale for
  too long.\<close>

lemma cache_get_spec:
  assumes "cache_ok c"
  shows "\<exists>c' r. cache_get c key queryID now = Some (c', r) \<and> cache_ok c' \<and>
    rc_limit c' = rc_limit c \<and> rc_byteLimit c' = rc_byteLimit c \<and> rc_staleTTL c' = rc_staleTTL c \<and>
    (case cache_find c key of
       None \<Rightarrow> r = None \<and> c' = c
     | Some e \<Rightarrow>
         if now < ce_expires e
         then r = cachedResponse (ce_response e) queryID (now - ce_stored e) 0 \<and> r \<noteq> None \<and>
           cached c' = e # lru_drop key (cached c)
         else r = None \<and> cached c' = (if now < ce_staleAt e then cached c else lru_drop key (cached c)))"
proof -
  have linked: "cache_linked c" using assms by (simp add: cache_ok_def)
  then show ?thesis
  proof (cases rule: cache_lookup_cases [where key = key])
    case absent
    with assms show ?thesis by (simp add: cache_get_def)
  next
    case (present el e)
    obtain r where r: "cachedResponse (ce_response e) queryID (now - ce_stored e) 0 = Some r"
      using cachedResponse_total by blast
    have ok: "order_ok (rc_order c)" using linked by (simp add: cache_linked_alt)
    have w: "0 \<le> ce_weight e" using ok present(3) by (auto simp: order_ok_def less_imp_le)
    have len: "length (list_remove el (rc_order c)) \<le> length (rc_order c)"
      by (simp add: list_remove_def)
    have bounded: "cache_bounded c" using assms by (simp add: cache_ok_def)
    show ?thesis
      using present r assms cache_linked_touch [OF linked present(3)]
        cache_linked_remove [OF linked present(3)] snd_list_remove [OF ok present(3)] w len bounded
      by (auto simp: cache_get_def cache_ok_def cache_bounded_def cached_def)
  qed
qed

lemma getStale_spec:
  assumes "cache_ok c"
  shows "\<exists>c' r. getStale c key queryID now = Some (c', r) \<and> cache_ok c' \<and>
    rc_limit c' = rc_limit c \<and> rc_byteLimit c' = rc_byteLimit c \<and> rc_staleTTL c' = rc_staleTTL c \<and>
    (case cache_find c key of
       None \<Rightarrow> r = None \<and> c' = c
     | Some e \<Rightarrow>
         if 0 < rc_staleTTL c \<and> ce_expires e \<le> now \<and> now < ce_staleAt e
         then r = cachedResponse (ce_response e) queryID 0 30 \<and> r \<noteq> None \<and>
           cached c' = e # lru_drop key (cached c)
         else r = None \<and> c' = c)"
proof -
  have linked: "cache_linked c" using assms by (simp add: cache_ok_def)
  then show ?thesis
  proof (cases rule: cache_lookup_cases [where key = key])
    case absent
    with assms show ?thesis by (simp add: getStale_def)
  next
    case (present el e)
    obtain r where r: "cachedResponse (ce_response e) queryID 0 30 = Some r"
      using cachedResponse_total by blast
    have bounded: "cache_bounded c" using assms by (simp add: cache_ok_def)
    show ?thesis
      using present r assms cache_linked_touch [OF linked present(3)] bounded
      by (auto simp: getStale_def cache_ok_def cache_bounded_def)
  qed
qed

definition storable :: "responseCache \<Rightarrow> string \<Rightarrow> bytes \<Rightarrow> nanos \<Rightarrow> bool" where
  "storable c key response ttl \<longleftrightarrow>
     0 < rc_limit c \<and> entry_weight key response \<le> rc_byteLimit c \<and> 0 < ttl \<and> 2 \<le> length response"

definition new_entry :: "responseCache \<Rightarrow> string \<Rightarrow> bytes \<Rightarrow> nanos \<Rightarrow> nanos \<Rightarrow> cacheEntry" where
  "new_entry c key response ttl now =
     \<lparr>ce_key = key, ce_response = response[0 := 0, 1 := 0], ce_weight = entry_weight key response,
      ce_stored = now, ce_expires = now + ttl, ce_staleAt = now + (ttl + rc_staleTTL c)\<rparr>"

lemma new_entry_simps [simp]:
  "ce_key (new_entry c key response ttl now) = key"
  "ce_response (new_entry c key response ttl now) = response[0 := 0, 1 := 0]"
  "ce_weight (new_entry c key response ttl now) = entry_weight key response"
  "ce_stored (new_entry c key response ttl now) = now"
  "ce_expires (new_entry c key response ttl now) = now + ttl"
  "ce_staleAt (new_entry c key response ttl now) = now + (ttl + rc_staleTTL c)"
  by (simp_all add: new_entry_def)

lemma moveToFront_assign:
  assumes "order_ok order" "(el, e) \<in> set order"
  shows "moveToFront el (list_assign el v order) = (el, v) # list_remove el order"
proof -
  have "filter (\<lambda>p. fst p = el) (list_assign el v order) =
      map (\<lambda>p. (el, v)) (filter (\<lambda>p. fst p = el) order)"
    by (induction order) (auto simp: list_assign_def)
  moreover have "list_remove el (list_assign el v order) = list_remove el order"
    by (induction order) (auto simp: list_assign_def list_remove_def)
  ultimately show ?thesis by (simp add: moveToFront_def order_filter_same [OF assms])
qed

lemma cache_linked_insert:
  assumes "cache_linked c" "key = ce_key e" "rc_entries c key = None"
    "ce_weight e = entry_weight (ce_key e) (ce_response e)" "2 \<le> length (ce_response e)"
  shows "cache_linked (c\<lparr>rc_order := (rc_next c, e) # rc_order c,
                         rc_entries := (rc_entries c)(key \<mapsto> rc_next c),
                         rc_used := rc_used c + ce_weight e, rc_next := Suc (rc_next c)\<rparr>)"
proof -
  have "key \<notin> fst ` set (key_index (rc_order c))"
    using assms(1,3) by (simp add: cache_linked_alt map_of_eq_None_iff)
  then have "key \<notin> (ce_key \<circ> snd) ` set (rc_order c)"
    by (auto simp: key_index_def image_iff case_prod_beta)
  moreover have "rc_next c \<notin> fst ` set (rc_order c)"
    using assms(1) by (auto simp: cache_linked_alt)
  ultimately show ?thesis
    using assms by (auto simp: cache_linked_alt order_ok_Cons key_index_Cons less_SucI)
qed

lemma lru_drop_absent: "cache_find c key = None \<Longrightarrow> lru_drop key (cached c) = cached c"
  by (auto simp: cache_find_def find_None_iff lru_drop_def intro: filter_id_if)

lemma putOwned_spec:
  assumes "cache_ok c"
  shows "\<exists>c'. putOwned c key response ttl now = Some c' \<and> cache_ok c' \<and>
    rc_limit c' = rc_limit c \<and> rc_byteLimit c' = rc_byteLimit c \<and> rc_staleTTL c' = rc_staleTTL c \<and>
    (if storable c key response ttl
     then cached c' = lru_trim (rc_limit c) (rc_byteLimit c)
       (new_entry c key response ttl now # lru_drop key (cached c))
     else c' = c)"
proof (cases "storable c key response ttl")
  case False
  then have "putOwned c key response ttl now = Some c"
    using entry_weight_pos [of key response] by (auto simp: putOwned_def storable_def Let_def)
  with False assms show ?thesis by simp
next
  case True
  let ?e = "new_entry c key response ttl now"
  have linked: "cache_linked c" using assms by (simp add: cache_ok_def)
  have e: "ce_weight ?e = entry_weight (ce_key ?e) (ce_response ?e)" "2 \<le> length (ce_response ?e)"
    using True by (simp_all add: storable_def entry_weight_def)
  have pos: "0 < rc_limit c" "0 < rc_byteLimit c"
    using True by (auto simp: storable_def intro: less_le_trans [OF entry_weight_pos])
  obtain s where s: "putOwned c key response ttl now = cache_evict s" "cache_linked s"
      "cached s = ?e # lru_drop key (cached c)"
      "rc_limit s = rc_limit c" "rc_byteLimit s = rc_byteLimit c" "rc_staleTTL s = rc_staleTTL c"
    using linked
  proof (cases rule: cache_lookup_cases [where key = key])
    case absent
    show ?thesis
      using that [of "c\<lparr>rc_order := (rc_next c, ?e) # rc_order c,
                 rc_entries := (rc_entries c)(key \<mapsto> rc_next c),
                 rc_used := rc_used c + ce_weight ?e, rc_next := Suc (rc_next c)\<rparr>"]
        cache_linked_insert [OF linked _ absent(1) e] True pos absent lru_drop_absent [OF absent(2)]
      by (simp add: putOwned_def storable_def new_entry_def Let_def cached_def)
  next
    case (present el old)
    have ok: "order_ok (rc_order c)" using linked by (simp add: cache_linked_alt)
    show ?thesis
      using that [of "c\<lparr>rc_used := rc_used c - ce_weight old + ce_weight ?e,
                 rc_order := (el, ?e) # list_remove el (rc_order c)\<rparr>"]
        cache_linked_front [OF linked present(3) _ e] True pos present
        moveToFront_assign [OF ok present(3)] snd_list_remove [OF ok present(3)]
      by (simp add: putOwned_def storable_def new_entry_def Let_def cached_def)
  qed
  obtain c' where c': "cache_evict s = Some c'" "cache_linked c'"
      "cached c' = lru_trim (rc_limit c) (rc_byteLimit c) (cached s)"
      "rc_limit c' = rc_limit c" "rc_byteLimit c' = rc_byteLimit c" "rc_staleTTL c' = rc_staleTTL c"
    using cache_evict_spec [OF s(2)] s(4-6) pos by auto
  have "rc_used c' = sum_list (map ce_weight (cached c'))"
    using c'(2) by (simp add: cache_linked_alt total_weight_cached)
  moreover have "length (rc_order c') = length (cached c')" by (simp add: cached_def)
  ultimately have "cache_ok c'"
    using c' lru_trim_fits [of "rc_limit c" "rc_byteLimit c" "cached s"] pos
    by (simp add: cache_ok_def cache_bounded_def lru_fits_def)
  with True s c' show ?thesis by simp
qed

section \<open>The interface of the store\<close>

text \<open>
  What the resolver relies on: a lookup answers from the entry of the key while that entry is
  fresh, invents nothing, and disturbs no fresh entry.
\<close>

fun run_lookups ::
  "('s \<Rightarrow> string \<Rightarrow> bytes \<Rightarrow> nanos \<Rightarrow> ('s \<times> bytes option) go) \<Rightarrow>
   's \<Rightarrow> (string \<times> bytes \<times> nanos) list \<Rightarrow> ('s \<times> bytes option list) go" where
  "run_lookups look s [] = Some (s, [])"
| "run_lookups look s ((key, queryID, now) # qs) = do {
     (s', r) \<leftarrow> look s key queryID now;
     (s'', rs) \<leftarrow> run_lookups look s' qs;
     Some (s'', r # rs)
   }"

locale response_store =
  fixes inv :: "'s \<Rightarrow> bool"
    and look :: "'s \<Rightarrow> string \<Rightarrow> bytes \<Rightarrow> nanos \<Rightarrow> ('s \<times> bytes option) go"
    and held :: "'s \<Rightarrow> string \<Rightarrow> 'e option"
    and fresh :: "'e \<Rightarrow> nanos \<Rightarrow> bool"
    and render :: "'e \<Rightarrow> bytes \<Rightarrow> nanos \<Rightarrow> bytes"
  assumes look_returns: "inv s \<Longrightarrow>
      \<exists>s'. look s key queryID now = Some (s', (case held s key of
          Some e \<Rightarrow> (if fresh e now then Some (render e queryID now) else None) | None \<Rightarrow> None)) \<and>
        inv s' \<and> (\<forall>k e. held s' k = Some e \<longrightarrow> held s k = Some e) \<and>
        (\<forall>k e. held s k = Some e \<longrightarrow> k \<noteq> key \<or> fresh e now \<longrightarrow> held s' k = Some e)"
begin

lemma lookups_return:
  "inv s \<Longrightarrow> \<exists>s' rs. run_lookups look s qs = Some (s', rs) \<and> inv s' \<and> length rs = length qs"
proof (induction qs arbitrary: s)
  case (Cons q qs)
  obtain key queryID now where q: "q = (key, queryID, now)" by (cases q)
  obtain s' r where s': "look s key queryID now = Some (s', r)" "inv s'"
    using look_returns [OF Cons.prems, of key queryID now] by blast
  with Cons.IH [OF s'(2)] q show ?case by auto
qed simp

text \<open>Until it expires, an entry answers every lookup of its key, whatever else is looked up.\<close>

lemma served_while_fresh:
  assumes "inv s" "held s key = Some e" "\<forall>(k, i, t) \<in> set qs. k = key \<longrightarrow> fresh e t"
  shows "\<exists>s' rs. run_lookups look s qs = Some (s', rs) \<and> inv s' \<and> held s' key = Some e \<and>
    length rs = length qs \<and>
    (\<forall>j < length qs. \<forall>i t. qs ! j = (key, i, t) \<longrightarrow> rs ! j = Some (render e i t))"
  using assms
proof (induction qs arbitrary: s)
  case (Cons q qs)
  obtain k i t where q: "q = (k, i, t)" by (cases q)
  have fresh: "k \<noteq> key \<or> fresh e t" using Cons.prems(3) q by auto
  from look_returns [OF Cons.prems(1), of k i t] obtain s' r where s': "look s k i t = Some (s', r)" "inv s'"
      "held s' key = Some e"
    and r: "r = (case held s k of
      Some e \<Rightarrow> (if fresh e t then Some (render e i t) else None) | None \<Rightarrow> None)"
    using Cons.prems(2) fresh by blast
  have "\<forall>(k, i, t) \<in> set qs. k = key \<longrightarrow> fresh e t" using Cons.prems(3) by simp
  from Cons.IH [OF s'(2,3) this] obtain s'' rs where rs: "run_lookups look s' qs = Some (s'', rs)"
      "inv s''" "held s'' key = Some e" "length rs = length qs"
      "\<forall>j < length qs. \<forall>i t. qs ! j = (key, i, t) \<longrightarrow> rs ! j = Some (render e i t)"
    by blast
  have "run_lookups look s (q # qs) = Some (s'', r # rs)" using q s'(1) rs(1) by simp
  moreover have "(r # rs) ! j = Some (render e i' t')"
    if "j < length (q # qs)" "(q # qs) ! j = (key, i', t')" for j i' t'
    using that q r fresh Cons.prems(2) rs(5) by (cases j) simp_all
  ultimately show ?case using rs(2-4) by (intro exI [of _ s''] exI [of _ "r # rs"]) simp
qed simp

end

definition entry_fresh :: "cacheEntry \<Rightarrow> nanos \<Rightarrow> bool" where
  "entry_fresh e now \<longleftrightarrow> now < ce_expires e"

definition entry_answer :: "cacheEntry \<Rightarrow> bytes \<Rightarrow> nanos \<Rightarrow> bytes" where
  "entry_answer e queryID now = the (cachedResponse (ce_response e) queryID (now - ce_stored e) 0)"

lemma find_lru_drop: "k \<noteq> key \<Longrightarrow> find (\<lambda>e. ce_key e = k) (lru_drop key es) = find (\<lambda>e. ce_key e = k) es"
  by (induction es) (auto simp: lru_drop_def)

lemma find_lru_drop_same: "find (\<lambda>e. ce_key e = key) (lru_drop key es) = None"
  by (simp add: find_None_iff lru_drop_def)

lemma cache_find_key: "cache_find c key = Some e \<Longrightarrow> ce_key e = key"
  by (auto simp: cache_find_def dest: find_Some_mem)

lemma find_touch:
  assumes "find (\<lambda>e. ce_key e = key) es = Some e"
  shows "find (\<lambda>x. ce_key x = k) (e # lru_drop key es) = find (\<lambda>x. ce_key x = k) es"
  using assms find_lru_drop [of k key es] find_Some_mem [OF assms] by (cases "k = key") auto

interpretation cache: response_store cache_ok cache_get cache_find entry_fresh entry_answer
proof (unfold_locales, goal_cases)
  case (1 c key queryID now)
  from cache_get_spec [OF 1] obtain c' r where g: "cache_get c key queryID now = Some (c', r)" "cache_ok c'"
    and r: "case cache_find c key of
       None \<Rightarrow> r = None \<and> c' = c
     | Some e \<Rightarrow> if now < ce_expires e
         then r = cachedResponse (ce_response e) queryID (now - ce_stored e) 0 \<and> r \<noteq> None \<and>
           cached c' = e # lru_drop key (cached c)
         else r = None \<and> cached c' = (if now < ce_staleAt e then cached c else lru_drop key (cached c))"
    by blast
  show ?case
  proof (cases "cache_find c key")
    case None
    with r have "r = None" "c' = c" by simp_all
    with g None show ?thesis by simp
  next
    case (Some e)
    have other: "cache_find c' k = cache_find c k" if "k \<noteq> key \<or> now < ce_expires e" for k
      using r Some that find_touch [of key "cached c" e k] find_lru_drop [of k key "cached c"]
      by (auto simp: cache_find_def split: if_splits)
    have "cache_find c' key = None \<or> cache_find c' key = cache_find c key"
      using r Some find_touch [of key "cached c" e key] find_lru_drop_same [of key "cached c"]
      by (auto simp: cache_find_def split: if_splits)
    then have old: "cache_find c k' = Some e'" if "cache_find c' k' = Some e'" for k' e'
      using that other [of k'] by (cases "k' = key") auto
    have kept: "cache_find c' k' = Some e'"
      if "cache_find c k' = Some e'" "k' \<noteq> key \<or> entry_fresh e' now" for k' e'
      using that other [of k'] Some by (cases "k' = key") (simp_all add: entry_fresh_def)
    have "r = (if entry_fresh e now then Some (entry_answer e queryID now) else None)"
      using r Some by (cases "now < ce_expires e") (auto simp: entry_fresh_def entry_answer_def)
    then have "cache_get c key queryID now = Some (c', case cache_find c key of
        Some e \<Rightarrow> (if entry_fresh e now then Some (entry_answer e queryID now) else None) | None \<Rightarrow> None)"
      using g Some by simp
    with g(2) show ?thesis by (intro exI [of _ c'] conjI allI impI) (assumption | erule old | erule (1) kept)+
  qed
qed

section \<open>Reachable caches\<close>

inductive cache_reach :: "int \<Rightarrow> int \<Rightarrow> nanos \<Rightarrow> responseCache \<Rightarrow> bool"
  for l :: int and b :: int and st :: nanos where
  reach_new: "cache_reach l b st (newResponseCache l b st)"
| reach_get: "cache_reach l b st c \<Longrightarrow> cache_get c key queryID now = Some (c', r) \<Longrightarrow>
    cache_reach l b st c'"
| reach_stale: "cache_reach l b st c \<Longrightarrow> getStale c key queryID now = Some (c', r) \<Longrightarrow>
    cache_reach l b st c'"
| reach_put: "cache_reach l b st c \<Longrightarrow> putOwned c key response ttl now = Some c' \<Longrightarrow>
    cache_reach l b st c'"

lemma cache_reach_ok:
  "cache_reach l b st c \<Longrightarrow>
     cache_ok c \<and> rc_limit c = l \<and> rc_byteLimit c = b \<and> rc_staleTTL c = st"
proof (induction rule: cache_reach.induct)
  case reach_new
  show ?case
    by (simp add: newResponseCache_def cache_ok_def cache_linked_def cache_bounded_def
        key_index_def total_weight_def)
next
  case (reach_get c key queryID now c' r)
  then show ?case using cache_get_spec [of c key queryID now] by auto
next
  case (reach_stale c key queryID now c' r)
  then show ?case using getStale_spec [of c key queryID now] by auto
next
  case (reach_put c key response ttl now c')
  then show ?case using putOwned_spec [of c key response ttl now] by auto
qed

lemma put_holds:
  assumes "cache_ok c" "storable c key response ttl"
  obtains c' where "putOwned c key response ttl now = Some c'" "cache_ok c'"
    "cache_find c' key = Some (new_entry c key response ttl now)"
proof -
  let ?e = "new_entry c key response ttl now"
  have "lru_fits (rc_limit c) (rc_byteLimit c) [?e]" using assms(2) by (simp add: storable_def lru_fits_def)
  then obtain es' where
    "lru_trim (rc_limit c) (rc_byteLimit c) (?e # lru_drop key (cached c)) = ?e # es'"
    using lru_trim_Cons by blast
  with putOwned_spec [OF assms(1), of key response ttl now] assms(2) that show ?thesis
    by (auto simp: cache_find_def)
qed

section \<open>Properties\<close>

text \<open>C37: In every cache reachable from \<open>newResponseCache\<close> by \<open>get\<close>, \<open>getStale\<close> and \<open>putOwned\<close>, the
  map and the list agree (every list element is indexed under its key and the map holds nothing
  else), the byte count is the sum of the entry weights, both limits are respected, and none of
  the three operations can panic.\<close>

theorem cache_reachable_consistent:
  assumes "cache_reach limit byteLimit staleTTL c"
  shows "cache_linked c \<and> int (length (rc_order c)) \<le> max 0 limit \<and>
    rc_used c = total_weight (rc_order c) \<and> rc_used c \<le> max 0 byteLimit \<and>
    cache_get c key queryID now \<noteq> None \<and> getStale c key queryID now \<noteq> None \<and>
    putOwned c key response ttl now \<noteq> None"
  using cache_reach_ok [OF assms] cache_get_spec [of c key queryID now]
    getStale_spec [of c key queryID now] putOwned_spec [of c key response ttl now]
  by (auto simp: cache_ok_def cache_bounded_def cache_linked_def)

definition example_answer :: bytes where
  "example_answer =
     [0, 7, 0x81, 0x80, 0, 1, 0, 1, 0, 0, 0, 0,
      1, 97, 0, 0, 1, 0, 1,
      0xC0, 12, 0, 1, 0, 1, 0, 0, 0, 100, 0, 4, 192, 0, 2, 1]"

theorem cache_reachable_consistent_witness:
  "cache_linked (newResponseCache 2 4096 minute) \<and>
   putOwned (newResponseCache 2 4096 minute) ''k'' example_answer minute 0 \<noteq> None"
  using cache_reachable_consistent [OF reach_new [of 2 4096 minute], of "''k''" "[]" 0 example_answer minute]
  by simp

text \<open>A stored response is served until it expires: after \<open>putOwned\<close> of a response that fits the
  limits, every lookup of its key before \<open>now + ttl\<close> returns the stored message with the query's
  identifier and with its record life times aged by the time since the store, whatever other
  keys are looked up in between.\<close>

theorem put_then_get:
  assumes "cache_reach limit byteLimit staleTTL c"
    and "0 < limit" and "entry_weight key response \<le> byteLimit"
    and "0 < ttl" and "2 \<le> length response"
    and "\<forall>(k, i, t) \<in> set lookups. k = key \<longrightarrow> t < now + ttl"
  shows "\<exists>c1 c2 answers. putOwned c key response ttl now = Some c1 \<and>
    run_lookups cache_get c1 lookups = Some (c2, answers) \<and> length answers = length lookups \<and>
    (\<forall>j < length lookups. \<forall>i t. lookups ! j = (key, i, t) \<longrightarrow>
       answers ! j = cachedResponse (response[0 := 0, 1 := 0]) i (t - now) 0 \<and> answers ! j \<noteq> None)"
proof -
  have ok: "cache_ok c" "storable c key response ttl"
    using cache_reach_ok [OF assms(1)] assms(2-5) by (simp_all add: storable_def)
  let ?e = "new_entry c key response ttl now"
  obtain c1 where c1: "putOwned c key response ttl now = Some c1" "cache_ok c1"
      "cache_find c1 key = Some ?e"
    using put_holds [OF ok] by blast
  have "\<forall>(k, i, t) \<in> set lookups. k = key \<longrightarrow> entry_fresh ?e t"
    using assms(6) by (auto simp: entry_fresh_def)
  from cache.served_while_fresh [OF c1(2,3) this] obtain c2 rs where rs:
    "run_lookups cache_get c1 lookups = Some (c2, rs)" "length rs = length lookups"
    "\<forall>j < length lookups. \<forall>i t. lookups ! j = (key, i, t) \<longrightarrow> rs ! j = Some (entry_answer ?e i t)"
    by blast
  have "Some (entry_answer ?e i t) = cachedResponse (response[0 := 0, 1 := 0]) i (t - now) 0" for i t
    using cachedResponse_total [of "response[0 := 0, 1 := 0]" i "t - now" 0]
    by (auto simp: entry_answer_def)
  with c1(1) rs show ?thesis by (metis option.distinct(1))
qed

definition example_lookups :: "(string \<times> bytes \<times> nanos) list" where
  "example_lookups = [(''other'', [0, 1], 5), (''k'', [0, 9], 30 * second)]"

theorem put_then_get_witness:
  "\<exists>c1 c2 answers. putOwned (newResponseCache 2 4096 minute) ''k'' example_answer minute 0 = Some c1 \<and>
    run_lookups cache_get c1 example_lookups = Some (c2, answers) \<and>
    length answers = length example_lookups \<and>
    answers ! 1 = cachedResponse (example_answer[0 := 0, 1 := 0]) [0, 9] (30 * second) 0 \<and>
    answers ! 1 \<noteq> None"
proof -
  have look: "1 < length example_lookups" "example_lookups ! 1 = (''k'', [0, 9], 30 * second)"
    by (simp_all add: example_lookups_def)
  have "\<exists>c1 c2 answers. putOwned (newResponseCache 2 4096 minute) ''k'' example_answer minute 0 = Some c1 \<and>
    run_lookups cache_get c1 example_lookups = Some (c2, answers) \<and>
    length answers = length example_lookups \<and>
    (\<forall>j < length example_lookups. \<forall>i t. example_lookups ! j = (''k'', i, t) \<longrightarrow>
       answers ! j = cachedResponse (example_answer[0 := 0, 1 := 0]) i (t - 0) 0 \<and> answers ! j \<noteq> None)"
    by (rule put_then_get [OF reach_new [of 2 4096 minute]])
      (simp_all add: entry_weight_def example_answer_def example_lookups_def)
  then obtain c1 c2 answers where
    c: "putOwned (newResponseCache 2 4096 minute) ''k'' example_answer minute 0 = Some c1"
      "run_lookups cache_get c1 example_lookups = Some (c2, answers)" "length answers = length example_lookups"
    and served: "\<forall>j < length example_lookups. \<forall>i t. example_lookups ! j = (''k'', i, t) \<longrightarrow>
       answers ! j = cachedResponse (example_answer[0 := 0, 1 := 0]) i (t - 0) 0 \<and> answers ! j \<noteq> None"
    by blast
  have "answers ! 1 = cachedResponse (example_answer[0 := 0, 1 := 0]) [0, 9] (30 * second - 0) 0 \<and> answers ! 1 \<noteq> None"
    using served look by blast
  with c show ?thesis unfolding diff_0_right by blast
qed

text \<open>Storing keeps the most recently used entries: \<open>putOwned\<close> of a response that fits puts it
  first, drops an older entry of the same key, and keeps of the rest exactly the longest prefix
  in order of use that respects both limits; one entry more would exceed a limit.\<close>

theorem put_keeps_most_recent:
  assumes "cache_reach limit byteLimit staleTTL c" and "storable c key response ttl"
  shows "\<exists>c' n. putOwned c key response ttl now = Some c' \<and> 0 < n \<and>
    cached c' = take n (new_entry c key response ttl now # lru_drop key (cached c)) \<and>
    lru_fits limit byteLimit (cached c') \<and>
    (n \<le> length (lru_drop key (cached c)) \<longrightarrow>
       \<not> lru_fits limit byteLimit
         (take (Suc n) (new_entry c key response ttl now # lru_drop key (cached c))))"
proof -
  let ?es = "new_entry c key response ttl now # lru_drop key (cached c)"
  have ok: "cache_ok c" "rc_limit c = limit" "rc_byteLimit c = byteLimit"
    using cache_reach_ok [OF assms(1)] by simp_all
  have pos: "0 < limit" "0 < byteLimit"
    using assms(2) ok by (auto simp: storable_def intro: less_le_trans [OF entry_weight_pos])
  obtain c' where c': "putOwned c key response ttl now = Some c'" "cached c' = lru_trim limit byteLimit ?es"
    using putOwned_spec [OF ok(1), of key response ttl now] assms(2) ok by auto
  obtain n where n: "n \<le> length ?es" "lru_trim limit byteLimit ?es = take n ?es"
    "\<forall>k. n < k \<longrightarrow> k \<le> length ?es \<longrightarrow> \<not> lru_fits limit byteLimit (take k ?es)"
    using lru_trim_prefix [of ?es limit byteLimit] by blast
  obtain es' where "lru_trim limit byteLimit ?es = new_entry c key response ttl now # es'"
    using lru_trim_Cons [of limit byteLimit "new_entry c key response ttl now"] assms(2) ok
    by (auto simp: storable_def lru_fits_def)
  with n(2) have "0 < n" by (cases n) auto
  moreover have "n \<le> length (lru_drop key (cached c)) \<Longrightarrow> \<not> lru_fits limit byteLimit (take (Suc n) ?es)"
    using n(3) by (metis Suc_le_mono length_Cons lessI)
  ultimately show ?thesis
    using c' n(2) lru_trim_fits [of limit byteLimit ?es] pos by (intro exI [of _ c'] exI [of _ n]) simp
qed

theorem put_keeps_most_recent_witness:
  "\<exists>c' n. putOwned (newResponseCache 2 4096 minute) ''k'' example_answer minute 0 = Some c' \<and> 0 < n \<and>
    cached c' = take n (new_entry (newResponseCache 2 4096 minute) ''k'' example_answer minute 0 # [])"
  using put_keeps_most_recent [OF reach_new [of 2 4096 minute], of "''k''" example_answer minute 0]
  by (auto simp: storable_def newResponseCache_def entry_weight_def example_answer_def cached_def lru_drop_def)

text \<open>A stale answer is only given inside its window: \<open>getStale\<close> answers exactly when stale
  service is enabled and the entry has expired but not passed \<open>staleAt\<close>; then \<open>get\<close> gives nothing
  for the same key and time, and every record of the stale answer has the life time 30.\<close>

theorem stale_only_in_window:
  assumes "cache_reach limit byteLimit staleTTL c"
  shows "\<exists>c' r. getStale c key queryID now = Some (c', r) \<and>
    (r \<noteq> None \<longleftrightarrow> 0 < staleTTL \<and>
       (\<exists>e. cache_find c key = Some e \<and> ce_expires e \<le> now \<and> now < ce_staleAt e)) \<and>
    (\<forall>answer. r = Some answer \<longrightarrow>
       cache_get c key queryID now = Some (c, None) \<and> (\<forall>(p, t) \<in> set (ttl_fields answer). t = 30))"
proof -
  have ok: "cache_ok c" "rc_staleTTL c = staleTTL" using cache_reach_ok [OF assms] by simp_all
  have linked: "cache_linked c" using ok by (simp add: cache_ok_def)
  then show ?thesis
  proof (cases rule: cache_lookup_cases [where key = key])
    case absent
    then show ?thesis by (simp add: getStale_def)
  next
    case (present el e)
    obtain r where r: "cachedResponse (ce_response e) queryID 0 30 = Some r"
      using cachedResponse_total by blast
    then have "ttl_fields r = map (apsnd (aged_ttl (word_of_int (go_div 0 second)) 30))
        (ttl_fields (responseWithID (ce_response e) queryID))"
      using adjustResponseTTLs_spec [of "responseWithID (ce_response e) queryID" "word_of_int (go_div 0 second)" 30]
      by (auto simp: cachedResponse_def)
    then have "\<forall>(p, t) \<in> set (ttl_fields r). t = 30"
      by (auto simp: aged_ttl_def)
    with present r ok show ?thesis by (auto simp: getStale_def cache_get_def)
  qed
qed

theorem stale_only_in_window_witness:
  "\<exists>c' r. getStale (newResponseCache 2 4096 minute) ''k'' [0, 1] 5 = Some (c', r) \<and> r = None"
  using stale_only_in_window [OF reach_new [of 2 4096 minute], of "''k''" "[0, 1]" 5]
  by (auto simp: newResponseCache_def cache_find_def cached_def)

end
