(* ===== verification/Domain_Sets.thy ===== *)
theory Domain_Sets
  imports Go_Strings
begin

text \<open>
  Shared domain membership, \<^verbatim>\<open>internal/domainset\<close>: compiling named sets of exact names and
  suffixes into an index, the plain map index of \<^verbatim>\<open>matcher_map.go\<close>, and the index of
  \<^verbatim>\<open>matcher_multicall.go\<close> on top of the minimal perfect hash group of xray-core. The content
  hash \<^verbatim>\<open>Set.ID\<close> (SHA-256 of the JSON form) is the parameter \<open>ID\<close>; the hash group, which is
  third-party code, is the parameter \<open>build\<close> of the second index. A Go map with sets is an
  association list with distinct keys.
\<close>

section \<open>Sets and their compilation (set.go)\<close>

record domain_set =
  ds_Domain :: "string list"
  ds_DomainSuffix :: "string list"

record membership =
  mb_name :: string
  mb_id :: u32

type_synonym domain_sets = "(string \<times> domain_set) list"

definition set_memberships_exact :: "u32 \<Rightarrow> domain_set \<Rightarrow> membership list" where
  "set_memberships_exact i s =
     map (\<lambda>v. \<lparr>mb_name = toLower v, mb_id = i\<rparr>) (filter (\<lambda>v. v \<noteq> []) (ds_Domain s))"

definition set_memberships_suffix :: "u32 \<Rightarrow> domain_set \<Rightarrow> membership list" where
  "set_memberships_suffix i s =
     map (\<lambda>v. \<lparr>mb_name = v, mb_id = i\<rparr>)
       (filter (\<lambda>v. v \<noteq> []) (map (\<lambda>v. toLower (trim_char CHR ''.'' v)) (ds_DomainSuffix s)))"

text \<open>\<open>compileWith\<close> up to the call of \<open>build\<close>: the identifiers and the two membership lists, or
  the error for a set that is empty or stored under a name that is not its hash.\<close>

definition set_names :: "domain_sets \<Rightarrow> string list" where
  "set_names sets = sort (map fst sets)"

definition set_valid :: "(domain_set \<Rightarrow> string) \<Rightarrow> domain_sets \<Rightarrow> string \<Rightarrow> bool" where
  "set_valid ID sets name =
     (case map_of sets name of
        None \<Rightarrow> False
      | Some s \<Rightarrow> ID s = name \<and> length (ds_Domain s) + length (ds_DomainSuffix s) \<noteq> 0)"

definition set_ids :: "domain_sets \<Rightarrow> (string \<times> u32) list" where
  "set_ids sets = map (\<lambda>(n, name). (name, of_nat (n + 1))) (enumerate 0 (set_names sets))"

definition compile_exact :: "domain_sets \<Rightarrow> membership list" where
  "compile_exact sets =
     concat (map (\<lambda>(name, i). set_memberships_exact i (the (map_of sets name))) (set_ids sets))"

definition compile_suffix :: "domain_sets \<Rightarrow> membership list" where
  "compile_suffix sets =
     concat (map (\<lambda>(name, i). set_memberships_suffix i (the (map_of sets name))) (set_ids sets))"

text \<open>The result of \<open>compileWith\<close>: \<open>Inl\<close> is the returned error, \<open>Inr None\<close> the nil index for an
  empty configuration.\<close>

definition compileWith ::
  "(domain_set \<Rightarrow> string) \<Rightarrow> (membership list \<Rightarrow> membership list \<Rightarrow> 'i) \<Rightarrow> domain_sets \<Rightarrow>
   string + ('i option \<times> (string \<times> u32) list)" where
  "compileWith ID build sets =
     (if sets = [] then Inr (None, [])
      else if \<not> list_all (set_valid ID sets) (set_names sets)
      then Inl ''invalid shared DNS domain set''
      else Inr (Some (build (compile_exact sets) (compile_suffix sets)), set_ids sets))"

section \<open>The suffixes of a name\<close>

text \<open>The loop over the suffixes of a name, shared by \<open>mapMembership.Match\<close> and by
  \<open>lane.target\<close>: the name, then what follows each dot, until nothing is left.\<close>

function dot_suffixes :: "string \<Rightarrow> string list" where
  "dot_suffixes s =
     (if s = [] then []
      else s # (case after_byte CHR ''.'' s of None \<Rightarrow> [] | Some r \<Rightarrow> dot_suffixes r))"
  by pat_completeness auto

lemma after_byte_Some: "after_byte c s = Some r \<Longrightarrow> \<exists>p. s = p @ c # r \<and> c \<notin> set p"
proof (induction s)
  case (Cons x xs)
  show ?case
  proof (cases "x = c")
    case True
    with Cons.prems show ?thesis by (intro exI [of _ "[]"]) simp
  next
    case False
    with Cons obtain p where "xs = p @ c # r" "c \<notin> set p" by auto
    with False show ?thesis by (intro exI [of _ "x # p"]) simp
  qed
qed simp

lemma after_byte_None: "after_byte c s = None \<longleftrightarrow> c \<notin> set s"
  by (induction s) auto

termination dot_suffixes
  by (relation "measure length") (auto dest: after_byte_Some)

declare dot_suffixes.simps [simp del]

lemma dot_suffixes_iff:
  "t \<in> set (dot_suffixes s) \<longleftrightarrow> t \<noteq> [] \<and> (t = s \<or> (\<exists>p. s = p @ CHR ''.'' # t))"
proof (induction s rule: dot_suffixes.induct)
  case (1 s)
  show ?case
  proof (cases "s = []")
    case False
    show ?thesis
    proof (cases "after_byte CHR ''.'' s")
      case None
      then have "CHR ''.'' \<notin> set s" by (simp add: after_byte_None)
      then have "\<not> (\<exists>p. s = p @ CHR ''.'' # t)" by auto
      with None False show ?thesis by (auto simp: dot_suffixes.simps [of s])
    next
      case (Some r)
      then obtain q where q: "s = q @ CHR ''.'' # r" "CHR ''.'' \<notin> set q"
        using after_byte_Some by blast
      have "(\<exists>p. s = p @ CHR ''.'' # t) \<longleftrightarrow> t = r \<or> (\<exists>p. r = p @ CHR ''.'' # t)"
      proof
        assume "\<exists>p. s = p @ CHR ''.'' # t"
        then obtain p where p: "q @ CHR ''.'' # r = p @ CHR ''.'' # t" using q by auto
        then obtain us where "q = p @ us \<and> us @ CHR ''.'' # r = CHR ''.'' # t \<or>
            q @ us = p \<and> CHR ''.'' # r = us @ CHR ''.'' # t"
          by (auto simp: append_eq_append_conv2)
        with q(2) show "t = r \<or> (\<exists>p. r = p @ CHR ''.'' # t)" by (cases us) auto
      next
        assume "t = r \<or> (\<exists>p. r = p @ CHR ''.'' # t)"
        then show "\<exists>p. s = p @ CHR ''.'' # t"
        proof
          assume "\<exists>p. r = p @ CHR ''.'' # t"
          then obtain p where "r = p @ CHR ''.'' # t" by blast
          with q show ?thesis by (intro exI [of _ "q @ CHR ''.'' # p"]) simp
        qed (use q in blast)
      qed
      with Some False 1 show ?thesis by (auto simp: dot_suffixes.simps [of s])
    qed
  qed (simp add: dot_suffixes.simps)
qed

section \<open>The contract of an index\<close>

definition member_exact :: "membership list \<Rightarrow> string \<Rightarrow> u32 set" where
  "member_exact es name = mb_id ` {e \<in> set es. mb_name e = name}"

definition member_suffix :: "membership list \<Rightarrow> string \<Rightarrow> u32 set" where
  "member_suffix es name = mb_id ` {e \<in> set es. mb_name e \<in> set (dot_suffixes name)}"

definition entries_ok :: "membership list \<Rightarrow> membership list \<Rightarrow> bool" where
  "entries_ok exact suffix \<longleftrightarrow>
     list_all (\<lambda>e. mb_name e \<noteq> [] \<and> toLower (mb_name e) = mb_name e) exact \<and>
     list_all (\<lambda>e. mb_name e \<noteq> [] \<and> toLower (mb_name e) = mb_name e \<and> hd (mb_name e) \<noteq> CHR ''.'' \<and> last (mb_name e) \<noteq> CHR ''.'') suffix"

text \<open>An index visits, for a name it covers, exactly the identifiers of the sets the name is in.\<close>

locale membership_index =
  fixes build :: "membership list \<Rightarrow> membership list \<Rightarrow> 'i"
    and visits :: "'i \<Rightarrow> string \<Rightarrow> u32 list go"
    and covers :: "string \<Rightarrow> bool"
  assumes visits_members: "entries_ok exact suffix \<Longrightarrow> covers name \<Longrightarrow>
    \<exists>is. visits (build exact suffix) name = Some is \<and>
      set is = member_exact exact name \<union> member_suffix suffix name"

section \<open>The map index (matcher_map.go)\<close>

record mapMembership =
  mm_exact :: "(string \<times> u32 list) list"
  mm_suffix :: "(string \<times> u32 list) list"

text \<open>A Go map of slices: a missing key reads as the empty slice, \<open>append\<close> writes it back.\<close>

definition ids_at :: "(string \<times> u32 list) list \<Rightarrow> string \<Rightarrow> u32 list" where
  "ids_at m name = (case map_of m name of None \<Rightarrow> [] | Some is \<Rightarrow> is)"

definition append_id :: "membership \<Rightarrow> (string \<times> u32 list) list \<Rightarrow> (string \<times> u32 list) list" where
  "append_id e m = (mb_name e, ids_at m (mb_name e) @ [mb_id e]) # m"

definition compileMapMembership :: "membership list \<Rightarrow> membership list \<Rightarrow> mapMembership" where
  "compileMapMembership exact suffix =
     \<lparr>mm_exact = fold append_id exact [], mm_suffix = fold append_id suffix []\<rparr>"

definition mapMembership_Match :: "mapMembership \<Rightarrow> string \<Rightarrow> u32 list go" where
  "mapMembership_Match i name =
     Some (ids_at (mm_exact i) name @ concat (map (ids_at (mm_suffix i)) (dot_suffixes name)))"

lemma ids_at_fold:
  "set (ids_at (fold append_id es m) name) = set (ids_at m name) \<union> member_exact es name"
proof (induction es arbitrary: m)
  case (Cons e es)
  have "set (ids_at (append_id e m) name) =
      set (ids_at m name) \<union> (if mb_name e = name then {mb_id e} else {})"
    by (auto simp: ids_at_def append_id_def)
  then show ?case using Cons by (auto simp: member_exact_def)
qed (simp add: member_exact_def)

lemma ids_at_compiled [simp]: "set (ids_at (fold append_id es []) name) = member_exact es name"
  by (simp add: ids_at_fold) (simp add: ids_at_def)

lemma member_suffix_union: "member_suffix es name = (\<Union>s \<in> set (dot_suffixes name). member_exact es s)"
  by (auto simp: member_suffix_def member_exact_def)

interpretation mapm: membership_index compileMapMembership mapMembership_Match "\<lambda>_. True"
  by unfold_locales (auto simp: compileMapMembership_def mapMembership_Match_def member_suffix_union)

section \<open>The index on the hash group (matcher_multicall.go)\<close>

text \<open>
  \<open>build fulls domains\<close> stands for the \<^verbatim>\<open>MphMatcherGroup\<close> after one \<^verbatim>\<open>AddFullMatcher\<close> for every
  element of \<open>fulls\<close>, one \<^verbatim>\<open>AddDomainMatcher\<close> for every element of \<open>domains\<close>, and \<^verbatim>\<open>Build\<close>:
  \<open>None\<close> when \<open>Build\<close> fails, otherwise its \<open>Match\<close>. The values are positions in \<open>mp_values\<close>.
\<close>

type_synonym mph_builder = "(string \<times> nat) list \<Rightarrow> (string \<times> nat) list \<Rightarrow> (string \<Rightarrow> nat list) option"

record mphIndex =
  mp_group :: "string \<Rightarrow> nat list"
  mp_values :: "u32 list"
  mp_literal :: "(string \<times> u32 list) list"

datatype native_index = Mph mphIndex | MapFallback mapMembership

definition literal_name :: "string \<Rightarrow> bool" where
  "literal_name name = hasPrefix name ''.''"

definition mph_fulls :: "membership list \<Rightarrow> (string \<times> nat) list" where
  "mph_fulls exact =
     map (\<lambda>(n, e). (mb_name e, n)) (enumerate 0 (filter (\<lambda>e. \<not> literal_name (mb_name e)) exact))"

definition mph_domains :: "nat \<Rightarrow> membership list \<Rightarrow> (string \<times> nat) list" where
  "mph_domains start suffix = map (\<lambda>(n, e). (mb_name e, n)) (enumerate start suffix)"

definition compileMembership ::
  "mph_builder \<Rightarrow> membership list \<Rightarrow> membership list \<Rightarrow> native_index" where
  "compileMembership build exact suffix =
     (let full = filter (\<lambda>e. \<not> literal_name (mb_name e)) exact;
          literal = filter (\<lambda>e. literal_name (mb_name e)) exact
      in case build (mph_fulls exact) (mph_domains (length full) suffix) of
           None \<Rightarrow> MapFallback (compileMapMembership exact suffix)
         | Some grp \<Rightarrow>
             Mph \<lparr>mp_group = grp, mp_values = map mb_id full @ map mb_id suffix,
                  mp_literal = fold append_id literal []\<rparr>)"

text \<open>\<open>i.values[value]\<close> panics outside the slice.\<close>

fun values_at :: "u32 list \<Rightarrow> nat list \<Rightarrow> u32 list go" where
  "values_at vs [] = Some []"
| "values_at vs (n # ns) = do {
     v \<leftarrow> (if n < length vs then Some (vs ! n) else None);
     rest \<leftarrow> values_at vs ns;
     Some (v # rest)
   }"

definition mphIndex_Match :: "mphIndex \<Rightarrow> string \<Rightarrow> u32 list go" where
  "mphIndex_Match i name = do {
     found \<leftarrow> values_at (mp_values i) (mp_group i name);
     Some (ids_at (mp_literal i) name @ found)
   }"

fun native_Match :: "native_index \<Rightarrow> string \<Rightarrow> u32 list go" where
  "native_Match (Mph i) name = mphIndex_Match i name"
| "native_Match (MapFallback i) name = mapMembership_Match i name"

text \<open>A lower-case domain name without empty labels, which is how a question reaches the index, and
  what xray-core documents of the group on such names and lower-case patterns, the only ones that are
  passed to it: a full pattern that does not start with a dot matches itself, a domain pattern
  matches itself and everything below it.\<close>

definition proper_name :: "string \<Rightarrow> bool" where
  "proper_name name \<longleftrightarrow> toLower name = name \<and> list_all (\<lambda>l. l \<noteq> []) (split_byte CHR ''.'' name)"

definition mph_documented :: "mph_builder \<Rightarrow> bool" where
  "mph_documented build \<longleftrightarrow> (\<forall>fulls domains grp name.
     list_all (\<lambda>(p, _). p \<noteq> [] \<and> toLower p = p \<and> hd p \<noteq> CHR ''.'') fulls \<longrightarrow>
     list_all (\<lambda>(p, _). p \<noteq> [] \<and> toLower p = p \<and> hd p \<noteq> CHR ''.'' \<and> last p \<noteq> CHR ''.'') domains \<longrightarrow>
     build fulls domains = Some grp \<longrightarrow> proper_name name \<longrightarrow>
     set (grp name) = {v. (name, v) \<in> set fulls} \<union>
       {v. \<exists>p. (p, v) \<in> set domains \<and> (name = p \<or> (\<exists>q. name = q @ CHR ''.'' # p))})"

lemma values_at_map: "list_all (\<lambda>n. n < length vs) ns \<Longrightarrow> values_at vs ns = Some (map (\<lambda>n. vs ! n) ns)"
  by (induction ns) simp_all

lemma enumerate_positions:
  "(n, x) \<in> set (enumerate k xs) \<longleftrightarrow> k \<le> n \<and> n < k + length xs \<and> x = xs ! (n - k)"
  by (auto simp: in_set_enumerate_eq)

lemma positions_image:
  "(a, n) \<in> (\<lambda>(n, e). (f e, n)) ` A \<longleftrightarrow> (\<exists>e. (n, e) \<in> A \<and> f e = a)"
  by (auto simp: image_iff) force

lemma literal_name_iff: "name \<noteq> [] \<Longrightarrow> literal_name name \<longleftrightarrow> hd name = CHR ''.''"
  by (cases name) (auto simp: literal_name_def)

lemma mph_values_found:
  fixes exact suffix :: "membership list"
  defines "full \<equiv> filter (\<lambda>e. \<not> literal_name (mb_name e)) exact"
  assumes ns: "set ns = {v. (name, v) \<in> set (mph_fulls exact)} \<union>
      {v. \<exists>p. (p, v) \<in> set (mph_domains (length full) suffix) \<and> p \<in> set (dot_suffixes name)}"
  shows "\<exists>is. values_at (map mb_id full @ map mb_id suffix) ns = Some is \<and>
    set is = member_exact full name \<union> member_suffix suffix name"
proof -
  let ?vs = "map mb_id full @ map mb_id suffix"
  have in_full: "(name, v) \<in> set (mph_fulls exact) \<longleftrightarrow> v < length full \<and> mb_name (full ! v) = name" for v
    by (auto simp: mph_fulls_def full_def [symmetric] positions_image enumerate_positions)
  have in_dom: "(p, v) \<in> set (mph_domains (length full) suffix) \<longleftrightarrow>
      (\<exists>j < length suffix. v = length full + j \<and> mb_name (suffix ! j) = p)" for p v
    by (auto simp: mph_domains_def positions_image enumerate_positions le_iff_add)
  have bound: "list_all (\<lambda>n. n < length ?vs) ns"
    using ns by (auto simp: list_all_iff in_full in_dom)
  have "(\<lambda>n. ?vs ! n) ` {v. v < length full \<and> mb_name (full ! v) = name} = member_exact full name"
    by (auto simp: member_exact_def nth_append in_set_conv_nth intro!: image_eqI)
  moreover have "(\<lambda>n. ?vs ! n) ` {v. \<exists>p. (\<exists>j < length suffix. v = length full + j \<and> mb_name (suffix ! j) = p) \<and>
      p \<in> set (dot_suffixes name)} = member_suffix suffix name" (is "_ ` ?D = _")
  proof -
    have "?D = (\<lambda>j. length full + j) ` {j. j < length suffix \<and> mb_name (suffix ! j) \<in> set (dot_suffixes name)}"
      by auto
    then have "(\<lambda>n. ?vs ! n) ` ?D =
        (\<lambda>j. mb_id (suffix ! j)) ` {j. j < length suffix \<and> mb_name (suffix ! j) \<in> set (dot_suffixes name)}"
      by (simp only: image_image) (rule image_cong, simp_all add: nth_append)
    then show ?thesis
      unfolding member_suffix_def by (auto simp: in_set_conv_nth [of _ suffix])
  qed
  ultimately have "(\<lambda>n. ?vs ! n) ` set ns = member_exact full name \<union> member_suffix suffix name"
    unfolding ns in_full in_dom image_Un by (rule arg_cong2)
  with values_at_map [OF bound] show ?thesis by simp
qed

lemma list_all_positions:
  "\<forall>e \<in> set es. P (mb_name e) \<Longrightarrow>
     list_all (\<lambda>(p, _). P p) (map (\<lambda>(n, e). (mb_name e, n)) (enumerate k es))"
  by (auto simp: list_all_iff enumerate_positions)

lemma mph_patterns_ok:
  assumes "entries_ok exact suffix"
  shows "list_all (\<lambda>(p, _). p \<noteq> [] \<and> toLower p = p \<and> hd p \<noteq> CHR ''.'') (mph_fulls exact)"
    and "list_all (\<lambda>(p, _). p \<noteq> [] \<and> toLower p = p \<and> hd p \<noteq> CHR ''.'' \<and> last p \<noteq> CHR ''.'') (mph_domains k suffix)"
proof -
  have "\<forall>e \<in> set (filter (\<lambda>e. \<not> literal_name (mb_name e)) exact). mb_name e \<noteq> [] \<and> toLower (mb_name e) = mb_name e \<and> hd (mb_name e) \<noteq> CHR ''.''"
    using assms literal_name_iff by (auto simp: entries_ok_def list_all_iff)
  then show "list_all (\<lambda>(p, _). p \<noteq> [] \<and> toLower p = p \<and> hd p \<noteq> CHR ''.'') (mph_fulls exact)"
    unfolding mph_fulls_def by (rule list_all_positions)
  show "list_all (\<lambda>(p, _). p \<noteq> [] \<and> toLower p = p \<and> hd p \<noteq> CHR ''.'' \<and> last p \<noteq> CHR ''.'') (mph_domains k suffix)"
    unfolding mph_domains_def by (rule list_all_positions) (use assms in \<open>simp add: entries_ok_def list_all_iff\<close>)
qed

lemma member_exact_split:
  "member_exact (filter P es) name \<union> member_exact (filter (\<lambda>e. \<not> P e) es) name = member_exact es name"
  by (auto simp: member_exact_def)

text \<open>Under the documented behaviour of the group, the native index meets the contract, with the
  fall-back to the map when the group cannot be built.\<close>

lemma mph_membership_index:
  assumes "mph_documented build"
  shows "membership_index (compileMembership build) native_Match proper_name"
proof (unfold_locales, goal_cases)
  case (1 exact suffix name)
  let ?full = "filter (\<lambda>e. \<not> literal_name (mb_name e)) exact"
  let ?literal = "filter (\<lambda>e. literal_name (mb_name e)) exact"
  show ?case
  proof (cases "build (mph_fulls exact) (mph_domains (length ?full) suffix)")
    case None
    then show ?thesis
      using mapm.visits_members [OF 1(1)] by (simp add: compileMembership_def Let_def)
  next
    case (Some grp)
    have "set (grp name) = {v. (name, v) \<in> set (mph_fulls exact)} \<union>
        {v. \<exists>p. (p, v) \<in> set (mph_domains (length ?full) suffix) \<and> (name = p \<or> (\<exists>q. name = q @ CHR ''.'' # p))}"
      using assms mph_patterns_ok [OF 1(1)] Some 1(2) unfolding mph_documented_def by blast
    moreover have "p \<in> set (dot_suffixes name) \<longleftrightarrow> name = p \<or> (\<exists>q. name = q @ CHR ''.'' # p)"
      if "(p, v) \<in> set (mph_domains k suffix)" for p v k
      using mph_patterns_ok(2) [OF 1(1), of k] that by (auto simp: dot_suffixes_iff list_all_iff)
    ultimately have "set (grp name) = {v. (name, v) \<in> set (mph_fulls exact)} \<union>
        {v. \<exists>p. (p, v) \<in> set (mph_domains (length ?full) suffix) \<and> p \<in> set (dot_suffixes name)}"
      by blast
    from mph_values_found [OF this] obtain "is" where
      "values_at (map mb_id ?full @ map mb_id suffix) (grp name) = Some is"
      "set is = member_exact ?full name \<union> member_suffix suffix name"
      by blast
    then show ?thesis
      using Some member_exact_split [of "\<lambda>e. literal_name (mb_name e)" exact name]
      by (auto simp: compileMembership_def mphIndex_Match_def)
  qed
qed

text \<open>A reference group that follows the documentation.\<close>

definition mph_reference :: mph_builder where
  "mph_reference fulls domains = Some (\<lambda>name.
     map snd (filter (\<lambda>(p, _). p = name) fulls) @
     map snd (filter (\<lambda>(p, _). p \<in> set (dot_suffixes name)) domains))"

lemma mph_reference_documented: "mph_documented mph_reference"
proof -
  have full: "set (map snd (filter (\<lambda>(p, _). p = name) fulls)) = {v. (name, v) \<in> set fulls}"
    for fulls :: "(string \<times> nat) list" and name
    by force
  have domain: "set (map snd (filter (\<lambda>(p, _). p \<in> set (dot_suffixes name)) domains)) =
      {v. \<exists>p. (p, v) \<in> set domains \<and> (name = p \<or> (\<exists>q. name = q @ CHR ''.'' # p))}"
    if "list_all (\<lambda>(p, _). p \<noteq> [] \<and> toLower p = p \<and> hd p \<noteq> CHR ''.'' \<and> last p \<noteq> CHR ''.'') domains"
    for domains :: "(string \<times> nat) list" and name
  proof -
    have "set (map snd (filter (\<lambda>(p, _). p \<in> set (dot_suffixes name)) domains)) =
        {v. \<exists>p. (p, v) \<in> set domains \<and> p \<in> set (dot_suffixes name)}" by force
    then show ?thesis using that by (auto simp: dot_suffixes_iff list_all_iff)
  qed
  show ?thesis
    unfolding mph_documented_def mph_reference_def
    using full domain by (metis (no_types, lifting) option.inject set_append)
qed

section \<open>What a compiled index visits\<close>

lemma trim_char_ends:
  "trim_char c v \<noteq> [] \<Longrightarrow> hd (trim_char c v) \<noteq> c \<and> last (trim_char c v) \<noteq> c"
proof -
  let ?l = "dropWhile (\<lambda>x. x = c) v"
  let ?r = "dropWhile (\<lambda>x. x = c) (rev ?l)"
  assume "trim_char c v \<noteq> []"
  then have ne: "?r \<noteq> []" by (simp add: trim_char_def trimLeft_char_def)
  then have l: "?l \<noteq> []" by (metis dropWhile.simps(1) rev.simps(1))
  have "last (rev ?r) \<noteq> c" using ne hd_dropWhile [OF ne] by (simp add: last_rev)
  moreover have "hd (rev ?r) = hd ?l"
    using ne by (metis hd_rev last_appendR rev_rev_ident takeWhile_dropWhile_id)
  then have "hd (rev ?r) \<noteq> c" using hd_dropWhile [OF l] by simp
  ultimately show ?thesis by (simp add: trim_char_def trimLeft_char_def)
qed

lemma lower_char_dot [simp]: "lower_char c = CHR ''.'' \<longleftrightarrow> c = CHR ''.''"
proof (cases "65 \<le> (of_char c :: nat) \<and> (of_char c :: nat) \<le> 90")
  case True
  then have "(of_char (lower_char c) :: nat) = of_char c + 32" by (simp add: lower_char_def)
  with True have "(of_char (lower_char c) :: nat) \<noteq> of_char CHR ''.''" by simp
  then have "lower_char c \<noteq> CHR ''.''" by metis
  with True show ?thesis by auto
qed (auto simp: lower_char_def)

text \<open>A name is in a set when it is one of its domains, or equal to or below one of its suffixes,
  after the normalisation that compiling applies.\<close>

definition in_domains :: "string list \<Rightarrow> string \<Rightarrow> bool" where
  "in_domains domains name = list_ex (\<lambda>v. v \<noteq> [] \<and> toLower v = name) domains"

definition in_suffixes :: "string list \<Rightarrow> string \<Rightarrow> bool" where
  "in_suffixes suffixes name =
     list_ex (\<lambda>v. toLower (trim_char CHR ''.'' v) \<in> set (dot_suffixes name)) suffixes"

definition in_set :: "domain_set \<Rightarrow> string \<Rightarrow> bool" where
  "in_set s name \<longleftrightarrow> in_domains (ds_Domain s) name \<or> in_suffixes (ds_DomainSuffix s) name"

lemma dot_suffixes_nonempty: "t \<in> set (dot_suffixes s) \<Longrightarrow> t \<noteq> []"
  by (simp add: dot_suffixes_iff)

lemma member_exact_iff: "i \<in> member_exact es name \<longleftrightarrow> (\<exists>e \<in> set es. mb_name e = name \<and> i = mb_id e)"
  by (auto simp: member_exact_def)

lemma member_suffix_iff:
  "i \<in> member_suffix es name \<longleftrightarrow> (\<exists>e \<in> set es. mb_name e \<in> set (dot_suffixes name) \<and> i = mb_id e)"
  by (auto simp: member_suffix_def)

lemma set_memberships_exact_iff:
  "i \<in> member_exact (set_memberships_exact j s) name \<longleftrightarrow> i = j \<and> in_domains (ds_Domain s) name"
  by (auto simp: member_exact_iff set_memberships_exact_def in_domains_def list_ex_iff)

lemma set_memberships_suffix_iff:
  "i \<in> member_suffix (set_memberships_suffix j s) name \<longleftrightarrow> i = j \<and> in_suffixes (ds_DomainSuffix s) name"
  by (auto simp: member_suffix_iff set_memberships_suffix_def in_suffixes_def list_ex_iff)
    (metis dot_suffixes_nonempty toLower_Nil)

lemma member_concat:
  "member_exact (concat ess) name = (\<Union>es \<in> set ess. member_exact es name)"
  "member_suffix (concat ess) name = (\<Union>es \<in> set ess. member_suffix es name)"
  by (auto simp: member_exact_def member_suffix_def)

lemma compiled_members:
  "i \<in> member_exact (compile_exact sets) name \<union> member_suffix (compile_suffix sets) name \<longleftrightarrow>
     (\<exists>key. (key, i) \<in> set (set_ids sets) \<and> in_set (the (map_of sets key)) name)"
  by (force simp: compile_exact_def compile_suffix_def member_concat set_memberships_exact_iff
      set_memberships_suffix_iff in_set_def)

lemma compiled_entries_ok: "entries_ok (compile_exact sets) (compile_suffix sets)"
proof -
  have "mb_name e \<noteq> [] \<and> toLower (mb_name e) = mb_name e \<and> hd (mb_name e) \<noteq> CHR ''.'' \<and> last (mb_name e) \<noteq> CHR ''.''"
    if "e \<in> set (set_memberships_suffix i s)" for e i s
  proof -
    from that obtain v where v: "mb_name e = toLower (trim_char CHR ''.'' v)" "mb_name e \<noteq> []"
      by (auto simp: set_memberships_suffix_def)
    then have "trim_char CHR ''.'' v \<noteq> []" by simp
    with v trim_char_ends [of "CHR ''.''" v] have "hd (mb_name e) \<noteq> CHR ''.'' \<and> last (mb_name e) \<noteq> CHR ''.''"
      by (simp add: toLower_def hd_map last_map)
    then show ?thesis using v by simp
  qed
  moreover have "mb_name e \<noteq> [] \<and> toLower (mb_name e) = mb_name e" if "e \<in> set (set_memberships_exact i s)" for e i s
    using that by (auto simp: set_memberships_exact_def)
  ultimately show ?thesis
    by (fastforce simp: entries_ok_def list_all_iff compile_exact_def compile_suffix_def)
qed

text \<open>The identifiers are injective as long as there are fewer than \<open>2 ^ 32 - 1\<close> sets.\<close>

lemma set_ids_keys: "map fst (set_ids sets) = set_names sets"
  by (simp add: set_ids_def comp_def case_prod_beta)

lemma set_ids_distinct:
  assumes "length sets < 2 ^ 32 - 1"
  shows "distinct (map snd (set_ids sets))"
proof -
  have "map snd (set_ids sets) = map (\<lambda>n. of_nat (n + 1)) (map fst (enumerate 0 (set_names sets)))"
    by (simp add: set_ids_def comp_def case_prod_beta del: map_fst_enumerate)
  moreover have "unat (of_nat (n + 1) :: u32) = n + 1" if "n < length sets" for n
    using that assms by (simp only: unat_of_nat) simp
  then have "inj_on (\<lambda>n. of_nat (n + 1) :: u32) {0..<length (set_names sets)}"
    by (intro inj_onI) (metis add_right_cancel atLeastLessThan_iff length_map length_sort set_names_def)
  ultimately show ?thesis by (simp add: distinct_map)
qed

context membership_index
begin

text \<open>The index that \<open>compileWith\<close> builds visits a set's identifier exactly for the names in the
  set.\<close>

lemma visits_compiled:
  assumes "covers name"
  shows "\<exists>is. visits (build (compile_exact sets) (compile_suffix sets)) name = Some is \<and>
    (\<forall>i. i \<in> set is \<longleftrightarrow> (\<exists>key. (key, i) \<in> set (set_ids sets) \<and> in_set (the (map_of sets key)) name))"
  using visits_members [OF compiled_entries_ok assms, of sets] by (auto simp flip: compiled_members)

end

end
