(* ===== verification/Dns_Lanes.thy ===== *)
theory Dns_Lanes
  imports Domain_Sets "HOL-Library.AList"
begin

text \<open>
  Policy lanes, \<^verbatim>\<open>internal/policydns/config.go\<close>: a lane is compiled from an ordered rule list into
  three maps (exact names, suffixes, shared sets) that keep for each key the decision of the
  first rule that names it, and \<^verbatim>\<open>target\<close> combines the candidates of a name by rule order.
  \<^verbatim>\<open>internal/policydns/config_stream.go\<close> moves the domains of large rules into shared sets while
  it decodes. The lemmas show that the whole pipeline decides every name as the first matching
  rule of the configured list does.
\<close>

section \<open>Configuration and compiled lane\<close>

record ruleConfig =
  rl_DomainSet :: string
  rl_Domain :: "string list"
  rl_DomainSuffix :: "string list"
  rl_Action :: string
  rl_Server :: string

record laneConfig =
  lc_ID :: string
  lc_Host :: string
  lc_Port :: int
  lc_Final :: string
  lc_Rules :: "ruleConfig list"

record ruleDecision =
  rd_order :: nat
  rd_reject :: bool
  rd_server :: string

record 'i lane =
  ln_shared :: "'i option"
  ln_setDecisions :: "u32 \<rightharpoonup> ruleDecision"
  ln_id :: string
  ln_host :: string
  ln_port :: int
  ln_final :: string
  ln_exact :: "string \<rightharpoonup> ruleDecision"
  ln_suffix :: "string \<rightharpoonup> ruleDecision"

datatype lane_error = NoLaneID | NotLoopback string | UnsafePort string | MissingSharedSet

definition put_absent :: "'k \<Rightarrow> 'v \<Rightarrow> ('k \<rightharpoonup> 'v) \<Rightarrow> ('k \<rightharpoonup> 'v)" where
  "put_absent k v m = (case m k of None \<Rightarrow> m(k \<mapsto> v) | Some _ \<Rightarrow> m)"

definition or_reject :: "string \<Rightarrow> string" where
  "or_reject server = (if server = [] then ''reject'' else server)"

definition rule_decision :: "nat \<Rightarrow> ruleConfig \<Rightarrow> ruleDecision" where
  "rule_decision index rule =
     \<lparr>rd_order = index, rd_reject = (rl_Action rule = ''reject''), rd_server = or_reject (rl_Server rule)\<rparr>"

definition rule_names :: "ruleConfig \<Rightarrow> string list" where
  "rule_names rule = filter (\<lambda>n. n \<noteq> []) (map toLower (rl_Domain rule))"

definition rule_suffixes :: "ruleConfig \<Rightarrow> string list" where
  "rule_suffixes rule =
     filter (\<lambda>n. n \<noteq> []) (map (\<lambda>v. toLower (trim_char CHR ''.'' v)) (rl_DomainSuffix rule))"

text \<open>The loop over the rules in \<open>compileLaneWithSets\<close>.\<close>

fun compile_rules ::
  "(string \<times> u32) list \<Rightarrow> nat \<Rightarrow> ruleConfig list \<Rightarrow> 'i lane \<Rightarrow> lane_error + 'i lane" where
  "compile_rules ids index [] result = Inr result"
| "compile_rules ids index (rule # rules) result =
     (let decision = rule_decision index rule in
      case (if rl_DomainSet rule \<noteq> []
            then (case map_of ids (rl_DomainSet rule) of
                    None \<Rightarrow> Inl MissingSharedSet
                  | Some i \<Rightarrow>
                      Inr (result\<lparr>ln_setDecisions := put_absent i decision (ln_setDecisions result)\<rparr>))
            else Inr result) of
        Inl err \<Rightarrow> Inl err
      | Inr result \<Rightarrow>
          compile_rules ids (Suc index) rules
            (result\<lparr>ln_exact := fold (\<lambda>n. put_absent n decision) (rule_names rule) (ln_exact result),
                    ln_suffix := fold (\<lambda>n. put_absent n decision) (rule_suffixes rule) (ln_suffix result)\<rparr>))"

definition compileLaneWithSets ::
  "laneConfig \<Rightarrow> 'i option \<Rightarrow> (string \<times> u32) list \<Rightarrow> lane_error + 'i lane" where
  "compileLaneWithSets raw shared ids =
     (if lc_ID raw = [] then Inl NoLaneID
      else if lc_Host raw \<noteq> ''127.0.0.1'' \<and> lc_Host raw \<noteq> ''::1'' then Inl (NotLoopback (lc_ID raw))
      else if lc_Port raw < 1024 \<or> 65535 < lc_Port raw then Inl (UnsafePort (lc_ID raw))
      else compile_rules ids 0 (lc_Rules raw)
        \<lparr>ln_shared = shared, ln_setDecisions = Map.empty, ln_id = lc_ID raw, ln_host = lc_Host raw,
         ln_port = lc_Port raw, ln_final = or_reject (lc_Final raw),
         ln_exact = Map.empty, ln_suffix = Map.empty\<rparr>)"

text \<open>One candidate against the decision found so far.\<close>

definition better :: "ruleDecision option \<Rightarrow> ruleDecision option \<Rightarrow> ruleDecision option" where
  "better candidate found =
     (case candidate of
        None \<Rightarrow> found
      | Some c \<Rightarrow> (case found of
          None \<Rightarrow> Some c
        | Some d \<Rightarrow> if rd_order c < rd_order d then Some c else Some d))"

text \<open>\<open>visits\<close> is \<open>Match\<close> of the shared index; a nil index visits nothing.\<close>

definition target :: "('i \<Rightarrow> string \<Rightarrow> u32 list go) \<Rightarrow> 'i lane \<Rightarrow> string \<Rightarrow> (string \<times> bool) go" where
  "target visits lane name = do {
     let found = ln_exact lane name;
     let found = fold (\<lambda>s. better (ln_suffix lane s)) (dot_suffixes name) found;
     ids \<leftarrow> (case ln_shared lane of None \<Rightarrow> Some [] | Some i \<Rightarrow> visits i name);
     let found = fold (\<lambda>i. better (ln_setDecisions lane i)) ids found;
     Some (case found of
        None \<Rightarrow> (ln_final lane, ln_final lane = ''reject'')
      | Some d \<Rightarrow> (rd_server d, rd_reject d))
   }"

section \<open>First match\<close>

text \<open>The decision of the first rule, in list order, that satisfies a condition.\<close>

definition first_decision :: "(ruleConfig \<Rightarrow> bool) \<Rightarrow> nat \<Rightarrow> ruleConfig list \<Rightarrow> ruleDecision option" where
  "first_decision P k rules =
     map_option (\<lambda>(n, r). rule_decision n r) (find (\<lambda>(n, r). P r) (enumerate k rules))"

lemma first_decision_simps [simp]:
  "first_decision P k [] = None"
  "first_decision P k (r # rs) = (if P r then Some (rule_decision k r) else first_decision P (Suc k) rs)"
  by (simp_all add: first_decision_def)

lemma first_decision_order: "first_decision P k rs = Some d \<Longrightarrow> k \<le> rd_order d"
  by (induction rs arbitrary: k) (fastforce simp: rule_decision_def split: if_splits)+

lemma better_first:
  "better (first_decision P k rs) (first_decision Q k rs) = first_decision (\<lambda>r. P r \<or> Q r) k rs"
proof (induction rs arbitrary: k)
  case (Cons r rs)
  have "rd_order (rule_decision k r) = k" by (simp add: rule_decision_def)
  with Cons show ?case
    by (auto simp: better_def split: option.splits dest!: first_decision_order)
qed (simp add: better_def)

lemma fold_better_first:
  assumes "\<And>x. x \<in> set xs \<Longrightarrow> m x = first_decision (P x) k rs"
  shows "fold (\<lambda>x. better (m x)) xs (first_decision Q k rs) =
    first_decision (\<lambda>r. Q r \<or> (\<exists>x \<in> set xs. P x r)) k rs"
  using assms
proof (induction xs arbitrary: Q)
  case (Cons x xs)
  have "fold (\<lambda>x. better (m x)) (x # xs) (first_decision Q k rs) =
      first_decision (\<lambda>r. (P x r \<or> Q r) \<or> (\<exists>x \<in> set xs. P x r)) k rs"
    using Cons by (simp add: better_first)
  also have "(\<lambda>r. (P x r \<or> Q r) \<or> (\<exists>x \<in> set xs. P x r)) = (\<lambda>r. Q r \<or> (\<exists>x \<in> set (x # xs). P x r))"
    by auto
  finally show ?case .
qed simp

lemma first_decision_cong:
  "(\<And>r. r \<in> set rs \<Longrightarrow> P r = Q r) \<Longrightarrow> first_decision P k rs = first_decision Q k rs"
  by (induction rs arbitrary: k) auto

lemma put_absent_apply: "put_absent k v m x = (case m x of None \<Rightarrow> if x = k then Some v else None | Some y \<Rightarrow> Some y)"
  by (auto simp: put_absent_def split: option.splits)

lemma fold_put_absent:
  "fold (\<lambda>n. put_absent n v) ns m x =
     (case m x of None \<Rightarrow> if x \<in> set ns then Some v else None | Some y \<Rightarrow> Some y)"
  by (induction ns arbitrary: m) (auto simp: put_absent_apply split: option.splits)

definition or_else :: "'a option \<Rightarrow> 'a option \<Rightarrow> 'a option" where
  "or_else a b = (case a of None \<Rightarrow> b | Some x \<Rightarrow> Some x)"

text \<open>What the compiled maps hold.\<close>

lemma compile_rules_maps:
  "compile_rules ids k rules lane = Inr lane' \<Longrightarrow>
     ln_exact lane' x = or_else (ln_exact lane x) (first_decision (\<lambda>r. x \<in> set (rule_names r)) k rules) \<and>
     ln_suffix lane' x = or_else (ln_suffix lane x) (first_decision (\<lambda>r. x \<in> set (rule_suffixes r)) k rules) \<and>
     ln_setDecisions lane' i = or_else (ln_setDecisions lane i)
       (first_decision (\<lambda>r. rl_DomainSet r \<noteq> [] \<and> map_of ids (rl_DomainSet r) = Some i) k rules) \<and>
     (\<forall>r \<in> set rules. rl_DomainSet r \<noteq> [] \<longrightarrow> map_of ids (rl_DomainSet r) \<noteq> None) \<and>
     ln_final lane' = ln_final lane \<and> ln_shared lane' = ln_shared lane \<and> ln_id lane' = ln_id lane \<and>
     ln_host lane' = ln_host lane \<and> ln_port lane' = ln_port lane"
proof (induction rules arbitrary: k lane)
  case Nil
  then show ?case by (auto simp: or_else_def split: option.splits)
next
  case (Cons r rules)
  let ?d = "rule_decision k r"
  obtain mid where mid: "(if rl_DomainSet r \<noteq> []
       then (case map_of ids (rl_DomainSet r) of
               None \<Rightarrow> Inl MissingSharedSet
             | Some i \<Rightarrow> Inr (lane\<lparr>ln_setDecisions := put_absent i ?d (ln_setDecisions lane)\<rparr>))
       else Inr lane) = Inr mid"
    using Cons.prems by (auto simp: Let_def split: if_splits option.splits)
  let ?lane = "mid\<lparr>ln_exact := fold (\<lambda>n. put_absent n ?d) (rule_names r) (ln_exact mid),
                   ln_suffix := fold (\<lambda>n. put_absent n ?d) (rule_suffixes r) (ln_suffix mid)\<rparr>"
  have next_rules: "compile_rules ids (Suc k) rules ?lane = Inr lane'"
    using Cons.prems by (simp only: compile_rules.simps mid Let_def sum.case)
  have sets: "ln_setDecisions mid i = or_else (ln_setDecisions lane i)
      (if rl_DomainSet r \<noteq> [] \<and> map_of ids (rl_DomainSet r) = Some i then Some ?d else None)"
    using mid by (auto simp: put_absent_apply or_else_def split: if_splits option.splits)
  have same: "ln_exact mid = ln_exact lane" "ln_suffix mid = ln_suffix lane" "ln_final mid = ln_final lane"
      "ln_shared mid = ln_shared lane" "ln_id mid = ln_id lane" "ln_host mid = ln_host lane"
      "ln_port mid = ln_port lane" "rl_DomainSet r \<noteq> [] \<longrightarrow> map_of ids (rl_DomainSet r) \<noteq> None"
    using mid by (auto split: if_splits option.splits)
  show ?case
    using Cons.IH [OF next_rules] sets same
    by (simp add: fold_put_absent or_else_def split: option.splits)
qed

section \<open>The policy a lane is meant to implement\<close>

definition rule_matches :: "domain_sets \<Rightarrow> string \<Rightarrow> ruleConfig \<Rightarrow> bool" where
  "rule_matches sets name r \<longleftrightarrow>
     in_domains (rl_Domain r) name \<or> in_suffixes (rl_DomainSuffix r) name \<or>
     rl_DomainSet r \<noteq> [] \<and>
       (case map_of sets (rl_DomainSet r) of None \<Rightarrow> False | Some s \<Rightarrow> in_set s name)"

definition lane_policy :: "domain_sets \<Rightarrow> laneConfig \<Rightarrow> string \<Rightarrow> string \<times> bool" where
  "lane_policy sets raw name =
     (case find (rule_matches sets name) (lc_Rules raw) of
        Some r \<Rightarrow> (or_reject (rl_Server r), rl_Action r = ''reject'')
      | None \<Rightarrow> (or_reject (lc_Final raw), or_reject (lc_Final raw) = ''reject''))"

lemma first_decision_find:
  "map_option (\<lambda>d. (rd_server d, rd_reject d)) (first_decision P k rs) =
     map_option (\<lambda>r. (or_reject (rl_Server r), rl_Action r = ''reject'')) (find P rs)"
  by (induction rs arbitrary: k) (simp_all add: rule_decision_def)

lemma rule_names_iff: "name \<in> set (rule_names r) \<longleftrightarrow> in_domains (rl_Domain r) name"
  by (auto simp: rule_names_def in_domains_def list_ex_iff)

lemma rule_suffixes_iff:
  "(\<exists>s \<in> set (dot_suffixes name). s \<in> set (rule_suffixes r)) \<longleftrightarrow> in_suffixes (rl_DomainSuffix r) name"
  using dot_suffixes_nonempty by (fastforce simp: rule_suffixes_def in_suffixes_def list_ex_iff)

lemma compileLane_Inr:
  assumes "compileLaneWithSets raw shared ids = Inr lane"
  shows "lc_ID raw \<noteq> [] \<and> (lc_Host raw = ''127.0.0.1'' \<or> lc_Host raw = ''::1'') \<and>
      1024 \<le> lc_Port raw \<and> lc_Port raw \<le> 65535 \<and> ln_id lane = lc_ID raw \<and> ln_host lane = lc_Host raw \<and>
      ln_port lane = lc_Port raw"
    and "ln_exact lane x = first_decision (\<lambda>r. x \<in> set (rule_names r)) 0 (lc_Rules raw)"
    and "ln_suffix lane x = first_decision (\<lambda>r. x \<in> set (rule_suffixes r)) 0 (lc_Rules raw)"
    and "ln_setDecisions lane i =
      first_decision (\<lambda>r. rl_DomainSet r \<noteq> [] \<and> map_of ids (rl_DomainSet r) = Some i) 0 (lc_Rules raw)"
    and "\<forall>r \<in> set (lc_Rules raw). rl_DomainSet r \<noteq> [] \<longrightarrow> map_of ids (rl_DomainSet r) \<noteq> None"
    and "ln_final lane = or_reject (lc_Final raw)" and "ln_shared lane = shared"
  using assms
  by (auto simp: compileLaneWithSets_def or_else_def split: if_splits dest!: compile_rules_maps)

lemma compileWith_Inr:
  assumes "compileWith ID build sets = Inr (shared, ids)"
  shows "ids = set_ids sets \<and>
    shared = (if sets = [] then None else Some (build (compile_exact sets) (compile_suffix sets))) \<and>
    (\<forall>name \<in> set (map fst sets). set_valid ID sets name)"
  using assms
  by (auto simp: compileWith_def list_all_iff set_names_def set_ids_def split: if_splits)

lemma set_ids_inj:
  assumes "length sets < 2 ^ 32 - 1" "(key, i) \<in> set (set_ids sets)" "(key', i) \<in> set (set_ids sets)"
  shows "key' = key"
  using set_ids_distinct [OF assms(1)] assms(2,3) by (force simp: distinct_map inj_on_def)

lemma set_ids_known: "(key, i) \<in> set (set_ids sets) \<Longrightarrow> key \<in> fst ` set sets"
proof -
  assume "(key, i) \<in> set (set_ids sets)"
  then have "key \<in> set (map fst (set_ids sets))" by force
  then show ?thesis by (simp only: set_ids_keys) (simp add: set_names_def)
qed

context membership_index
begin

lemma target_policy:
  assumes compiled: "compileWith ID build sets = Inr (shared, ids)"
    and lane: "compileLaneWithSets raw shared ids = Inr lane"
    and few: "length sets < 2 ^ 32 - 1" and name: "covers name"
  shows "target visits lane name = Some (lane_policy sets raw name)"
proof -
  have ids: "ids = set_ids sets" using compileWith_Inr [OF compiled] by simp
  obtain "is" where visited: "(case shared of None \<Rightarrow> Some [] | Some i \<Rightarrow> visits i name) = Some is"
    and members: "\<forall>i. i \<in> set is \<longleftrightarrow> (\<exists>key. (key, i) \<in> set ids \<and> in_set (the (map_of sets key)) name)"
    using compileWith_Inr [OF compiled] visits_compiled [OF name, of sets]
    by (cases "sets = []") (auto simp: set_ids_def set_names_def)
  let ?sets = "\<lambda>i r. rl_DomainSet r \<noteq> [] \<and> map_of ids (rl_DomainSet r) = Some i"
  have set_part: "(\<exists>i \<in> set is. ?sets i r) \<longleftrightarrow> rl_DomainSet r \<noteq> [] \<and>
      (case map_of sets (rl_DomainSet r) of None \<Rightarrow> False | Some s \<Rightarrow> in_set s name)"
    if r: "r \<in> set (lc_Rules raw)" for r
  proof (cases "rl_DomainSet r = []")
    case False
    then obtain i where i: "map_of ids (rl_DomainSet r) = Some i"
      using compileLane_Inr(5) [OF lane] r by blast
    then have mem: "(rl_DomainSet r, i) \<in> set ids" by (rule map_of_SomeD)
    then obtain s where s: "map_of sets (rl_DomainSet r) = Some s"
      using set_ids_known [of _ i sets] by (metis ids map_of_eq_None_iff not_None_eq)
    have "i \<in> set is \<longleftrightarrow> in_set s name"
    proof
      assume "i \<in> set is"
      then obtain key where key: "(key, i) \<in> set ids" "in_set (the (map_of sets key)) name"
        using members by blast
      then have "key = rl_DomainSet r" using set_ids_inj [OF few] mem ids by blast
      with key s show "in_set s name" by simp
    next
      assume "in_set s name"
      then have "in_set (the (map_of sets (rl_DomainSet r))) name" by (simp add: s)
      with mem members show "i \<in> set is" by blast
    qed
    with False i s show ?thesis by auto
  qed simp
  have "fold (\<lambda>s. better (ln_suffix lane s)) (dot_suffixes name) (ln_exact lane name) =
      first_decision (\<lambda>r. name \<in> set (rule_names r) \<or>
        (\<exists>s \<in> set (dot_suffixes name). s \<in> set (rule_suffixes r))) 0 (lc_Rules raw)"
    unfolding compileLane_Inr(2) [OF lane] by (rule fold_better_first) (rule compileLane_Inr(3) [OF lane])
  moreover have "fold (\<lambda>i. better (ln_setDecisions lane i)) is (first_decision Q 0 (lc_Rules raw)) =
      first_decision (\<lambda>r. Q r \<or> (\<exists>i \<in> set is. ?sets i r)) 0 (lc_Rules raw)" for Q
    by (rule fold_better_first) (rule compileLane_Inr(4) [OF lane])
  moreover have "first_decision (\<lambda>r. (name \<in> set (rule_names r) \<or>
        (\<exists>s \<in> set (dot_suffixes name). s \<in> set (rule_suffixes r))) \<or> (\<exists>i \<in> set is. ?sets i r)) 0 (lc_Rules raw) =
      first_decision (rule_matches sets name) 0 (lc_Rules raw)"
    by (rule first_decision_cong) (simp only: set_part rule_names_iff rule_suffixes_iff rule_matches_def disj_assoc)
  ultimately have "target visits lane name =
      Some (case first_decision (rule_matches sets name) 0 (lc_Rules raw) of
        None \<Rightarrow> (ln_final lane, ln_final lane = ''reject'') | Some d \<Rightarrow> (rd_server d, rd_reject d))"
    using visited by (simp add: target_def compileLane_Inr(7) [OF lane])
  then show ?thesis
    using first_decision_find [of "rule_matches sets name" 0 "lc_Rules raw"]
    by (auto simp: lane_policy_def compileLane_Inr(6) [OF lane] split: option.splits)
qed

end

section \<open>Decoding the configuration (config_stream.go)\<close>

text \<open>
  The JSON text is represented by its top-level fields in document order, each decoded to the type
  its key selects; \<open>FieldOther\<close> is a field that the decoder skips. \<open>FieldLanes None\<close> is a null.
  The remaining observations of \<open>decodeRuntimeConfig\<close> are whether the text starts with an object,
  whether something follows it, and its size.
\<close>

record serverConfig =
  sc_Type :: string
  sc_Server :: string
  sc_ServerPort :: int
  sc_Path :: string
  sc_ServerName :: string
  sc_TunnelHost :: string
  sc_TunnelPort :: int
  sc_Detour :: string
  sc_DoTFallback :: bool

record rawConfig =
  rw_DomainSets :: domain_sets
  rw_Version :: int
  rw_Servers :: "(string \<times> serverConfig) list"
  rw_Lanes :: "laneConfig list"
  rw_TimeoutSeconds :: rat

datatype config_field =
    FieldLanes "laneConfig list option"
  | FieldDomainSets domain_sets
  | FieldServers "(string \<times> serverConfig) list"
  | FieldVersion int
  | FieldTimeout rat
  | FieldOther string

fun field_key :: "config_field \<Rightarrow> string" where
  "field_key (FieldLanes _) = ''lanes''"
| "field_key (FieldDomainSets _) = ''domain_sets''"
| "field_key (FieldServers _) = ''servers''"
| "field_key (FieldVersion _) = ''version''"
| "field_key (FieldTimeout _) = ''timeout_seconds''"
| "field_key (FieldOther key) = key"

record config_document =
  cd_object :: bool
  cd_fields :: "config_field list"
  cd_trailing :: bool
  cd_size :: nat

datatype config_error =
  NotAnObject | DuplicateField | ConflictingSharedSet | TrailingData | ConfigTooLarge

abbreviation ShareThreshold :: nat where "ShareThreshold \<equiv> 64"

definition maxRuntimeConfigBytes :: nat where
  "maxRuntimeConfigBytes = 32 * 2 ^ 20"

definition rule_set :: "ruleConfig \<Rightarrow> domain_set" where
  "rule_set r = \<lparr>ds_Domain = rl_Domain r, ds_DomainSuffix = rl_DomainSuffix r\<rparr>"

definition intern_rule ::
  "(domain_set \<Rightarrow> string) \<Rightarrow> ruleConfig \<Rightarrow> domain_sets \<Rightarrow> ruleConfig \<times> domain_sets" where
  "intern_rule ID rule sets =
     (if rl_DomainSet rule \<noteq> [] \<or> length (rl_Domain rule) + length (rl_DomainSuffix rule) < ShareThreshold
      then (rule, sets)
      else let i = ID (rule_set rule) in
        (rule\<lparr>rl_DomainSet := i, rl_Domain := [], rl_DomainSuffix := []\<rparr>,
         if map_of sets i = None then AList.update i (rule_set rule) sets else sets))"

fun intern_rules ::
  "(domain_set \<Rightarrow> string) \<Rightarrow> ruleConfig list \<Rightarrow> domain_sets \<Rightarrow> ruleConfig list \<times> domain_sets" where
  "intern_rules ID [] sets = ([], sets)"
| "intern_rules ID (rule # rules) sets =
     (let (rule', sets') = intern_rule ID rule sets;
          (rules', sets'') = intern_rules ID rules sets'
      in (rule' # rules', sets''))"

fun decodeRuntimeLanes ::
  "(domain_set \<Rightarrow> string) \<Rightarrow> laneConfig list \<Rightarrow> rawConfig \<Rightarrow> rawConfig" where
  "decodeRuntimeLanes ID [] raw = raw"
| "decodeRuntimeLanes ID (l # ls) raw =
     (let (rules, sets) = intern_rules ID (lc_Rules l) (rw_DomainSets raw) in
      decodeRuntimeLanes ID ls
        (raw\<lparr>rw_DomainSets := sets, rw_Lanes := rw_Lanes raw @ [l\<lparr>lc_Rules := rules\<rparr>]\<rparr>))"

fun merge_sets ::
  "(domain_set \<Rightarrow> string) \<Rightarrow> domain_sets \<Rightarrow> domain_sets \<Rightarrow> config_error + domain_sets" where
  "merge_sets ID [] sets = Inr sets"
| "merge_sets ID ((i, s) # rest) sets =
     (case map_of sets i of
        Some previous \<Rightarrow>
          if ID previous \<noteq> ID s then Inl ConflictingSharedSet
          else merge_sets ID rest (AList.update i s sets)
      | None \<Rightarrow> merge_sets ID rest (AList.update i s sets))"

fun decode_field :: "(domain_set \<Rightarrow> string) \<Rightarrow> config_field \<Rightarrow> rawConfig \<Rightarrow> config_error + rawConfig" where
  "decode_field ID (FieldLanes None) raw = Inr raw"
| "decode_field ID (FieldLanes (Some lanes)) raw = Inr (decodeRuntimeLanes ID lanes raw)"
| "decode_field ID (FieldDomainSets sets) raw =
     (case merge_sets ID sets (rw_DomainSets raw) of
        Inl err \<Rightarrow> Inl err
      | Inr merged \<Rightarrow> Inr (raw\<lparr>rw_DomainSets := merged\<rparr>))"
| "decode_field ID (FieldServers servers) raw = Inr (raw\<lparr>rw_Servers := servers\<rparr>)"
| "decode_field ID (FieldVersion v) raw = Inr (raw\<lparr>rw_Version := v\<rparr>)"
| "decode_field ID (FieldTimeout t) raw = Inr (raw\<lparr>rw_TimeoutSeconds := t\<rparr>)"
| "decode_field ID (FieldOther _) raw = Inr raw"

fun decode_fields ::
  "(domain_set \<Rightarrow> string) \<Rightarrow> string list \<Rightarrow> config_field list \<Rightarrow> rawConfig \<Rightarrow> config_error + rawConfig" where
  "decode_fields ID seen [] raw = Inr raw"
| "decode_fields ID seen (f # fs) raw =
     (if field_key f \<in> set seen then Inl DuplicateField
      else case decode_field ID f raw of
        Inl err \<Rightarrow> Inl err
      | Inr raw \<Rightarrow> decode_fields ID (field_key f # seen) fs raw)"

definition empty_raw :: rawConfig where
  "empty_raw = \<lparr>rw_DomainSets = [], rw_Version = 0, rw_Servers = [], rw_Lanes = [], rw_TimeoutSeconds = 0\<rparr>"

definition decodeRuntimeConfig ::
  "(domain_set \<Rightarrow> string) \<Rightarrow> config_document \<Rightarrow> config_error + rawConfig" where
  "decodeRuntimeConfig ID doc =
     (if \<not> cd_object doc then Inl NotAnObject
      else case decode_fields ID [] (cd_fields doc) empty_raw of
        Inl err \<Rightarrow> Inl err
      | Inr raw \<Rightarrow>
          if cd_trailing doc then Inl TrailingData
          else if maxRuntimeConfigBytes < cd_size doc then Inl ConfigTooLarge
          else Inr raw)"

fun configured_lanes :: "config_field list \<Rightarrow> laneConfig list" where
  "configured_lanes [] = []"
| "configured_lanes (FieldLanes (Some lanes) # fs) = lanes @ configured_lanes fs"
| "configured_lanes (f # fs) = configured_lanes fs"

section \<open>Interning keeps the policy\<close>

definition set_keys :: "domain_sets \<Rightarrow> string set" where
  "set_keys sets = dom (map_of sets)"

definition rule_interned :: "(domain_set \<Rightarrow> string) \<Rightarrow> domain_sets \<Rightarrow> ruleConfig \<Rightarrow> ruleConfig \<Rightarrow> bool" where
  "rule_interned ID sets r r' \<longleftrightarrow>
     r' = r \<or> rl_DomainSet r = [] \<and> ID (rule_set r) \<in> set_keys sets \<and>
       r' = r\<lparr>rl_DomainSet := ID (rule_set r), rl_Domain := [], rl_DomainSuffix := []\<rparr>"

definition lane_interned :: "(domain_set \<Rightarrow> string) \<Rightarrow> domain_sets \<Rightarrow> laneConfig \<Rightarrow> laneConfig \<Rightarrow> bool" where
  "lane_interned ID sets l l' \<longleftrightarrow>
     l' = l\<lparr>lc_Rules := lc_Rules l'\<rparr> \<and> list_all2 (rule_interned ID sets) (lc_Rules l) (lc_Rules l')"

lemma rule_interned_mono:
  "rule_interned ID sets r r' \<Longrightarrow> set_keys sets \<subseteq> set_keys sets' \<Longrightarrow> rule_interned ID sets' r r'"
  by (auto simp: rule_interned_def)

lemma lane_interned_mono:
  "lane_interned ID sets l l' \<Longrightarrow> set_keys sets \<subseteq> set_keys sets' \<Longrightarrow> lane_interned ID sets' l l'"
  unfolding lane_interned_def using rule_interned_mono by (metis list_all2_mono)

lemma update_keys: "set_keys (AList.update k v al) = insert k (set_keys al)"
  by (simp add: set_keys_def update_conv')

lemma intern_rule_spec:
  assumes "intern_rule ID r sets = (r', sets')"
  shows "set_keys sets \<subseteq> set_keys sets' \<and> rule_interned ID sets' r r'"
  using assms
  by (auto simp: intern_rule_def rule_interned_def Let_def update_keys split: if_splits) (auto simp: set_keys_def)

lemma intern_rules_spec:
  "intern_rules ID rs sets = (rs', sets') \<Longrightarrow>
     set_keys sets \<subseteq> set_keys sets' \<and> list_all2 (rule_interned ID sets') rs rs'"
proof (induction rs arbitrary: sets rs')
  case (Cons r rs)
  obtain r1 s1 where r1: "intern_rule ID r sets = (r1, s1)" by (cases "intern_rule ID r sets")
  obtain rs2 s2 where rs2: "intern_rules ID rs s1 = (rs2, s2)" by (cases "intern_rules ID rs s1")
  from Cons.prems r1 rs2 have eq: "rs' = r1 # rs2" "sets' = s2" by simp_all
  with intern_rule_spec [OF r1] Cons.IH [of s1 rs2] rs2 rule_interned_mono show ?case by auto
qed simp

lemma decodeRuntimeLanes_spec:
  "set_keys (rw_DomainSets raw) \<subseteq> set_keys (rw_DomainSets (decodeRuntimeLanes ID ls raw)) \<and>
   (\<exists>ls'. rw_Lanes (decodeRuntimeLanes ID ls raw) = rw_Lanes raw @ ls' \<and>
     list_all2 (lane_interned ID (rw_DomainSets (decodeRuntimeLanes ID ls raw))) ls ls')"
proof (induction ls arbitrary: raw)
  case (Cons l ls)
  obtain rules sets where i: "intern_rules ID (lc_Rules l) (rw_DomainSets raw) = (rules, sets)"
    by (cases "intern_rules ID (lc_Rules l) (rw_DomainSets raw)")
  let ?l = "l\<lparr>lc_Rules := rules\<rparr>"
  let ?raw = "raw\<lparr>rw_DomainSets := sets, rw_Lanes := rw_Lanes raw @ [?l]\<rparr>"
  have l: "set_keys (rw_DomainSets raw) \<subseteq> set_keys sets" "lane_interned ID sets l ?l"
    using intern_rules_spec [OF i] by (simp_all add: lane_interned_def)
  from Cons.IH [of ?raw] obtain ls' where
    ls': "rw_Lanes (decodeRuntimeLanes ID ls ?raw) = rw_Lanes raw @ ?l # ls'"
      "list_all2 (lane_interned ID (rw_DomainSets (decodeRuntimeLanes ID ls ?raw))) ls ls'"
    and keys: "set_keys sets \<subseteq> set_keys (rw_DomainSets (decodeRuntimeLanes ID ls ?raw))"
    by auto
  from l(1) keys lane_interned_mono [OF l(2) keys] ls' i show ?case by auto
qed simp

lemma merge_sets_keys:
  "merge_sets ID new sets = Inr sets' \<Longrightarrow> set_keys sets \<subseteq> set_keys sets'"
proof (induction ID new sets rule: merge_sets.induct)
  case (2 ID i s rest sets)
  then show ?case by (auto simp: update_keys split: option.splits if_splits)
qed simp

lemma decode_field_spec:
  assumes "decode_field ID f raw = Inr raw'"
  shows "set_keys (rw_DomainSets raw) \<subseteq> set_keys (rw_DomainSets raw') \<and>
    (\<exists>ls'. rw_Lanes raw' = rw_Lanes raw @ ls' \<and>
      list_all2 (lane_interned ID (rw_DomainSets raw')) (configured_lanes [f]) ls')"
proof (cases f)
  case (FieldLanes ls)
  with assms show ?thesis
    using decodeRuntimeLanes_spec [of raw ID "the ls"] by (cases ls) auto
next
  case (FieldDomainSets s)
  with assms show ?thesis by (auto split: sum.splits dest: merge_sets_keys [THEN subsetD])
qed (use assms in auto)

lemma configured_lanes_Cons: "configured_lanes (f # fs) = configured_lanes [f] @ configured_lanes fs"
proof (cases f)
  case (FieldLanes ls)
  then show ?thesis by (cases ls) simp_all
qed simp_all

lemma decode_fields_spec:
  "decode_fields ID seen fs raw = Inr raw' \<Longrightarrow>
     set_keys (rw_DomainSets raw) \<subseteq> set_keys (rw_DomainSets raw') \<and>
     (\<exists>ls'. rw_Lanes raw' = rw_Lanes raw @ ls' \<and>
       list_all2 (lane_interned ID (rw_DomainSets raw')) (configured_lanes fs) ls')"
proof (induction fs arbitrary: seen raw)
  case (Cons f fs)
  from Cons.prems obtain mid where mid: "decode_field ID f raw = Inr mid"
      "decode_fields ID (field_key f # seen) fs mid = Inr raw'"
    by (auto split: if_splits sum.splits)
  obtain l1 where l1: "rw_Lanes mid = rw_Lanes raw @ l1"
      "list_all2 (lane_interned ID (rw_DomainSets mid)) (configured_lanes [f]) l1"
    and k1: "set_keys (rw_DomainSets raw) \<subseteq> set_keys (rw_DomainSets mid)"
    using decode_field_spec [OF mid(1)] by auto
  obtain l2 where l2: "rw_Lanes raw' = rw_Lanes mid @ l2"
      "list_all2 (lane_interned ID (rw_DomainSets raw')) (configured_lanes fs) l2"
    and k2: "set_keys (rw_DomainSets mid) \<subseteq> set_keys (rw_DomainSets raw')"
    using Cons.IH [OF mid(2)] by auto
  have "list_all2 (lane_interned ID (rw_DomainSets raw')) (configured_lanes [f]) l1"
    using l1(2) lane_interned_mono [OF _ k2] by (metis list_all2_mono)
  then have "list_all2 (lane_interned ID (rw_DomainSets raw')) (configured_lanes (f # fs)) (l1 @ l2)"
    unfolding configured_lanes_Cons [of f fs] using l2(2) by (rule list_all2_appendI)
  with l1 l2 k1 k2 show ?case by auto
qed simp

text \<open>The sets whose hashes must not collide: the stored ones and those of the configured rules.\<close>

definition hashed_sets :: "domain_sets \<Rightarrow> laneConfig list \<Rightarrow> domain_set set" where
  "hashed_sets sets lanes = snd ` set sets \<union> rule_set ` (\<Union>l \<in> set lanes. set (lc_Rules l))"

definition collision_free :: "(domain_set \<Rightarrow> string) \<Rightarrow> domain_set set \<Rightarrow> bool" where
  "collision_free ID A \<longleftrightarrow> inj_on ID A \<and> [] \<notin> ID ` A"

lemma rule_interned_matches:
  assumes "rule_interned ID sets r r'" and valid: "\<forall>k \<in> set_keys sets. set_valid ID sets k"
    and free: "collision_free ID (snd ` set sets \<union> A)" and "rule_set r \<in> A"
  shows "rule_matches sets name r' = rule_matches sets name r \<and> rl_Server r' = rl_Server r \<and>
    rl_Action r' = rl_Action r"
proof (cases "r' = r")
  case False
  let ?i = "ID (rule_set r)"
  from False assms(1) have r: "rl_DomainSet r = []" "?i \<in> set_keys sets"
      "r' = r\<lparr>rl_DomainSet := ?i, rl_Domain := [], rl_DomainSuffix := []\<rparr>"
    by (auto simp: rule_interned_def)
  then obtain s where s: "map_of sets ?i = Some s" by (auto simp: set_keys_def)
  then have "s \<in> snd ` set sets" by (force dest: map_of_SomeD)
  moreover have "ID s = ?i" using valid r(2) s by (auto simp: set_valid_def)
  ultimately have "s = rule_set r"
    using free assms(4) by (auto simp: collision_free_def dest: inj_onD)
  moreover have "?i \<noteq> []" using free assms(4) by (force simp: collision_free_def)
  ultimately show ?thesis
    using r s by (simp add: rule_matches_def in_set_def rule_set_def) (simp add: in_domains_def in_suffixes_def)
qed simp

lemma lane_interned_policy:
  assumes "lane_interned ID sets l l'" "\<forall>k \<in> set_keys sets. set_valid ID sets k"
    "collision_free ID (snd ` set sets \<union> A)" "rule_set ` set (lc_Rules l) \<subseteq> A"
  shows "lane_policy sets l' name = lane_policy sets l name"
proof -
  have rules: "list_all2 (rule_interned ID sets) (lc_Rules l) (lc_Rules l')"
    and final: "lc_Final l' = lc_Final l"
    using assms(1) unfolding lane_interned_def by (simp, metis laneConfig.select_convs(4) laneConfig.surjective laneConfig.update_convs(5))
  have "map_option (\<lambda>r. (or_reject (rl_Server r), rl_Action r = ''reject'')) (find (rule_matches sets name) rs') =
      map_option (\<lambda>r. (or_reject (rl_Server r), rl_Action r = ''reject'')) (find (rule_matches sets name) rs)"
    if "list_all2 (rule_interned ID sets) rs rs'" "rule_set ` set rs \<subseteq> A" for rs rs'
    using that
  proof (induction rule: list_all2_induct)
    case (Cons r rs r' rs')
    then show ?case using rule_interned_matches [OF Cons.hyps(1) assms(2,3), of name] by simp
  qed simp
  from this [OF rules assms(4)] final show ?thesis
    by (auto simp: lane_policy_def split: option.splits)
qed

section \<open>Properties\<close>

text \<open>C1: Every lane decides every name as the first matching rule of its configured rule list: when
  decoding (which moves the domains of rules with at least 64 entries into shared sets), compiling
  the shared sets and compiling a lane all succeed, \<open>target\<close> returns the server and the reject flag
  of the first configured rule that contains the name by exact domain, by suffix or by shared
  set, and the final server of the lane (rejecting when it is empty or \<open>reject\<close>) when there is none.
  Assumes that the content hashes of the sets involved do not collide.\<close>

theorem lane_target_is_first_match:
  assumes "decodeRuntimeConfig ID doc = Inr raw"
    and "compileWith ID compileMapMembership (rw_DomainSets raw) = Inr (shared, ids)"
    and "j < length (configured_lanes (cd_fields doc))"
    and "compileLaneWithSets (rw_Lanes raw ! j) shared ids = Inr lane"
    and "collision_free ID (hashed_sets (rw_DomainSets raw) (configured_lanes (cd_fields doc)))"
    and "length (rw_DomainSets raw) < 2 ^ 32 - 1"
  shows "target mapMembership_Match lane name =
    Some (lane_policy (rw_DomainSets raw) (configured_lanes (cd_fields doc) ! j) name)"
proof -
  let ?lanes = "configured_lanes (cd_fields doc)"
  have "decode_fields ID [] (cd_fields doc) empty_raw = Inr raw"
    using assms(1) by (auto simp: decodeRuntimeConfig_def split: if_splits sum.splits)
  from decode_fields_spec [OF this] have "list_all2 (lane_interned ID (rw_DomainSets raw)) ?lanes (rw_Lanes raw)"
    by (auto simp: empty_raw_def)
  with assms(3) have lane: "lane_interned ID (rw_DomainSets raw) (?lanes ! j) (rw_Lanes raw ! j)"
    by (simp add: list_all2_nthD)
  have valid: "\<forall>k \<in> set_keys (rw_DomainSets raw). set_valid ID (rw_DomainSets raw) k"
    using compileWith_Inr [OF assms(2)] by (auto simp: set_keys_def dom_map_of_conv_image_fst)
  have "rule_set ` set (lc_Rules (?lanes ! j)) \<subseteq> rule_set ` (\<Union>l \<in> set ?lanes. set (lc_Rules l))"
    using assms(3) by (meson UN_upper image_mono nth_mem)
  from lane_interned_policy [OF lane valid assms(5) [unfolded hashed_sets_def] this]
  show ?thesis using mapm.target_policy [OF assms(2,4,6)] by simp
qed

definition example_ID :: "domain_set \<Rightarrow> string" where
  "example_ID s = (if ds_Domain s = [] then ''suffixes'' else ''domains'')"

definition example_lane :: laneConfig where
  "example_lane = \<lparr>lc_ID = ''lan'', lc_Host = ''127.0.0.1'', lc_Port = 5301, lc_Final = ''direct'',
     lc_Rules =
       [\<lparr>rl_DomainSet = [], rl_Domain = replicate 64 ''Big.example'', rl_DomainSuffix = [],
         rl_Action = [], rl_Server = ''vpn''\<rparr>,
        \<lparr>rl_DomainSet = [], rl_Domain = [], rl_DomainSuffix = [''.example''],
         rl_Action = ''reject'', rl_Server = []\<rparr>]\<rparr>"

definition example_document :: config_document where
  "example_document = \<lparr>cd_object = True, cd_fields = [FieldVersion 2, FieldLanes (Some [example_lane])],
     cd_trailing = False, cd_size = 4096\<rparr>"

definition example_raw :: rawConfig where
  "example_raw = (case decodeRuntimeConfig example_ID example_document of Inr raw \<Rightarrow> raw | Inl _ \<Rightarrow> empty_raw)"

definition example_index :: "mapMembership option \<times> (string \<times> u32) list" where
  "example_index = (case compileWith example_ID compileMapMembership (rw_DomainSets example_raw) of
     Inr r \<Rightarrow> r | Inl _ \<Rightarrow> (None, []))"

definition example_compiled :: "mapMembership lane" where
  "example_compiled = (case compileLaneWithSets (rw_Lanes example_raw ! 0) (fst example_index) (snd example_index) of
     Inr l \<Rightarrow> l
   | Inl _ \<Rightarrow> \<lparr>ln_shared = None, ln_setDecisions = Map.empty, ln_id = [], ln_host = [], ln_port = 0,
                ln_final = [], ln_exact = Map.empty, ln_suffix = Map.empty\<rparr>)"

lemma example_decoded:
  "decodeRuntimeConfig example_ID example_document = Inr example_raw"
  "rw_DomainSets example_raw =
     [(example_ID (rule_set (lc_Rules example_lane ! 0)), rule_set (lc_Rules example_lane ! 0))]"
  "configured_lanes (cd_fields example_document) = [example_lane]"
  by (simp_all add: example_raw_def example_document_def example_lane_def decodeRuntimeConfig_def
      intern_rule_def maxRuntimeConfigBytes_def empty_raw_def rule_set_def Let_def)

lemma example_compiles:
  "compileWith example_ID compileMapMembership (rw_DomainSets example_raw) =
     Inr (fst example_index, snd example_index)"
  by (simp add: example_index_def example_decoded(2) compileWith_def set_names_def set_valid_def
      example_lane_def rule_set_def)

lemma example_lane_compiles:
  "compileLaneWithSets (rw_Lanes example_raw ! 0) (fst example_index) (snd example_index) = Inr example_compiled"
  by (simp add: example_compiled_def example_index_def example_raw_def example_document_def example_lane_def
      decodeRuntimeConfig_def intern_rule_def maxRuntimeConfigBytes_def empty_raw_def rule_set_def Let_def
      compileWith_def set_names_def set_valid_def compileLaneWithSets_def set_ids_def)

theorem lane_target_is_first_match_witness:
  "target mapMembership_Match example_compiled ''big.example'' = Some (''vpn'', False) \<and>
   target mapMembership_Match example_compiled ''other.example'' = Some (''reject'', True)"
proof -
  have free: "collision_free example_ID
      (hashed_sets (rw_DomainSets example_raw) (configured_lanes (cd_fields example_document)))"
    by (auto simp: collision_free_def hashed_sets_def example_decoded example_lane_def rule_set_def
        example_ID_def inj_on_def)
  have target: "target mapMembership_Match example_compiled name =
      Some (lane_policy (rw_DomainSets example_raw) example_lane name)" for name
    using lane_target_is_first_match [OF example_decoded(1) example_compiles _ example_lane_compiles free]
    by (simp add: example_decoded)
  have "lane_policy (rw_DomainSets example_raw) example_lane ''big.example'' = (''vpn'', False)"
    and "lane_policy (rw_DomainSets example_raw) example_lane ''other.example'' = (''reject'', True)"
    unfolding example_decoded(2) by code_simp+
  with target show ?thesis by simp
qed

text \<open>C34: The index on the perfect hash group of xray-core decides like the plain map index: for a
  group that behaves as documented on lower-case patterns and names, and for every lower-case name
  without empty labels, which is what a question gives, a lane compiled
  against the native index (including its fall-back when the group cannot be built, and its
  separate map for exact names that start with a dot) has the same target as the lane compiled
  against the map index.\<close>

theorem native_index_equals_map_index:
  assumes "mph_documented build" and "proper_name name" and "length sets < 2 ^ 32 - 1"
    and "compileWith ID (compileMembership build) sets = Inr (native, ids)"
    and "compileWith ID compileMapMembership sets = Inr (plain, ids')"
    and "compileLaneWithSets raw native ids = Inr lane"
    and "compileLaneWithSets raw plain ids' = Inr lane'"
  shows "target native_Match lane name = target mapMembership_Match lane' name"
  using membership_index.target_policy [OF mph_membership_index [OF assms(1)] assms(4,6,3,2)]
    mapm.target_policy [OF assms(5,7,3)] by simp

theorem native_index_equals_map_index_witness:
  "target native_Match
     (case compileLaneWithSets (rw_Lanes example_raw ! 0)
        (Some (compileMembership mph_reference (compile_exact (rw_DomainSets example_raw))
           (compile_suffix (rw_DomainSets example_raw)))) (set_ids (rw_DomainSets example_raw))
      of Inr l \<Rightarrow> l) ''big.example'' =
   target mapMembership_Match example_compiled ''big.example''"
proof -
  let ?native = "Some (compileMembership mph_reference (compile_exact (rw_DomainSets example_raw))
           (compile_suffix (rw_DomainSets example_raw)))"
  have ids: "snd example_index = set_ids (rw_DomainSets example_raw)"
    using compileWith_Inr [OF example_compiles] by simp
  have valid: "list_all (set_valid example_ID (rw_DomainSets example_raw)) (set_names (rw_DomainSets example_raw))"
    "rw_DomainSets example_raw \<noteq> []"
    by (simp_all add: example_decoded(2) set_names_def set_valid_def example_lane_def rule_set_def)
  have native: "compileWith example_ID (compileMembership mph_reference) (rw_DomainSets example_raw) =
      Inr (?native, set_ids (rw_DomainSets example_raw))"
    using valid by (simp add: compileWith_def)
  have lanes: "rw_Lanes example_raw ! 0 =
      example_lane\<lparr>lc_Rules := [(lc_Rules example_lane ! 0)\<lparr>rl_DomainSet := ''domains'', rl_Domain := []\<rparr>,
        lc_Rules example_lane ! 1]\<rparr>"
    by (simp add: example_raw_def example_document_def example_lane_def example_ID_def
        decodeRuntimeConfig_def intern_rule_def maxRuntimeConfigBytes_def empty_raw_def rule_set_def Let_def)
  have known: "map_of (set_ids (rw_DomainSets example_raw)) ''domains'' = Some 1"
    by (simp add: example_decoded(2) set_ids_def set_names_def example_ID_def rule_set_def example_lane_def)
  obtain l where l: "compileLaneWithSets (rw_Lanes example_raw ! 0) ?native (set_ids (rw_DomainSets example_raw)) = Inr l"
    using known unfolding lanes by (simp add: example_lane_def compileLaneWithSets_def Let_def)
  have "proper_name ''big.example''" by code_simp
  moreover have "length (rw_DomainSets example_raw) < 2 ^ 32 - 1" by (simp add: example_decoded(2))
  ultimately show ?thesis
    using native_index_equals_map_index
      [OF mph_reference_documented _ _ native example_compiles l example_lane_compiles]
    by (simp add: l)
qed

end
