(* ===== verification/Dns_Upstream.thy ===== *)
theory Dns_Upstream
  imports Dns_Question Dns_Lanes "HOL-Library.Multiset"
begin

text \<open>
  Upstream resolvers, the first part of \<^verbatim>\<open>internal/policydns/resolver.go\<close>: the constructors with
  their validation, the connection pools of the UDP and TCP upstreams with the two-attempt
  exchange, the two-byte framing of DNS over TCP, and the DNS over HTTPS upstream with its retry,
  its replacement of a failed transport and its encrypted fall-back.

  The network is a parameter: an \<open>exchange_env\<close> says, for each attempt, what the context reports,
  what a dial gives and what the exchange on a connection gives. Connections are numbers; a
  pool keeps the idle ones and the list of those that were closed.
\<close>

unbundle bit_operations_syntax

type_synonym go_error = string
type_synonym conn = nat

section \<open>Constructors\<close>

datatype upstream_config =
    UdpUpstream string nanos
  | TcpUpstream string nanos "string option"
  | DohUpstream string string nanos "upstream_config option"

text \<open>An upstream is its address and timeout; for TCP also the TLS server name, for HTTPS the dial
  address, the URL, the timeout and the fall-back.\<close>

definition joinHostPort :: "string \<Rightarrow> int \<Rightarrow> string" where
  "joinHostPort host port =
     (if CHR '':'' \<in> set host then ''['' @ host @ '']:'' @ itoa port else host @ '':'' @ itoa port)"

definition newTCPUpstream :: "serverConfig \<Rightarrow> int \<Rightarrow> nanos \<Rightarrow> bool \<Rightarrow> go_error + upstream_config" where
  "newTCPUpstream config port timeout encrypted =
     (let host = (if sc_TunnelHost config = [] then sc_Server config else sc_TunnelHost config);
          port = (if sc_TunnelPort config \<noteq> 0 then sc_TunnelPort config else port)
      in if host = [] \<or> port = 0 then Inl ''TCP upstream endpoint is incomplete''
         else if encrypted \<and> sc_ServerName config = [] then Inl ''DoT server name is empty''
         else Inr (TcpUpstream (joinHostPort host port) timeout
                (if encrypted then Some (sc_ServerName config) else None)))"

definition newDoHUpstream :: "serverConfig \<Rightarrow> nanos \<Rightarrow> go_error + upstream_config" where
  "newDoHUpstream config timeout =
     (if sc_ServerName config = [] then Inl ''DoH server name is empty''
      else let host = (if sc_TunnelHost config = [] then sc_Server config else sc_TunnelHost config);
               port = (if sc_TunnelHost config = [] then sc_ServerPort config else sc_TunnelPort config);
               port = (if port = 0 then 443 else port)
           in if host = [] then Inl ''DoH endpoint is incomplete''
              else let path = (if sc_Path config = [] then ''/dns-query'' else sc_Path config);
                       url = ''https://'' @ sc_ServerName config @ path
                   in if sc_DoTFallback config
                      then (case newTCPUpstream (config\<lparr>sc_TunnelHost := [], sc_TunnelPort := 0\<rparr>) 853 timeout True of
                              Inl err \<Rightarrow> Inl err
                            | Inr fallback \<Rightarrow>
                                Inr (DohUpstream (joinHostPort host port) url timeout (Some fallback)))
                      else Inr (DohUpstream (joinHostPort host port) url timeout None))"

definition newUpstream :: "serverConfig \<Rightarrow> nanos \<Rightarrow> go_error + upstream_config" where
  "newUpstream config timeout =
     (if sc_Type config = ''udp'' then
        (let port = (if sc_ServerPort config = 0 then 53 else sc_ServerPort config) in
         if sc_Server config = [] then Inl ''UDP server is empty''
         else Inr (UdpUpstream (joinHostPort (sc_Server config) port) timeout))
      else if sc_Type config = ''tls'' then
        newTCPUpstream config (if sc_ServerPort config = 0 then 853 else sc_ServerPort config) timeout True
      else if sc_Type config = ''https'' then newDoHUpstream config timeout
      else Inl (''unsupported upstream type '' @ sc_Type config))"

text \<open>Whether every hop of an upstream is encrypted.\<close>

fun encrypted_upstream :: "upstream_config \<Rightarrow> bool" where
  "encrypted_upstream (UdpUpstream _ _) = False"
| "encrypted_upstream (TcpUpstream _ _ tls) = (tls \<noteq> None)"
| "encrypted_upstream (DohUpstream _ _ _ fallback) =
     (case fallback of None \<Rightarrow> True | Some u \<Rightarrow> encrypted_upstream u)"

lemma newTCPUpstream_encrypted: "newTCPUpstream config port timeout True = Inr u \<Longrightarrow> encrypted_upstream u"
  by (auto simp: newTCPUpstream_def Let_def split: if_splits)

lemma newDoHUpstream_encrypted: "newDoHUpstream config timeout = Inr u \<Longrightarrow> encrypted_upstream u"
  by (auto simp: newDoHUpstream_def Let_def split: if_splits sum.splits dest: newTCPUpstream_encrypted)

lemma newUpstream_encrypted:
  "newUpstream config timeout = Inr u \<Longrightarrow> sc_Type config \<noteq> ''udp'' \<Longrightarrow> encrypted_upstream u"
  by (auto simp: newUpstream_def split: if_splits dest: newTCPUpstream_encrypted newDoHUpstream_encrypted)

section \<open>Connection pools\<close>

record pool =
  pl_idle :: "conn list"
  pl_cap :: nat
  pl_closed :: bool
  pl_dead :: "conn list"
  pl_dialed :: "conn list"

text \<open>\<open>pl_dead\<close> lists the connections that were closed and \<open>pl_dialed\<close> those that were opened, the
  latest first; the code has no such fields, they record its calls of \<open>Close\<close> and \<open>Dial\<close>.\<close>

definition new_pool :: "nat \<Rightarrow> pool" where
  "new_pool n = \<lparr>pl_idle = [], pl_cap = n, pl_closed = False, pl_dead = [], pl_dialed = []\<rparr>"

definition close_conn :: "conn \<Rightarrow> pool \<Rightarrow> pool" where
  "close_conn c p = p\<lparr>pl_dead := c # pl_dead p\<rparr>"

text \<open>The pool part of \<open>borrow\<close>: an error when closed, an idle connection, or the need to dial.\<close>

datatype borrow_result = PoolClosed | Reuse conn pool | NeedDial

definition pool_borrow :: "pool \<Rightarrow> borrow_result" where
  "pool_borrow p =
     (if pl_closed p then PoolClosed
      else case pl_idle p of
        [] \<Rightarrow> NeedDial
      | c # cs \<Rightarrow> Reuse c (p\<lparr>pl_idle := cs\<rparr>))"

definition pool_release :: "conn \<Rightarrow> pool \<Rightarrow> pool" where
  "pool_release c p =
     (if pl_closed p then close_conn c p
      else if length (pl_idle p) < pl_cap p then p\<lparr>pl_idle := pl_idle p @ [c]\<rparr>
      else close_conn c p)"

definition pool_close :: "pool \<Rightarrow> pool" where
  "pool_close p =
     (if pl_closed p then p
      else p\<lparr>pl_closed := True, pl_idle := [], pl_dead := rev (pl_idle p) @ pl_dead p\<rparr>)"

definition pool_ok :: "pool \<Rightarrow> bool" where
  "pool_ok p \<longleftrightarrow> length (pl_idle p) \<le> pl_cap p \<and> (pl_closed p \<longrightarrow> pl_idle p = [])"

text \<open>The connections the pool accounts for.\<close>

definition pool_conns :: "pool \<Rightarrow> conn multiset" where
  "pool_conns p = mset (pl_idle p) + mset (pl_dead p)"

lemma pool_ok_new [simp]: "pool_ok (new_pool n)" "pool_conns (new_pool n) = {#}"
  by (simp_all add: pool_ok_def new_pool_def pool_conns_def)

lemma close_conn_facts [simp]:
  "pool_ok (close_conn c p) = pool_ok p" "pool_conns (close_conn c p) = pool_conns p + {#c#}"
  "pl_closed (close_conn c p) = pl_closed p" "pl_cap (close_conn c p) = pl_cap p"
  "pl_idle (close_conn c p) = pl_idle p" "pl_dead (close_conn c p) = c # pl_dead p"
  "pl_dialed (close_conn c p) = pl_dialed p"
  by (simp_all add: pool_ok_def close_conn_def pool_conns_def)

lemma pool_borrow_Reuse:
  "pool_borrow p = Reuse c p' \<Longrightarrow> pool_ok p \<Longrightarrow>
     pool_ok p' \<and> pool_conns p = pool_conns p' + {#c#} \<and> pl_closed p' = pl_closed p \<and> pl_cap p' = pl_cap p \<and>
     pl_dialed p' = pl_dialed p"
  by (auto simp: pool_borrow_def pool_ok_def pool_conns_def split: if_splits list.splits)

lemma pool_release_facts:
  assumes "pool_ok p"
  shows "pool_ok (pool_release c p)" "pool_conns (pool_release c p) = pool_conns p + {#c#}"
    "pl_closed (pool_release c p) = pl_closed p" "pl_cap (pool_release c p) = pl_cap p"
    "pl_dialed (pool_release c p) = pl_dialed p"
  using assms by (auto simp: pool_ok_def pool_release_def pool_conns_def close_conn_def)

lemma pool_close_facts:
  assumes "pool_ok p"
  shows "pool_ok (pool_close p)" "pool_conns (pool_close p) = pool_conns p"
    "pl_closed (pool_close p)" "pl_idle (pool_close p) = []" "pl_dialed (pool_close p) = pl_dialed p"
    "pl_cap (pool_close p) = pl_cap p"
  using assms by (auto simp: pool_ok_def pool_close_def pool_conns_def)

section \<open>The exchange on a pool\<close>

text \<open>
  What the network and the other goroutines do during one exchange, by attempt: the context error
  before and after the attempt, the outcome of dialling and of the TLS handshake, whether the
  upstream is closed meanwhile, and the outcome of writing the query and reading the answer.
\<close>

record exchange_env =
  ev_ctx :: "nat \<Rightarrow> go_error option"
  ev_dial :: "nat \<Rightarrow> go_error + conn"
  ev_tls :: "nat \<Rightarrow> go_error option"
  ev_close_dial :: "nat \<Rightarrow> bool"
  ev_close_io :: "nat \<Rightarrow> bool"
  ev_io :: "nat \<Rightarrow> conn \<Rightarrow> go_error + bytes"
  ev_ctx_after :: "nat \<Rightarrow> go_error option"

definition close_if :: "bool \<Rightarrow> pool \<Rightarrow> pool" where
  "close_if b p = (if b then pool_close p else p)"

definition dialled :: "conn \<Rightarrow> pool \<Rightarrow> pool" where
  "dialled c p = p\<lparr>pl_dialed := c # pl_dialed p\<rparr>"

definition udp_borrow :: "exchange_env \<Rightarrow> nat \<Rightarrow> pool \<Rightarrow> pool \<times> (go_error + conn)" where
  "udp_borrow env k p =
     (case pool_borrow p of
        PoolClosed \<Rightarrow> (p, Inl ''UDP upstream is closed'')
      | Reuse c p' \<Rightarrow> (p', Inr c)
      | NeedDial \<Rightarrow>
          let p = close_if (ev_close_dial env k) p in
          case ev_dial env k of
            Inl err \<Rightarrow> (p, Inl err)
          | Inr c \<Rightarrow> (dialled c p, Inr c))"

definition tcp_borrow :: "bool \<Rightarrow> exchange_env \<Rightarrow> nat \<Rightarrow> pool \<Rightarrow> pool \<times> (go_error + conn)" where
  "tcp_borrow tls env k p =
     (case pool_borrow p of
        PoolClosed \<Rightarrow> (p, Inl ''TCP upstream is closed'')
      | Reuse c p' \<Rightarrow> (p', Inr c)
      | NeedDial \<Rightarrow>
          let p = close_if (ev_close_dial env k) p in
          case ev_dial env k of
            Inl err \<Rightarrow> (p, Inl err)
          | Inr c \<Rightarrow>
              let p = dialled c p in
              case (if tls then ev_tls env k else None) of
                Some err \<Rightarrow> (close_conn c p, Inl err)
              | None \<Rightarrow>
                  if pl_closed p then (close_conn c p, Inl ''TCP upstream is closed'')
                  else (p, Inr c))"

text \<open>The loop of \<open>exchange\<close>, the same text for both upstreams: \<open>n\<close> attempts are left, \<open>k\<close> is the
  attempt, \<open>io\<close> is \<open>exchangeOnConnection\<close>, which may open and close connections of its own.\<close>

fun exchange_attempts ::
  "(nat \<Rightarrow> pool \<Rightarrow> pool \<times> (go_error + conn)) \<Rightarrow> (nat \<Rightarrow> conn \<Rightarrow> pool \<Rightarrow> pool \<times> (go_error + bytes)) \<Rightarrow>
   exchange_env \<Rightarrow> nat \<Rightarrow> nat \<Rightarrow> go_error \<Rightarrow> pool \<Rightarrow> pool \<times> (go_error + bytes)" where
  "exchange_attempts borrow io env 0 k lastError p = (p, Inl lastError)"
| "exchange_attempts borrow io env (Suc n) k lastError p =
     (case ev_ctx env k of
        Some err \<Rightarrow> (p, Inl err)
      | None \<Rightarrow>
          (case borrow k p of
             (p, Inl err) \<Rightarrow> (p, Inl err)
           | (p, Inr c) \<Rightarrow>
               let p = close_if (ev_close_io env k) p in
               case ev_ctx_after env k of
                 Some err \<Rightarrow> (close_conn c p, Inl err)
               | None \<Rightarrow>
                   (case io k c p of
                      (p, Inr response) \<Rightarrow> (pool_release c p, Inr response)
                    | (p, Inl err) \<Rightarrow> exchange_attempts borrow io env n (Suc k) err (close_conn c p))))"

definition tcp_io :: "exchange_env \<Rightarrow> nat \<Rightarrow> conn \<Rightarrow> pool \<Rightarrow> pool \<times> (go_error + bytes)" where
  "tcp_io env k c p = (p, ev_io env k c)"

definition tcp_exchange :: "bool \<Rightarrow> exchange_env \<Rightarrow> pool \<Rightarrow> pool \<times> (go_error + bytes)" where
  "tcp_exchange tls env p = exchange_attempts (tcp_borrow tls env) (tcp_io env) env 2 0 [] p"

text \<open>A truncated UDP answer is fetched again over TCP, on a pool of its own that is closed
  afterwards; \<open>over_tcp k\<close> is the environment of that exchange. Its calls of \<open>Dial\<close> and \<open>Close\<close> are
  recorded with those of the exchange that it belongs to.\<close>

definition truncated :: "bytes \<Rightarrow> bool go" where
  "truncated response =
     (if 4 \<le> length response
      then do { flags \<leftarrow> u16_at response 2; Some (flags AND 0x0200 \<noteq> 0) }
      else Some False)"

definition recorded :: "pool \<Rightarrow> pool \<Rightarrow> pool" where
  "recorded fallback p = p\<lparr>pl_dead := pl_dead fallback @ pl_dead p, pl_dialed := pl_dialed fallback @ pl_dialed p\<rparr>"

definition udp_io :: "(nat \<Rightarrow> exchange_env) \<Rightarrow> exchange_env \<Rightarrow> nat \<Rightarrow> conn \<Rightarrow> pool \<Rightarrow> pool \<times> (go_error + bytes)" where
  "udp_io over_tcp env k c p =
     (case ev_io env k c of
        Inl err \<Rightarrow> (p, Inl err)
      | Inr response \<Rightarrow>
          if truncated response = Some True
          then let (fallback, answer) = tcp_exchange False (over_tcp k) (new_pool 1)
               in (recorded (pool_close fallback) p, answer)
          else (p, Inr response))"

definition udp_exchange ::
  "(nat \<Rightarrow> exchange_env) \<Rightarrow> exchange_env \<Rightarrow> pool \<Rightarrow> pool \<times> (go_error + bytes)" where
  "udp_exchange over_tcp env p = exchange_attempts (udp_borrow env) (udp_io over_tcp env) env 2 0 [] p"

lemma truncated_total: "\<exists>b. truncated r = Some b"
  using u16_at_returns [of 2 r] by (auto simp: truncated_def)

section \<open>No connection is lost\<close>

definition pool_balanced :: "pool \<Rightarrow> bool" where
  "pool_balanced p \<longleftrightarrow> pool_ok p \<and> pool_conns p = mset (pl_dialed p)"

text \<open>The contract of \<open>borrow\<close>: on an error nothing is missing from the pool, on success exactly the
  returned connection is. The transfer on a connection leaves the pool as it is and closes what it dials.\<close>

locale connection_pool =
  fixes borrow :: "nat \<Rightarrow> pool \<Rightarrow> pool \<times> (go_error + conn)"
    and io :: "nat \<Rightarrow> conn \<Rightarrow> pool \<Rightarrow> pool \<times> (go_error + bytes)"
  assumes borrow_error: "pool_balanced p \<Longrightarrow> borrow k p = (p', Inl err) \<Longrightarrow>
      pool_balanced p' \<and> pl_cap p' = pl_cap p \<and> (pl_closed p \<longrightarrow> pl_closed p')"
    and borrow_conn: "pool_balanced p \<Longrightarrow> borrow k p = (p', Inr c) \<Longrightarrow>
      pool_ok p' \<and> pool_conns p' + {#c#} = mset (pl_dialed p') \<and> pl_cap p' = pl_cap p \<and> \<not> pl_closed p"
    and io_pool: "io k c p = (p', r) \<Longrightarrow> pl_idle p' = pl_idle p \<and> pl_cap p' = pl_cap p \<and> pl_closed p' = pl_closed p \<and>
      (\<exists>own. mset (pl_dead p') = mset (pl_dead p) + own \<and> mset (pl_dialed p') = mset (pl_dialed p) + own)"
begin

lemma io_balanced:
  assumes "io k c p = (p', r)" "pool_ok p" "pool_conns p + {#c#} = mset (pl_dialed p)"
  shows "pool_ok p'" "pool_conns p' + {#c#} = mset (pl_dialed p')" "pl_cap p' = pl_cap p"
proof -
  obtain own where own: "mset (pl_dead p') = mset (pl_dead p) + own" "mset (pl_dialed p') = mset (pl_dialed p) + own"
    and same: "pl_idle p' = pl_idle p" "pl_cap p' = pl_cap p" "pl_closed p' = pl_closed p"
    using io_pool [OF assms(1)] by blast
  show "pool_ok p'" "pl_cap p' = pl_cap p" using assms(2) same by (simp_all add: pool_ok_def)
  show "pool_conns p' + {#c#} = mset (pl_dialed p')"
    using assms(3) own same by (simp add: pool_conns_def)
qed

lemma exchange_balanced:
  assumes "pool_balanced p" "exchange_attempts borrow io env n k lastError p = (p', r)"
  shows "pool_balanced p' \<and> pl_cap p' = pl_cap p"
  using assms
proof (induction n arbitrary: k lastError p)
  case (Suc n)
  show ?case
  proof (cases "ev_ctx env k")
    case (Some err)
    with Suc.prems show ?thesis by simp
  next
    case None
    obtain q res where b: "borrow k p = (q, res)" by (cases "borrow k p")
    show ?thesis
    proof (cases res)
      case (Inl err)
      with None b Suc.prems borrow_error [OF Suc.prems(1)] show ?thesis by simp
    next
      case (Inr c)
      let ?q = "close_if (ev_close_io env k) q"
      have q: "pool_ok ?q \<and> pool_conns ?q + {#c#} = mset (pl_dialed ?q) \<and> pl_cap ?q = pl_cap p"
        using borrow_conn [OF Suc.prems(1), of k q c] b Inr pool_close_facts [of q]
        by (auto simp: close_if_def)
      obtain q' answer where i: "io k c ?q = (q', answer)" by (cases "io k c ?q")
      have q': "pool_ok q'" "pool_conns q' + {#c#} = mset (pl_dialed q')" "pl_cap q' = pl_cap p"
        using io_balanced [OF i] q by auto
      have closed: "pool_balanced (close_conn c ?q)" "pool_balanced (close_conn c q')" using q q' by (simp_all add: pool_balanced_def)
      have released: "pool_balanced (pool_release c q')" "pl_cap (pool_release c q') = pl_cap p"
        using q' pool_release_facts [of q' c] by (simp_all add: pool_balanced_def)
      show ?thesis
        using Suc.prems(2) None b Inr i closed released q q' Suc.IH [OF closed(2), of "Suc k"]
        by (auto simp: Let_def split: option.splits sum.splits)
    qed
  qed
qed simp

text \<open>On a closed upstream no exchange succeeds.\<close>

lemma exchange_closed:
  assumes "pool_balanced p" "pl_closed p" "exchange_attempts borrow io env n k lastError p = (p', r)"
  shows "\<exists>err. r = Inl err"
proof (cases n)
  case (Suc m)
  have "\<exists>q err. borrow k p = (q, Inl err)"
    using borrow_conn [OF assms(1), of k] assms(2) by (cases "borrow k p"; cases "snd (borrow k p)") auto
  with Suc assms(3) show ?thesis by (auto split: option.splits)
qed (use assms in auto)

end

lemma balanced_close_if: "pool_balanced p \<Longrightarrow> pool_balanced (close_if b p) \<and> pl_cap (close_if b p) = pl_cap p"
  using pool_close_facts [of p] by (auto simp: close_if_def pool_balanced_def)

lemma borrow_reuse_balanced:
  assumes "pool_balanced p" "pool_borrow p = Reuse c p'"
  shows "pool_ok p'" "pool_conns p' + {#c#} = mset (pl_dialed p')" "pl_cap p' = pl_cap p" "\<not> pl_closed p"
  using assms pool_borrow_Reuse [OF assms(2)]
  by (auto simp: pool_balanced_def) (auto simp: pool_borrow_def)

lemma dialled_facts [simp]:
  "pool_ok (dialled c p) = pool_ok p" "pool_conns (dialled c p) = pool_conns p"
  "pl_dialed (dialled c p) = c # pl_dialed p" "pl_closed (dialled c p) = pl_closed p"
  "pl_cap (dialled c p) = pl_cap p"
  by (simp_all add: dialled_def pool_ok_def pool_conns_def)

lemma close_if_closed: "pl_closed p \<Longrightarrow> pl_closed (close_if b p)"
  by (simp add: close_if_def pool_close_def)

lemma pool_borrow_open: "pool_borrow p \<noteq> PoolClosed \<longleftrightarrow> \<not> pl_closed p"
  by (auto simp: pool_borrow_def split: list.splits)

interpretation tcp: connection_pool "tcp_borrow tls env" "tcp_io env" for tls env
proof (unfold_locales, goal_cases)
  case (1 p k p' err)
  then show ?case
    using balanced_close_if [OF 1(1), of "ev_close_dial env k"] close_if_closed [of p]
    by (auto simp: tcp_borrow_def Let_def pool_balanced_def
        split: borrow_result.splits sum.splits option.splits if_splits)
next
  case (2 p k p' c)
  then show ?case
    using balanced_close_if [OF 2(1), of "ev_close_dial env k"] borrow_reuse_balanced [OF 2(1)]
      pool_borrow_open [of p]
    by (auto simp: tcp_borrow_def Let_def pool_balanced_def
        split: borrow_result.splits sum.splits option.splits if_splits)
next
  case (3 k c p p' r)
  then show ?case by (auto simp: tcp_io_def)
qed

text \<open>The fallback over TCP closes every connection that it dials.\<close>

lemma fallback_closed:
  assumes "tcp_exchange tls env (new_pool n) = (fallback, answer)"
  shows "mset (pl_dead (pool_close fallback)) = mset (pl_dialed (pool_close fallback))"
proof -
  have "pool_balanced (new_pool n)" by (simp add: pool_balanced_def) (simp add: new_pool_def)
  then have "pool_balanced fallback" using tcp.exchange_balanced assms unfolding tcp_exchange_def by blast
  then have "pool_conns (pool_close fallback) = mset (pl_dialed (pool_close fallback))" "pl_idle (pool_close fallback) = []"
    using pool_close_facts [of fallback] by (simp_all add: pool_balanced_def)
  then show ?thesis by (simp add: pool_conns_def)
qed

interpretation udp: connection_pool "udp_borrow env" "udp_io over_tcp env" for over_tcp env
proof (unfold_locales, goal_cases)
  case (1 p k p' err)
  then show ?case
    using balanced_close_if [OF 1(1), of "ev_close_dial env k"] close_if_closed [of p]
    by (auto simp: udp_borrow_def Let_def split: borrow_result.splits sum.splits)
next
  case (2 p k p' c)
  then show ?case
    using balanced_close_if [OF 2(1), of "ev_close_dial env k"] borrow_reuse_balanced [OF 2(1)]
      pool_borrow_open [of p]
    by (auto simp: udp_borrow_def Let_def pool_balanced_def split: borrow_result.splits sum.splits)
next
  case (3 k c p p' r)
  show ?case
  proof (cases "\<exists>response. ev_io env k c = Inr response \<and> truncated response = Some True")
    case True
    obtain fallback answer where "tcp_exchange False (over_tcp k) (new_pool 1) = (fallback, answer)" by fastforce
    then have "p' = recorded (pool_close fallback) p" "mset (pl_dead (pool_close fallback)) = mset (pl_dialed (pool_close fallback))"
      using 3 True fallback_closed by (auto simp: udp_io_def)
    then show ?thesis by (auto simp: recorded_def intro!: exI [of _ "mset (pl_dialed (pool_close fallback))"])
  next
    case False
    then have "p' = p" using 3 by (auto simp: udp_io_def split: sum.splits if_splits)
    then show ?thesis by simp
  qed
qed

section \<open>DNS over TCP framing\<close>

definition u16_bytes :: "u16 \<Rightarrow> bytes" where
  "u16_bytes v = [ucast (drop_bit 8 v), ucast v]"

definition tcp_frame :: "bytes \<Rightarrow> bytes" where
  "tcp_frame message = u16_bytes (of_nat (length message)) @ message"

text \<open>\<open>io.ReadFull\<close> of the header and then of the announced number of bytes.\<close>

definition read_frame :: "bytes \<Rightarrow> (bytes \<times> bytes) option" where
  "read_frame stream =
     (if length stream < 2 then None
      else let size = unat (the (u16_at stream 0)) in
        if length stream < 2 + size then None
        else Some (take size (drop 2 stream), drop (2 + size) stream))"

text \<open>\<open>writer k\<close> is the \<open>k\<close>-th call of \<open>Write\<close>; more bytes written than offered is the panic of the
  re-slicing. The result is what was written and the returned error.\<close>

function writeAll ::
  "(nat \<Rightarrow> bytes \<Rightarrow> nat \<times> go_error option) \<Rightarrow> nat \<Rightarrow> bytes \<Rightarrow> (bytes \<times> go_error option) go" where
  "writeAll writer k payload =
     (if payload = [] then Some ([], None)
      else case writer k payload of
        (n, Some err) \<Rightarrow> Some (take n payload, Some err)
      | (n, None) \<Rightarrow>
          if n = 0 then Some ([], Some ''unexpected EOF'')
          else if length payload < n then None
          else do {
            (sent, err) \<leftarrow> writeAll writer (Suc k) (drop n payload);
            Some (take n payload @ sent, err)
          })"
  by pat_completeness auto
termination
  by (relation "measure (\<lambda>(_, _, payload). length payload)") auto

declare writeAll.simps [simp del]

definition tcp_exchangeOnConnection ::
  "(nat \<Rightarrow> bytes \<Rightarrow> nat \<times> go_error option) \<Rightarrow> bytes \<Rightarrow> bytes \<Rightarrow> (go_error + bytes) go" where
  "tcp_exchangeOnConnection writer incoming query = do {
     (_, err) \<leftarrow> writeAll writer 0 (tcp_frame query);
     case err of
       Some e \<Rightarrow> Some (Inl e)
     | None \<Rightarrow> (case read_frame incoming of
         None \<Rightarrow> Some (Inl ''EOF'')
       | Some (response, _) \<Rightarrow> Some (Inr response))
   }"

definition exchange_deadline :: "nanos \<Rightarrow> nanos \<Rightarrow> nanos option \<Rightarrow> nanos" where
  "exchange_deadline now timeout contextDeadline =
     (case contextDeadline of
        Some d \<Rightarrow> if d < now + timeout then d else now + timeout
      | None \<Rightarrow> now + timeout)"

lemma writeAll_complete:
  "writeAll writer k payload = Some (sent, None) \<Longrightarrow> sent = payload"
proof (induction writer k payload arbitrary: sent rule: writeAll.induct)
  case (1 writer k payload)
  from 1(2) show ?case
    by (subst (asm) writeAll.simps)
      (auto split: if_splits prod.splits option.splits dest!: 1(1) [rotated -1])
qed

lemma writeAll_returns:
  assumes "\<And>k ps. fst (writer k ps) \<le> length ps"
  shows "writeAll writer k payload \<noteq> None"
proof (induction payload arbitrary: k rule: length_induct)
  case (1 payload)
  obtain n e where w: "writer k payload = (n, e)" by (cases "writer k payload")
  then have n: "n \<le> length payload" using assms [of k payload] by simp
  have "writeAll writer (Suc k) (drop n payload) \<noteq> None" if "payload \<noteq> []" "n \<noteq> 0"
    using 1 that by simp
  with w n show ?case by (subst writeAll.simps) (auto split: option.splits)
qed

lemma u16_bytes_join: "push_bit 8 (ucast (ucast (drop_bit 8 v) :: byte)) OR ucast (ucast v :: byte) = (v :: u16)"
  (is "?joined = v")
proof (rule bit_word_eqI)
  fix n assume "n < LENGTH(16)"
  then consider "n < 8" | "8 \<le> n \<and> n < 16" by fastforce
  then show "bit ?joined n = bit v n"
    by cases (auto simp: bit_simps)
qed

lemma read_frame_tcp_frame:
  assumes "length message < 2 ^ 16"
  shows "read_frame (tcp_frame message @ rest) = Some (message, rest)"
proof -
  have "u16_at (tcp_frame message @ rest) 0 = Some (of_nat (length message))"
    using u16_bytes_join [of "of_nat (length message)"]
    by (simp add: tcp_frame_def u16_bytes_def u16_at_def)
  moreover have "unat (of_nat (length message) :: u16) = length message"
    using assms by (simp add: unat_of_nat)
  ultimately show ?thesis
    by (simp add: read_frame_def tcp_frame_def u16_bytes_def)
qed

section \<open>DNS over HTTPS\<close>

text \<open>The errors that the retry and the replacement of a transport distinguish.\<close>

datatype doh_error =
    ErrEOF | ErrUnexpectedEOF | ErrEPIPE | ErrECONNRESET
  | ErrDeadlineExceeded | ErrNetTimeout | ErrCanceled | ErrOther string

definition dohConnectionClosed :: "doh_error \<Rightarrow> bool" where
  "dohConnectionClosed err \<longleftrightarrow> err \<in> {ErrEOF, ErrUnexpectedEOF, ErrEPIPE, ErrECONNRESET}"

text \<open>Transports are numbered generations. \<open>dh_drained\<close> records the calls of
  \<open>CloseIdleConnections\<close>, \<open>dh_next\<close> the next number.\<close>

record dohUpstream =
  dh_closed :: bool
  dh_transport :: nat
  dh_next :: nat
  dh_drained :: "nat list"

definition finishDoH :: "nat \<Rightarrow> doh_error option \<Rightarrow> dohUpstream \<Rightarrow> dohUpstream" where
  "finishDoH transport err u =
     (let failed = (case err of
            None \<Rightarrow> False
          | Some e \<Rightarrow> dohConnectionClosed e \<or> e = ErrDeadlineExceeded \<or> e = ErrNetTimeout);
          u = (if failed \<and> \<not> dh_closed u \<and> dh_transport u = transport
               then u\<lparr>dh_transport := dh_next u, dh_next := Suc (dh_next u)\<rparr> else u)
      in if dh_closed u \<or> dh_transport u \<noteq> transport
         then u\<lparr>dh_drained := transport # dh_drained u\<rparr> else u)"

text \<open>The answer to one request: a transport error, or a status, the parsed media type, what could
  be read of the body and the read error.\<close>

datatype http_outcome =
    HttpFailed doh_error
  | HttpAnswer int "string option" bytes "doh_error option"

definition accept_http :: "bytes \<Rightarrow> http_outcome \<Rightarrow> (doh_error + bytes) go" where
  "accept_http query outcome =
     (case outcome of
        HttpFailed err \<Rightarrow> Some (Inl err)
      | HttpAnswer status contentType body readError \<Rightarrow>
          if status \<noteq> 200 then Some (Inl (ErrOther ''DoH status''))
          else if contentType \<noteq> Some ''application/dns-message''
          then Some (Inl (ErrOther ''DoH response has unexpected content type''))
          else case readError of
            Some err \<Rightarrow> Some (Inl err)
          | None \<Rightarrow>
              if 65535 < length body then Some (Inl (ErrOther ''DoH response is too large''))
              else do {
                ok \<leftarrow> matchingQuestion query body;
                if ok then Some (Inr body) else Some (Inl (ErrOther ''DoH response question mismatch''))
              })"

definition result_error :: "'e + 'a \<Rightarrow> 'e option" where
  "result_error r = (case r of Inl e \<Rightarrow> Some e | Inr _ \<Rightarrow> None)"

text \<open>\<open>http k g\<close> is the outcome of the \<open>k\<close>-th request on generation \<open>g\<close>, \<open>others k\<close> what other requests do to
  the upstream meanwhile.\<close>

definition exchangeDoHOnce ::
  "(nat \<Rightarrow> nat \<Rightarrow> http_outcome) \<Rightarrow> (nat \<Rightarrow> dohUpstream \<Rightarrow> dohUpstream) \<Rightarrow> bytes \<Rightarrow> nat \<Rightarrow> dohUpstream \<Rightarrow>
   (dohUpstream \<times> (doh_error + bytes)) go" where
  "exchangeDoHOnce http others query k u =
     (if dh_closed u then Some (u, Inl ErrCanceled)
      else do {
        r \<leftarrow> accept_http query (http k (dh_transport u));
        Some (finishDoH (dh_transport u) (result_error r) (others k u), r)
      })"

definition exchangeDoH ::
  "(nat \<Rightarrow> nat \<Rightarrow> http_outcome) \<Rightarrow> (nat \<Rightarrow> dohUpstream \<Rightarrow> dohUpstream) \<Rightarrow> bool \<Rightarrow> bytes \<Rightarrow> dohUpstream \<Rightarrow>
   (dohUpstream \<times> (doh_error + bytes)) go" where
  "exchangeDoH http others expired query u = do {
     (u, r) \<leftarrow> exchangeDoHOnce http others query 0 u;
     case r of
       Inr response \<Rightarrow> Some (u, Inr response)
     | Inl err \<Rightarrow>
         if expired \<or> \<not> dohConnectionClosed err then Some (u, Inl err)
         else exchangeDoHOnce http others query 1 u
   }"

text \<open>The time for the primary request when there is a fall-back; \<open>remaining\<close> is the time to the
  deadline of the context. Go's division truncates towards zero.\<close>

definition doh_budget :: "nanos \<Rightarrow> nanos option \<Rightarrow> nanos" where
  "doh_budget timeout remaining =
     (case remaining of
        None \<Rightarrow> timeout
      | Some r \<Rightarrow> if timeout \<le> 0 \<or> r < timeout then r else timeout)"

definition primary_budget :: "nanos \<Rightarrow> nanos" where
  "primary_budget budget = budget - budget div 3"

text \<open>\<open>fallback\<close> is the outcome of the fall-back exchange, when the upstream has one; \<open>ctx\<close> the
  errors of the context at the start and after the primary request.\<close>

definition doh_exchange ::
  "(nat \<Rightarrow> nat \<Rightarrow> http_outcome) \<Rightarrow> (nat \<Rightarrow> dohUpstream \<Rightarrow> dohUpstream) \<Rightarrow> bool \<Rightarrow>
   doh_error option \<times> doh_error option \<Rightarrow> (doh_error + bytes) option \<Rightarrow> bytes \<Rightarrow> dohUpstream \<Rightarrow>
   (dohUpstream \<times> (doh_error list + bytes)) go" where
  "doh_exchange http others expired ctx fallback query u =
     (case fst ctx of
        Some err \<Rightarrow> Some (u, Inl [err])
      | None \<Rightarrow>
          if dh_closed u then Some (u, Inl [ErrCanceled])
          else do {
            (u, r) \<leftarrow> exchangeDoH http others expired query u;
            case r of
              Inr response \<Rightarrow> Some (u, Inr response)
            | Inl err \<Rightarrow>
                (case fallback of
                   None \<Rightarrow> Some (u, Inl [err])
                 | Some f \<Rightarrow>
                     (case snd ctx of
                        Some e \<Rightarrow> Some (u, Inl [e])
                      | None \<Rightarrow> (case f of
                          Inl e \<Rightarrow> Some (u, Inl [err, e])
                        | Inr response \<Rightarrow> Some (u, Inr response))))
          })"

definition doh_close :: "dohUpstream \<Rightarrow> dohUpstream" where
  "doh_close u = u\<lparr>dh_closed := True, dh_drained := dh_transport u # dh_drained u\<rparr>"

definition doh_ok :: "dohUpstream \<Rightarrow> bool" where
  "doh_ok u \<longleftrightarrow> dh_transport u < dh_next u"

lemma accept_http_total: "\<exists>r. accept_http query outcome = Some r"
proof (cases outcome)
  case (HttpAnswer status contentType body readError)
  obtain ok where "matchingQuestion query body = Some ok" using matchingQuestion_total by blast
  with HttpAnswer show ?thesis by (cases ok) (auto simp: accept_http_def split: option.splits)
qed (simp add: accept_http_def)

lemma accept_http_Inr:
  "accept_http query outcome = Some (Inr body) \<Longrightarrow>
     length body \<le> 65535 \<and> matchingQuestion query body = Some True \<and>
     outcome = HttpAnswer 200 (Some ''application/dns-message'') body None"
  by (auto simp: accept_http_def split: http_outcome.splits if_splits option.splits)

lemma finishDoH_facts:
  assumes "doh_ok u" "transport < dh_next u"
  shows "doh_ok (finishDoH transport err u)" "dh_closed (finishDoH transport err u) = dh_closed u"
    "dh_next u \<le> dh_next (finishDoH transport err u)"
    "dh_transport (finishDoH transport err u) = transport \<or> dh_closed u \<Longrightarrow>
       dh_transport (finishDoH transport err u) = dh_transport u"
  using assms by (auto simp: doh_ok_def finishDoH_def Let_def)

lemma finishDoH_replaces:
  assumes "\<not> dh_closed u" "transport < dh_next u" "doh_ok u"
    "dohConnectionClosed e \<or> e = ErrDeadlineExceeded \<or> e = ErrNetTimeout"
  shows "dh_transport (finishDoH transport (Some e) u) \<noteq> transport \<and>
    transport \<in> set (dh_drained (finishDoH transport (Some e) u))"
  using assms by (auto simp: finishDoH_def Let_def doh_ok_def)

lemma exchangeDoHOnce_total: "\<exists>u' r. exchangeDoHOnce http others query k u = Some (u', r)"
  using accept_http_total [of query "http k (dh_transport u)"] by (auto simp: exchangeDoHOnce_def)

section \<open>Properties\<close>

text \<open>Upstreams that are not configured as plain UDP are encrypted on every hop: whatever tunnel,
  port, path and fall-back are configured, a TLS or HTTPS upstream that is accepted authenticates a
  configured server name, and so does the fall-back of an HTTPS upstream; an unknown type is
  refused.\<close>

theorem non_udp_upstreams_are_encrypted:
  assumes "newUpstream config timeout = Inr u" and "sc_Type config \<noteq> ''udp''"
  shows "encrypted_upstream u \<and> sc_Type config \<in> {''tls'', ''https''} \<and> sc_ServerName config \<noteq> []"
  using newUpstream_encrypted [OF assms] assms
  by (auto simp: newUpstream_def newTCPUpstream_def newDoHUpstream_def Let_def split: if_splits)

definition example_server :: serverConfig where
  "example_server = \<lparr>sc_Type = ''https'', sc_Server = ''192.0.2.1'', sc_ServerPort = 0, sc_Path = [],
     sc_ServerName = ''dns.example'', sc_TunnelHost = ''127.0.0.1'', sc_TunnelPort = 4443, sc_Detour = [],
     sc_DoTFallback = True\<rparr>"

theorem non_udp_upstreams_are_encrypted_witness:
  "\<exists>u. newUpstream example_server (5 * second) = Inr u \<and> encrypted_upstream u"
proof -
  obtain u where u: "newUpstream example_server (5 * second) = Inr u"
    by (simp add: newUpstream_def newDoHUpstream_def newTCPUpstream_def example_server_def)
  then show ?thesis
    using non_udp_upstreams_are_encrypted [OF u] by (simp add: example_server_def)
qed

text \<open>C30: Exchanges lose no connection: starting from a pool in which every dialled connection is
  idle or closed, an exchange over UDP or TCP, with any outcomes of dialling, handshake and
  transfer, with cancellation at any point and with the upstream closed by another goroutine in
  between, ends with every connection idle or closed again and with at most the capacity idle; the
  connections that a truncated UDP answer opens over TCP are among them. On a closed upstream it returns an error.\<close>

theorem exchange_loses_no_connection:
  assumes "pool_balanced p"
    and "udp_exchange over_tcp env p = (p', r)" and "tcp_exchange tls env p = (p'', r')"
  shows "pool_balanced p' \<and> pl_cap p' = pl_cap p \<and> pool_balanced p'' \<and> pl_cap p'' = pl_cap p \<and>
    (pl_closed p \<longrightarrow> (\<exists>e e'. r = Inl e \<and> r' = Inl e'))"
  using udp.exchange_balanced [OF assms(1) assms(2) [unfolded udp_exchange_def]]
    udp.exchange_closed [OF assms(1) _ assms(2) [unfolded udp_exchange_def]]
    tcp.exchange_balanced [OF assms(1) assms(3) [unfolded tcp_exchange_def]]
    tcp.exchange_closed [OF assms(1) _ assms(3) [unfolded tcp_exchange_def]]
  by blast

definition flaky_env :: exchange_env where
  "flaky_env = \<lparr>ev_ctx = (\<lambda>_. None), ev_dial = (\<lambda>k. Inr (10 + k)), ev_tls = (\<lambda>_. None),
     ev_close_dial = (\<lambda>_. False), ev_close_io = (\<lambda>_. False),
     ev_io = (\<lambda>k _. if k = 0 then Inl ''reset'' else Inr [0, 7, 2, 0]), ev_ctx_after = (\<lambda>_. None)\<rparr>"

text \<open>The second answer is truncated, and the exchange over TCP dials connection 20.\<close>

definition fallback_env :: exchange_env where
  "fallback_env = flaky_env\<lparr>ev_dial := (\<lambda>k. Inr (20 + k)), ev_io := (\<lambda>_ _. Inr [1, 2, 3])\<rparr>"

theorem exchange_loses_no_connection_witness:
  "udp_exchange (\<lambda>_. fallback_env) flaky_env (new_pool 4) =
     (\<lparr>pl_idle = [11], pl_cap = 4, pl_closed = False, pl_dead = [20, 10], pl_dialed = [20, 11, 10]\<rparr>, Inr [1, 2, 3]) \<and>
   pool_balanced \<lparr>pl_idle = [11], pl_cap = 4, pl_closed = False, pl_dead = [20, 10], pl_dialed = [20, 11, 10]\<rparr>"
proof -
  let ?p = "\<lparr>pl_idle = [11], pl_cap = 4, pl_closed = False, pl_dead = [20, 10], pl_dialed = [20, 11, 10]\<rparr>"
  let ?q = "\<lparr>pl_idle = [11], pl_cap = 4, pl_closed = False, pl_dead = [10], pl_dialed = [11, 10]\<rparr>"
  have u: "udp_exchange (\<lambda>_. fallback_env) flaky_env (new_pool 4) = (?p, Inr [1, 2, 3])" by code_simp
  have t: "tcp_exchange True flaky_env (new_pool 4) = (?q, Inr [0, 7, 2, 0])" by code_simp
  have "pool_balanced (new_pool 4)" by (simp add: pool_balanced_def) (simp add: new_pool_def)
  from exchange_loses_no_connection [OF this u t] u show ?thesis by simp
qed

text \<open>C31: A message of at most 65535 bytes survives DNS over TCP framing: with a writer that makes
  progress and does not fail, the exchange writes the framed query completely and returns
  exactly the message that the peer framed, whatever follows it on the stream.\<close>

theorem tcp_framing_round_trip:
  assumes "length response < 2 ^ 16"
    and "\<forall>k ps. ps \<noteq> [] \<longrightarrow> (\<exists>n. writer k ps = (n, None) \<and> 0 < n \<and> n \<le> length ps)"
  shows "writeAll writer 0 (tcp_frame query) = Some (tcp_frame query, None) \<and>
    tcp_exchangeOnConnection writer (tcp_frame response @ rest) query = Some (Inr response)"
proof -
  have "writeAll writer k ps = Some (ps, None)" for k ps
  proof (induction ps arbitrary: k rule: length_induct)
    case (1 ps)
    show ?case
    proof (cases "ps = []")
      case False
      then obtain n where n: "writer k ps = (n, None)" "0 < n" "n \<le> length ps" using assms(2) by blast
      with False 1 have "writeAll writer (Suc k) (drop n ps) = Some (drop n ps, None)" by simp
      with False n show ?thesis by (subst writeAll.simps) simp
    qed (simp add: writeAll.simps)
  qed
  then show ?thesis
    using read_frame_tcp_frame [OF assms(1)] by (simp add: tcp_exchangeOnConnection_def)
qed

theorem tcp_framing_round_trip_witness:
  "tcp_exchangeOnConnection (\<lambda>k ps. (1, None)) (tcp_frame [7, 8] @ [9]) [1, 2, 3] = Some (Inr [7, 8])"
  using tcp_framing_round_trip [of "[7, 8]" "\<lambda>k ps. (1, None)" "[1, 2, 3]" "[9]"]
  by (simp add: Suc_le_eq)

text \<open>DNS over HTTPS answers and failures: an HTTPS exchange never panics; a body it returns came
  with status 200 and the DNS media type, has at most 65535 bytes and answers the question of the
  query; and when the exchange fails because the connection closed or timed out on an open
  upstream, later requests use a new transport and the old one's idle connections are closed.\<close>

theorem doh_once_sound:
  assumes "doh_ok u" and "\<forall>v. doh_ok v \<longrightarrow> doh_ok (others k v) \<and> dh_next v \<le> dh_next (others k v)"
  shows "\<exists>u' r. exchangeDoHOnce http others query k u = Some (u', r) \<and> doh_ok u' \<and>
    (\<forall>body. r = Inr body \<longrightarrow> length body \<le> 65535 \<and> matchingQuestion query body = Some True \<and>
       http k (dh_transport u) = HttpAnswer 200 (Some ''application/dns-message'') body None) \<and>
    (\<forall>e. r = Inl e \<longrightarrow> dohConnectionClosed e \<or> e = ErrDeadlineExceeded \<or> e = ErrNetTimeout \<longrightarrow>
       \<not> dh_closed u' \<longrightarrow> dh_transport u' \<noteq> dh_transport u \<and> dh_transport u \<in> set (dh_drained u'))"
proof (cases "dh_closed u")
  case True
  then show ?thesis using assms(1) by (simp add: exchangeDoHOnce_def dohConnectionClosed_def)
next
  case False
  obtain r where r: "accept_http query (http k (dh_transport u)) = Some r" using accept_http_total by blast
  let ?v = "others k u"
  let ?u = "finishDoH (dh_transport u) (result_error r) ?v"
  have v: "doh_ok ?v" "dh_transport u < dh_next ?v" using assms by (auto simp: doh_ok_def)
  have "exchangeDoHOnce http others query k u = Some (?u, r)" using False r by (simp add: exchangeDoHOnce_def)
  moreover have "doh_ok ?u" and closed: "dh_closed ?u = dh_closed ?v" using finishDoH_facts [OF v] by simp_all
  moreover have "dh_transport ?u \<noteq> dh_transport u \<and> dh_transport u \<in> set (dh_drained ?u)"
    if "r = Inl e" "dohConnectionClosed e \<or> e = ErrDeadlineExceeded \<or> e = ErrNetTimeout" "\<not> dh_closed ?u" for e
    using finishDoH_replaces [OF _ v(2,1) that(2)] that closed by (simp add: result_error_def)
  ultimately show ?thesis using r accept_http_Inr [of query "http k (dh_transport u)"] by blast
qed

theorem doh_once_sound_witness:
  "\<exists>u' r. exchangeDoHOnce (\<lambda>_ _. HttpFailed ErrEOF) (\<lambda>_ v. v) [] 0
     \<lparr>dh_closed = False, dh_transport = 0, dh_next = 1, dh_drained = []\<rparr> = Some (u', r) \<and>
     r = Inl ErrEOF \<and> dh_transport u' \<noteq> 0"
  using doh_once_sound [of "\<lparr>dh_closed = False, dh_transport = 0, dh_next = 1, dh_drained = []\<rparr>"
      "\<lambda>_ v. v" 0 "\<lambda>_ _. HttpFailed ErrEOF" "[]"]
  by (auto simp: doh_ok_def exchangeDoHOnce_def accept_http_def result_error_def finishDoH_def
      dohConnectionClosed_def)

end
