(* ===== verification/Dns_Flights.thy ===== *)
theory Dns_Flights
  imports Gateway_Prelude "HOL-Library.Multiset"
begin

text \<open>
  Single flights, \<^verbatim>\<open>flightGroup\<close> of \<^verbatim>\<open>internal/policydns/cache.go\<close>: equal queries in progress share
  one upstream exchange. A flight is an object behind a pointer; \<open>fg_heap\<close> holds the objects,
  \<open>fg_flights\<close> is the map from keys to pointers. Goroutines interleave between the
  operations, each of which holds the mutex of the group; \<open>group_step\<close> is that interleaving, with
  one client for every successful \<open>begin\<close>.
\<close>

section \<open>State and operations\<close>

datatype flight_outcome = Answered bytes | Failed string

record flight =
  fl_done :: bool
  fl_outcome :: "flight_outcome option"
  fl_waiters :: int

type_synonym flight_ref = nat

record flightGroup =
  fg_flights :: "string \<rightharpoonup> flight_ref"
  fg_heap :: "flight_ref \<rightharpoonup> flight"
  fg_next :: flight_ref

definition new_group :: flightGroup where
  "new_group = \<lparr>fg_flights = Map.empty, fg_heap = Map.empty, fg_next = 0\<rparr>"

text \<open>\<open>begin\<close>: the flight and whether the caller owns it; \<open>None\<close> inside is the refusal when the
  flight already has \<open>maximum\<close> waiters.\<close>

definition flight_begin ::
  "flightGroup \<Rightarrow> string \<Rightarrow> int \<Rightarrow> (flightGroup \<times> (flight_ref \<times> bool) option) go" where
  "flight_begin g key maximum =
     (case fg_flights g key of
        Some a \<Rightarrow> do {
          f \<leftarrow> fg_heap g a;
          if 0 < maximum \<and> maximum \<le> fl_waiters f then Some (g, None)
          else Some (g\<lparr>fg_heap := (fg_heap g)(a \<mapsto> f\<lparr>fl_waiters := fl_waiters f + 1\<rparr>)\<rparr>, Some (a, False))
        }
      | None \<Rightarrow>
          let a = fg_next g in
          Some (g\<lparr>fg_heap := (fg_heap g)(a \<mapsto> \<lparr>fl_done = False, fl_outcome = None, fl_waiters = 1\<rparr>),
                  fg_flights := (fg_flights g)(key \<mapsto> a), fg_next := Suc a\<rparr>, Some (a, True)))"

definition flight_leave :: "flightGroup \<Rightarrow> flight_ref \<Rightarrow> flightGroup go" where
  "flight_leave g a = do {
     f \<leftarrow> fg_heap g a;
     Some (g\<lparr>fg_heap := (fg_heap g)(a \<mapsto> f\<lparr>fl_waiters := fl_waiters f - 1\<rparr>)\<rparr>)
   }"

text \<open>\<open>finish\<close> closes \<open>done\<close>; closing a closed channel panics.\<close>

definition flight_finish :: "flightGroup \<Rightarrow> string \<Rightarrow> flight_ref \<Rightarrow> flight_outcome \<Rightarrow> flightGroup go" where
  "flight_finish g key a outcome = do {
     f \<leftarrow> fg_heap g a;
     if fl_done f then None
     else Some (g\<lparr>fg_heap := (fg_heap g)(a \<mapsto> f\<lparr>fl_done := True, fl_outcome := Some outcome\<rparr>),
                  fg_flights := (fg_flights g)(key := None)\<rparr>)
   }"

text \<open>\<open>wait\<close> once one of its two channels is ready: the context error, or the outcome of the
  flight; \<open>None\<close> while neither is.\<close>

definition flight_wait :: "flightGroup \<Rightarrow> flight_ref \<Rightarrow> string option \<Rightarrow> flight_outcome go" where
  "flight_wait g a cancelled =
     (case cancelled of
        Some err \<Rightarrow> Some (Failed err)
      | None \<Rightarrow> do { f \<leftarrow> fg_heap g a; if fl_done f then fl_outcome f else None })"

section \<open>Interleaving\<close>

text \<open>A client is a goroutine between its \<open>begin\<close> and its \<open>leave\<close>: the key, the flight, whether it
  still has to finish it. The owner of a flight finishes it before it leaves.\<close>

record client =
  cl_key :: string
  cl_flight :: flight_ref
  cl_must_finish :: bool

record group_state =
  gs_group :: flightGroup
  gs_clients :: "client list"

inductive group_step :: "group_state \<Rightarrow> group_state \<Rightarrow> bool" where
  step_begin: "flight_begin (gs_group s) key maximum = Some (g, Some (a, owner)) \<Longrightarrow>
    group_step s \<lparr>gs_group = g,
      gs_clients = \<lparr>cl_key = key, cl_flight = a, cl_must_finish = owner\<rparr> # gs_clients s\<rparr>"
| step_refused: "flight_begin (gs_group s) key maximum = Some (g, None) \<Longrightarrow>
    group_step s (s\<lparr>gs_group := g\<rparr>)"
| step_finish: "gs_clients s = xs @ c # ys \<Longrightarrow> cl_must_finish c \<Longrightarrow>
    flight_finish (gs_group s) (cl_key c) (cl_flight c) outcome = Some g \<Longrightarrow>
    group_step s \<lparr>gs_group = g, gs_clients = xs @ c\<lparr>cl_must_finish := False\<rparr> # ys\<rparr>"
| step_leave: "gs_clients s = xs @ c # ys \<Longrightarrow> \<not> cl_must_finish c \<Longrightarrow>
    flight_leave (gs_group s) (cl_flight c) = Some g \<Longrightarrow>
    group_step s \<lparr>gs_group = g, gs_clients = xs @ ys\<rparr>"

inductive group_reach :: "group_state \<Rightarrow> bool" where
  group_init: "group_reach \<lparr>gs_group = new_group, gs_clients = []\<rparr>"
| group_next: "group_reach s \<Longrightarrow> group_step s s' \<Longrightarrow> group_reach s'"

inductive_cases group_stepE: "group_step s s'"

section \<open>Invariant\<close>

definition waiting :: "client list \<Rightarrow> flight_ref \<Rightarrow> int" where
  "waiting cs a = int (length (filter (\<lambda>c. cl_flight c = a) cs))"

definition owned :: "client list \<Rightarrow> client list" where
  "owned cs = filter cl_must_finish cs"

text \<open>Waiters are counted, every client refers to a flight, the registered flights are exactly the
  unfinished ones, and each of those has exactly one client that has to finish it.\<close>

definition group_ok :: "flightGroup \<Rightarrow> client list \<Rightarrow> bool" where
  "group_ok g cs \<longleftrightarrow>
     (\<forall>a f. fg_heap g a = Some f \<longrightarrow>
        a < fg_next g \<and> fl_waiters f = waiting cs a \<and> (fl_done f \<longleftrightarrow> fl_outcome f \<noteq> None)) \<and>
     (\<forall>c \<in> set cs. cl_flight c \<in> dom (fg_heap g)) \<and>
     (\<forall>c \<in> set (owned cs). fg_flights g (cl_key c) = Some (cl_flight c)) \<and>
     (\<forall>key a. fg_flights g key = Some a \<longrightarrow> (\<exists>c \<in> set (owned cs). cl_key c = key \<and> cl_flight c = a)) \<and>
     (\<forall>a f. fg_heap g a = Some f \<longrightarrow> (\<not> fl_done f \<longleftrightarrow> a \<in> cl_flight ` set (owned cs))) \<and>
     distinct (map cl_flight (owned cs))"

lemma waiting_simps [simp]:
  "waiting [] a = 0"
  "waiting (c # cs) a = (if cl_flight c = a then 1 else 0) + waiting cs a"
  "waiting (cs @ ds) a = waiting cs a + waiting ds a"
  by (simp_all add: waiting_def)

lemma waiting_nonneg: "0 \<le> waiting cs a"
  by (simp add: waiting_def)

lemma owned_simps [simp]:
  "owned [] = []" "owned (c # cs) = (if cl_must_finish c then c # owned cs else owned cs)"
  "owned (cs @ ds) = owned cs @ owned ds"
  by (simp_all add: owned_def)

lemma owned_subset: "set (owned cs) \<subseteq> set cs"
  by (auto simp: owned_def)

lemma group_okD:
  assumes "group_ok g cs"
  shows "fg_heap g a = Some f \<Longrightarrow> fl_waiters f = waiting cs a"
    and "c \<in> set cs \<Longrightarrow> \<exists>f. fg_heap g (cl_flight c) = Some f"
    and "c \<in> set (owned cs) \<Longrightarrow> fg_flights g (cl_key c) = Some (cl_flight c)"
    and "fg_flights g key = Some a \<Longrightarrow> \<exists>c \<in> set (owned cs). cl_key c = key \<and> cl_flight c = a"
    and "fg_heap g a = Some f \<Longrightarrow> \<not> fl_done f \<longleftrightarrow> a \<in> cl_flight ` set (owned cs)"
    and "c \<in> set (owned cs) \<Longrightarrow> d \<in> set (owned cs) \<Longrightarrow> cl_flight c = cl_flight d \<Longrightarrow> c = d"
  using assms unfolding group_ok_def by (blast, blast, blast, blast, blast, simp add: distinct_map inj_on_def)

lemma group_ok_init: "group_ok new_group []"
  by (simp add: group_ok_def new_group_def)

lemma group_ok_begin:
  assumes ok: "group_ok g cs" and b: "flight_begin g key maximum = Some (g', Some (a, owner))"
  shows "group_ok g' (\<lparr>cl_key = key, cl_flight = a, cl_must_finish = owner\<rparr> # cs)"
proof (cases "fg_flights g key")
  case None
  then have g': "g' = g\<lparr>fg_heap := (fg_heap g)(fg_next g \<mapsto> \<lparr>fl_done = False, fl_outcome = None, fl_waiters = 1\<rparr>),
      fg_flights := (fg_flights g)(key \<mapsto> fg_next g), fg_next := Suc (fg_next g)\<rparr>" "a = fg_next g" owner
    using b by (auto simp: flight_begin_def Let_def)
  have fresh: "fg_next g \<notin> dom (fg_heap g)" using ok by (auto simp: group_ok_def)
  then have new: "fg_next g \<notin> cl_flight ` set cs" using ok by (auto simp: group_ok_def)
  then have none: "waiting cs (fg_next g) = 0" by (auto simp: waiting_def filter_empty_conv image_iff)
  have key: "\<forall>c \<in> set (owned cs). cl_key c \<noteq> key" using ok None by (auto simp: group_ok_def)
  show ?thesis
    using ok fresh new none key owned_subset [of cs] unfolding group_ok_def g'(1) g'(2)
    by (auto simp: g'(3) less_SucI)
next
  case (Some b')
  then obtain f where f: "fg_heap g b' = Some f" "a = b'" "\<not> owner"
      "g' = g\<lparr>fg_heap := (fg_heap g)(b' \<mapsto> f\<lparr>fl_waiters := fl_waiters f + 1\<rparr>)\<rparr>"
    using b by (auto simp: flight_begin_def split: if_splits)
  then show ?thesis using ok unfolding group_ok_def by auto
qed

lemma group_ok_refused:
  "flight_begin g key maximum = Some (g', None) \<Longrightarrow> g' = g"
  by (auto simp: flight_begin_def Let_def split: option.splits if_splits)

lemma group_ok_finish:
  assumes ok: "group_ok g (xs @ c # ys)" and c: "cl_must_finish c"
    and fin: "flight_finish g (cl_key c) (cl_flight c) outcome = Some g'"
  shows "group_ok g' (xs @ c\<lparr>cl_must_finish := False\<rparr> # ys)"
proof -
  obtain f where f: "fg_heap g (cl_flight c) = Some f" "\<not> fl_done f"
    and g': "g' = g\<lparr>fg_heap := (fg_heap g)(cl_flight c \<mapsto> f\<lparr>fl_done := True, fl_outcome := Some outcome\<rparr>),
                  fg_flights := (fg_flights g)(cl_key c := None)\<rparr>"
    using fin by (auto simp: flight_finish_def split: if_splits)
  have other: "cl_flight d \<noteq> cl_flight c \<and> cl_key d \<noteq> cl_key c" if "d \<in> set (owned (xs @ ys))" for d
  proof -
    have "cl_flight c \<notin> cl_flight ` set (owned (xs @ ys))" using ok c by (auto simp: group_ok_def)
    then have "cl_flight d \<noteq> cl_flight c" using that by (metis imageI)
    moreover have "fg_flights g (cl_key d) = Some (cl_flight d)" "fg_flights g (cl_key c) = Some (cl_flight c)"
      using ok that c by (auto simp: group_ok_def)
    ultimately show ?thesis by auto
  qed
  have w: "waiting (xs @ c\<lparr>cl_must_finish := False\<rparr> # ys) a = waiting (xs @ c # ys) a" for a by simp
  show ?thesis
    unfolding group_ok_def w g'
  proof (intro conjI allI impI ballI, goal_cases)
    case (4 d)
    then show ?case using ok by (auto simp: group_ok_def)
  next
    case (5 d)
    then show ?case using ok c other [of d] by (auto simp: group_ok_def)
  next
    case (6 key a)
    then have key: "key \<noteq> cl_key c" "fg_flights g key = Some a" by (auto split: if_splits)
    then obtain d where "d \<in> set (owned (xs @ c # ys))" "cl_key d = key" "cl_flight d = a"
      using group_okD(4) [OF ok] by blast
    with key c show ?case by auto
  next
    case (7 a h)
    then show ?case
    proof (cases "a = cl_flight c")
      case True
      moreover have "cl_flight c \<notin> cl_flight ` set (owned (xs @ ys))" using other by (metis imageE)
      ultimately show ?thesis using 7 by auto
    next
      case False
      then show ?thesis using 7 group_okD(5) [OF ok, of a h] c by auto
    qed
  qed (use ok c f in \<open>auto simp: group_ok_def split: if_splits\<close>)
qed

lemma group_ok_leave:
  assumes ok: "group_ok g (xs @ c # ys)" and c: "\<not> cl_must_finish c"
    and l: "flight_leave g (cl_flight c) = Some g'"
  shows "group_ok g' (xs @ ys)"
proof -
  obtain f where "fg_heap g (cl_flight c) = Some f"
    "g' = g\<lparr>fg_heap := (fg_heap g)(cl_flight c \<mapsto> f\<lparr>fl_waiters := fl_waiters f - 1\<rparr>)\<rparr>"
    using l by (auto simp: flight_leave_def)
  with ok c show ?thesis unfolding group_ok_def by auto
qed

lemma group_reach_ok: "group_reach s \<Longrightarrow> group_ok (gs_group s) (gs_clients s)"
proof (induction rule: group_reach.induct)
  case group_init
  show ?case by (simp add: group_ok_init)
next
  case (group_next s s')
  from group_next(2) show ?case
    by (cases rule: group_stepE)
      (use group_next(3) in \<open>auto dest: group_ok_begin group_ok_refused group_ok_finish group_ok_leave\<close>)
qed

text \<open>A finished flight never changes its outcome, and it stays finished.\<close>

lemma group_step_outcome:
  assumes "group_reach s" "group_step s s'" "fg_heap (gs_group s) a = Some f" "fl_done f"
  shows "\<exists>f'. fg_heap (gs_group s') a = Some f' \<and> fl_done f' \<and> fl_outcome f' = fl_outcome f"
proof -
  have "a \<noteq> fg_next (gs_group s)" using group_reach_ok [OF assms(1)] assms(3) by (auto simp: group_ok_def)
  with assms(2-4) show ?thesis
    by (cases rule: group_stepE)
      (auto simp: flight_begin_def flight_finish_def flight_leave_def Let_def
        split: option.splits if_splits)
qed

section \<open>Properties\<close>

text \<open>C28: Equal queries share one exchange: in every interleaving of \<open>begin\<close>, \<open>finish\<close> and \<open>leave\<close> by
  any number of clients, an unfinished flight is registered under exactly one key and has exactly
  one client that will finish it, a registered flight is unfinished, the waiter count of every
  flight is the number of clients that have not left it, and neither \<open>finish\<close> (which must not close
  a closed channel) nor \<open>leave\<close> can panic.\<close>

theorem flights_are_shared_and_counted:
  assumes "group_reach s"
  shows "(\<forall>key a. fg_flights (gs_group s) key = Some a \<longrightarrow>
      (\<exists>f. fg_heap (gs_group s) a = Some f \<and> \<not> fl_done f) \<and>
      (\<exists>!c. c \<in> set (gs_clients s) \<and> cl_must_finish c \<and> cl_flight c = a)) \<and>
    (\<forall>a f. fg_heap (gs_group s) a = Some f \<longrightarrow> fl_waiters f = waiting (gs_clients s) a \<and>
      (\<not> fl_done f \<longrightarrow> (\<exists>!key. fg_flights (gs_group s) key = Some a))) \<and>
    (\<forall>c \<in> set (gs_clients s). flight_leave (gs_group s) (cl_flight c) \<noteq> None \<and>
      (cl_must_finish c \<longrightarrow> flight_finish (gs_group s) (cl_key c) (cl_flight c) outcome \<noteq> None))"
proof -
  let ?g = "gs_group s" and ?cs = "gs_clients s"
  have ok: "group_ok ?g ?cs" by (rule group_reach_ok [OF assms])
  have in_owned: "c \<in> set (owned ?cs) \<longleftrightarrow> c \<in> set ?cs \<and> cl_must_finish c" for c by (simp add: owned_def)
  have registered: "\<exists>f c. fg_heap ?g a = Some f \<and> \<not> fl_done f \<and> c \<in> set (owned ?cs) \<and> cl_flight c = a \<and> cl_key c = key"
    if key: "fg_flights ?g key = Some a" for key a
  proof -
    obtain c where c: "c \<in> set (owned ?cs)" "cl_key c = key" "cl_flight c = a"
      using group_okD(4) [OF ok key] by blast
    then obtain f where f: "fg_heap ?g a = Some f" using group_okD(2) [OF ok, of c] in_owned by blast
    with c have "\<not> fl_done f" using group_okD(5) [OF ok f] by blast
    with c f show ?thesis by blast
  qed
  have one: "(\<exists>!c. c \<in> set ?cs \<and> cl_must_finish c \<and> cl_flight c = a)" if "fg_flights ?g key = Some a" for key a
    using registered [OF that] group_okD(6) [OF ok] in_owned by metis
  have unfinished: "\<exists>!key. fg_flights ?g key = Some a" if f: "fg_heap ?g a = Some f" and nd: "\<not> fl_done f" for a f
  proof -
    obtain c where c: "c \<in> set (owned ?cs)" "cl_flight c = a" using group_okD(5) [OF ok f] nd by blast
    then have "fg_flights ?g (cl_key c) = Some a" using group_okD(3) [OF ok c(1)] by simp
    moreover have "key = cl_key c" if "fg_flights ?g key = Some a" for key
      using registered [OF that] group_okD(6) [OF ok] c by metis
    ultimately show ?thesis by blast
  qed
  have live: "\<exists>f. fg_heap ?g (cl_flight c) = Some f \<and> (cl_must_finish c \<longrightarrow> \<not> fl_done f)" if "c \<in> set ?cs" for c
    using group_okD(2) [OF ok that] group_okD(5) [OF ok] in_owned [of c] that by blast
  have "flight_leave ?g (cl_flight c) \<noteq> None \<and>
      (cl_must_finish c \<longrightarrow> flight_finish ?g (cl_key c) (cl_flight c) outcome \<noteq> None)" if "c \<in> set ?cs" for c
    using live [OF that] by (auto simp: flight_leave_def flight_finish_def)
  moreover have "fl_waiters f = waiting ?cs a" if "fg_heap ?g a = Some f" for a f
    by (rule group_okD(1) [OF ok that])
  ultimately show ?thesis using registered one unfinished by blast
qed

theorem flights_are_shared_and_counted_witness:
  "\<exists>s c. group_reach s \<and> gs_clients s = [c] \<and> cl_must_finish c \<and>
     flight_leave (gs_group s) (cl_flight c) \<noteq> None \<and>
     flight_finish (gs_group s) (cl_key c) (cl_flight c) (Failed ''x'') \<noteq> None"
proof -
  let ?s = "\<lparr>gs_group = new_group, gs_clients = []\<rparr>"
  obtain g a where "flight_begin new_group ''k'' 2 = Some (g, Some (a, True))"
    by (simp add: flight_begin_def new_group_def)
  then have "group_step ?s \<lparr>gs_group = g, gs_clients = [\<lparr>cl_key = ''k'', cl_flight = a, cl_must_finish = True\<rparr>]\<rparr>"
    using step_begin [of ?s] by simp
  then have reach: "group_reach \<lparr>gs_group = g, gs_clients = [\<lparr>cl_key = ''k'', cl_flight = a, cl_must_finish = True\<rparr>]\<rparr>"
    using group_next group_init by blast
  show ?thesis
    using flights_are_shared_and_counted [OF reach, of "Failed ''x''"] reach
    by (intro exI [of _ "\<lparr>gs_group = g, gs_clients = [\<lparr>cl_key = ''k'', cl_flight = a, cl_must_finish = True\<rparr>]\<rparr>"]
        exI [of _ "\<lparr>cl_key = ''k'', cl_flight = a, cl_must_finish = True\<rparr>"]) simp
qed

text \<open>C29: All waiters of a flight get the outcome its owner gave: after \<open>finish\<close> the outcome of the
  flight is fixed, so at any later point of any interleaving a waiter that is not cancelled
  receives exactly that outcome.\<close>

theorem waiters_get_owner_outcome:
  assumes "group_reach s" and "gs_clients s = xs @ c # ys" and "cl_must_finish c"
    and "flight_finish (gs_group s) (cl_key c) (cl_flight c) outcome = Some g"
    and "group_step\<^sup>*\<^sup>* \<lparr>gs_group = g, gs_clients = xs @ c\<lparr>cl_must_finish := False\<rparr> # ys\<rparr> s'"
  shows "flight_wait (gs_group s') (cl_flight c) None = Some outcome"
proof -
  let ?s = "\<lparr>gs_group = g, gs_clients = xs @ c\<lparr>cl_must_finish := False\<rparr> # ys\<rparr>"
  have "group_step s ?s" using assms(2-4) by (rule step_finish)
  then have "group_reach ?s" using assms(1) group_next by blast
  with assms(5) have "group_reach s' \<and>
      (\<exists>f. fg_heap (gs_group s') (cl_flight c) = Some f \<and> fl_done f \<and> fl_outcome f = Some outcome)"
  proof (induction rule: rtranclp_induct)
    case base
    then show ?case using assms(4) by (auto simp: flight_finish_def split: if_splits)
  next
    case (step t u)
    then obtain f where "group_reach t" "fg_heap (gs_group t) (cl_flight c) = Some f" "fl_done f"
        "fl_outcome f = Some outcome" by blast
    with group_step_outcome [OF this(1) step.hyps(2) this(2,3)] step.hyps(2) group_next show ?case by auto
  qed
  then show ?thesis by (auto simp: flight_wait_def)
qed

theorem waiters_get_owner_outcome_witness:
  "\<exists>g g' a. flight_begin new_group ''k'' 2 = Some (g, Some (a, True)) \<and>
     flight_finish g ''k'' a (Answered [1]) = Some g' \<and> flight_wait g' a None = Some (Answered [1])"
proof -
  let ?s = "\<lparr>gs_group = new_group, gs_clients = []\<rparr>"
  obtain g a where b: "flight_begin new_group ''k'' 2 = Some (g, Some (a, True))"
    by (simp add: flight_begin_def new_group_def)
  let ?c = "\<lparr>cl_key = ''k'', cl_flight = a, cl_must_finish = True\<rparr>"
  have "group_step ?s \<lparr>gs_group = g, gs_clients = [?c]\<rparr>" using step_begin [of ?s] b by simp
  then have reach: "group_reach \<lparr>gs_group = g, gs_clients = [?c]\<rparr>" using group_next group_init by blast
  obtain g' where g': "flight_finish g ''k'' a (Answered [1]) = Some g'"
    using b by (auto simp: flight_begin_def new_group_def flight_finish_def)
  show ?thesis
    using waiters_get_owner_outcome [OF reach _ _ _ rtranclp.rtrancl_refl, of "[]" ?c "[]" "Answered [1]" g'] g' b
    by simp
qed

end
