(* ===== verification/Dns_Resolver.thy ===== *)
theory Dns_Resolver
  imports Dns_Cache Dns_Upstream Dns_Flights
begin

text \<open>
  The resolver of the policy DNS service: loading a runtime (\<^verbatim>\<open>loadRuntime\<close> of
  \<^verbatim>\<open>internal/policydns/config.go\<close>), planning a query against the lane, the cache and the upstreams, the
  exchange with validation and caching, and the answer to the client (\<^verbatim>\<open>internal/policydns/resolver.go\<close>).

  The DNS message library is third-party code: \<open>unpack\<close> stands for \<^verbatim>\<open>dns.UnpackDomainName\<close> and
  \<open>pack\<close> for \<^verbatim>\<open>Msg.Pack\<close> on the fields that \<open>refusal\<close> sets. The outcome of an exchange with
  an upstream is an argument, as are the clock and the error of the context.
\<close>

unbundle bit_operations_syntax

section \<open>Refusals\<close>

record dns_reply =
  dr_Id :: u16
  dr_Opcode :: u16
  dr_RecursionDesired :: bool
  dr_CheckingDisabled :: bool
  dr_Rcode :: nat
  dr_Question :: "(string \<times> u16 \<times> u16) option"

record dns_library =
  lib_unpack :: "bytes \<Rightarrow> nat \<Rightarrow> (string \<times> nat) option"
  lib_pack :: "dns_reply \<Rightarrow> bytes option"

text \<open>Response code 2 is \<open>dns.RcodeServerFailure\<close>, 5 is \<open>dns.RcodeRefused\<close>.\<close>

definition refusal :: "dns_library \<Rightarrow> bytes \<Rightarrow> bool \<Rightarrow> bytes go" where
  "refusal lib query serverFailure =
     (if length query < 12 then Some []
      else do {
        flags \<leftarrow> u16_at query 2;
        ident \<leftarrow> u16_at query 0;
        count \<leftarrow> u16_at query 4;
        question \<leftarrow>
          (if count = 1 then
             (case lib_unpack lib query 12 of
                Some (name, endp) \<Rightarrow>
                  if endp + 4 \<le> length query then do {
                    qtype \<leftarrow> u16_at query endp;
                    qclass \<leftarrow> u16_at query (endp + 2);
                    Some (Some (name, qtype, qclass))
                  } else Some None
              | None \<Rightarrow> Some None)
           else Some None);
        let reply = \<lparr>dr_Id = ident, dr_Opcode = drop_bit 11 flags AND 15,
          dr_RecursionDesired = (flags AND 0x0100 \<noteq> 0), dr_CheckingDisabled = (flags AND 0x0010 \<noteq> 0),
          dr_Rcode = (if serverFailure then 2 else 5),
          dr_Question = question\<rparr>;
        Some (case lib_pack lib reply of None \<Rightarrow> [] | Some wire \<Rightarrow> wire)
      })"

section \<open>The runtime\<close>

record 'i runtime =
  rt_servers :: "string \<rightharpoonup> upstream_config"
  rt_profiles :: nat
  rt_lanes :: "string \<rightharpoonup> 'i lane"
  rt_ordered :: "'i lane list"
  rt_timeout :: nanos
  rt_cache :: responseCache
  rt_flights :: flightGroup

text \<open>\<open>rt_profiles\<close> is \<open>len(runtime.servers)\<close>.\<close>

datatype load_error =
    ReadConfig | DecodeConfig config_error | UnsupportedSchema | NoLanes
  | ServerError string go_error | InvalidSharedSet string | LaneError lane_error | DuplicateLane string

text \<open>The timeout in nanoseconds, for seconds whose product fits an \<open>int64\<close>; the conversion of a larger
  \<open>float64\<close> depends on the platform.\<close>

definition runtime_timeout :: "rat \<Rightarrow> nanos" where
  "runtime_timeout seconds =
     (let timeout = \<lfloor>seconds * 1000000000\<rfloor>;
          timeout = (if timeout < second then 5 * second else timeout)
      in if 15 * second < timeout then 15 * second else timeout)"

fun load_servers ::
  "nanos \<Rightarrow> (string \<times> serverConfig) list \<Rightarrow> load_error + (string \<times> upstream_config) list" where
  "load_servers timeout [] = Inr []"
| "load_servers timeout ((tag, config) # rest) =
     (case newUpstream config timeout of
        Inl err \<Rightarrow> Inl (ServerError tag err)
      | Inr server \<Rightarrow>
          (case load_servers timeout rest of
             Inl err \<Rightarrow> Inl err
           | Inr servers \<Rightarrow> Inr ((tag, server) # servers)))"

fun load_lanes ::
  "'i option \<Rightarrow> (string \<times> u32) list \<Rightarrow> laneConfig list \<Rightarrow> 'i runtime \<Rightarrow> load_error + 'i runtime" where
  "load_lanes shared ids [] rt = Inr rt"
| "load_lanes shared ids (raw # raws) rt =
     (case compileLaneWithSets raw shared ids of
        Inl err \<Rightarrow> Inl (LaneError err)
      | Inr compiled \<Rightarrow>
          if rt_lanes rt (ln_id compiled) \<noteq> None then Inl (DuplicateLane (ln_id compiled))
          else load_lanes shared ids raws
            (rt\<lparr>rt_lanes := (rt_lanes rt)(ln_id compiled \<mapsto> compiled),
                rt_ordered := rt_ordered rt @ [compiled]\<rparr>))"

text \<open>\<open>doc\<close> is \<open>None\<close> when the file cannot be opened.\<close>

definition loadRuntime ::
  "(domain_set \<Rightarrow> string) \<Rightarrow> (membership list \<Rightarrow> membership list \<Rightarrow> 'i) \<Rightarrow> config_document option \<Rightarrow>
   int \<Rightarrow> int \<Rightarrow> nanos \<Rightarrow> load_error + 'i runtime" where
  "loadRuntime ID build doc cacheEntries cacheBytes staleTTL =
     (case doc of
        None \<Rightarrow> Inl ReadConfig
      | Some d \<Rightarrow>
          (case decodeRuntimeConfig ID d of
             Inl err \<Rightarrow> Inl (DecodeConfig err)
           | Inr raw \<Rightarrow>
               if rw_Version raw < 0 \<or> 2 < rw_Version raw then Inl UnsupportedSchema
               else if rw_Lanes raw = [] then Inl NoLanes
               else let timeout = runtime_timeout (rw_TimeoutSeconds raw) in
                 (case load_servers timeout (rw_Servers raw) of
                    Inl err \<Rightarrow> Inl err
                  | Inr servers \<Rightarrow>
                      (case compileWith ID build (rw_DomainSets raw) of
                         Inl err \<Rightarrow> Inl (InvalidSharedSet err)
                       | Inr (shared, ids) \<Rightarrow>
                           load_lanes shared ids (rw_Lanes raw)
                             \<lparr>rt_servers = map_of servers, rt_profiles = length servers,
                              rt_lanes = Map.empty, rt_ordered = [],
                              rt_timeout = timeout,
                              rt_cache = newResponseCache cacheEntries cacheBytes staleTTL,
                              rt_flights = new_group\<rparr>))))"

definition topology :: "'i runtime \<Rightarrow> string list" where
  "topology rt = sort (map (\<lambda>l. ln_id l @ ''|'' @ ln_host l @ ''|'' @ itoa (ln_port l)) (rt_ordered rt))"

section \<open>Queries\<close>

record queryPlan =
  qp_server :: "upstream_config option"
  qp_tag :: string
  qp_key :: string
  qp_answer :: bytes
  qp_local :: bool

definition local_plan :: "bytes \<Rightarrow> queryPlan" where
  "local_plan answer =
     \<lparr>qp_server = None, qp_tag = [], qp_key = [], qp_answer = answer, qp_local = True\<rparr>"

definition planQuery ::
  "dns_library \<Rightarrow> ('i \<Rightarrow> string \<Rightarrow> u32 list go) \<Rightarrow> 'i runtime \<Rightarrow> string \<Rightarrow> bytes \<Rightarrow> nanos \<Rightarrow>
   ('i runtime \<times> (go_error + queryPlan)) go" where
  "planQuery lib visits rt laneID query now =
     (case rt_lanes rt laneID of
        None \<Rightarrow> Some (rt, Inl (''unknown policy DNS lane '' @ laneID))
      | Some lane \<Rightarrow> do {
          refused \<leftarrow> refusal lib query False;
          name \<leftarrow> questionName query;
          case name of
            None \<Rightarrow> Some (rt, Inr (local_plan refused))
          | Some name \<Rightarrow> do {
              (tag, rejected) \<leftarrow> target visits lane name;
              if rejected then Some (rt, Inr (local_plan refused))
              else case rt_servers rt tag of
                None \<Rightarrow> Some (rt, Inr (local_plan refused))
              | Some server \<Rightarrow>
                  (case normalizedQueryKey tag query of
                     None \<Rightarrow> Some (rt, Inr (local_plan refused))
                   | Some key \<Rightarrow> do {
                       (cache, found) \<leftarrow> cache_get (rt_cache rt) key (take 2 query) now;
                       case found of
                         Some response \<Rightarrow> Some (rt\<lparr>rt_cache := cache\<rparr>, Inr (local_plan response))
                       | None \<Rightarrow> Some (rt\<lparr>rt_cache := cache\<rparr>,
                           Inr \<lparr>qp_server = Some server, qp_tag = tag, qp_key = key,
                                qp_answer = [], qp_local = False\<rparr>)
                     })
            }
        })"

text \<open>\<open>ctx\<close> is the error of the context at entry, \<open>result\<close> what \<open>plan.server.exchange\<close> returns.\<close>

definition exchangePlan ::
  "'i runtime \<Rightarrow> queryPlan \<Rightarrow> bytes \<Rightarrow> go_error option \<Rightarrow> go_error + bytes \<Rightarrow> nanos \<Rightarrow>
   ('i runtime \<times> flight_outcome) go" where
  "exchangePlan rt plan query ctx result now =
     (case ctx of
        Some err \<Rightarrow> Some (rt, Failed err)
      | None \<Rightarrow>
          (case result of
             Inl err \<Rightarrow> Some (rt, Failed err)
           | Inr response \<Rightarrow>
               if length response < 12 then Some (rt, Failed ''short upstream DNS response'')
               else do {
                 ok \<leftarrow> matchingQuestion query response;
                 if \<not> ok then Some (rt, Failed ''upstream DNS response question mismatch'')
                 else do {
                   ttl \<leftarrow> responseTTL response;
                   let response = response[0 := 0, 1 := 0];
                   cache \<leftarrow> putOwned (rt_cache rt) (qp_key plan) response ttl now;
                   Some (rt\<lparr>rt_cache := cache\<rparr>, Answered response)
                 }
               }))"

definition queryResult ::
  "dns_library \<Rightarrow> 'i runtime \<Rightarrow> queryPlan \<Rightarrow> bytes \<Rightarrow> flight_outcome \<Rightarrow> nanos \<Rightarrow> ('i runtime \<times> bytes) go" where
  "queryResult lib rt plan query outcome now =
     (case outcome of
        Failed _ \<Rightarrow> do {
          (cache, stale) \<leftarrow> getStale (rt_cache rt) (qp_key plan) (take 2 query) now;
          case stale of
            Some response \<Rightarrow> Some (rt\<lparr>rt_cache := cache\<rparr>, response)
          | None \<Rightarrow> do { r \<leftarrow> refusal lib query True; Some (rt\<lparr>rt_cache := cache\<rparr>, r) }
        }
      | Answered normalized \<Rightarrow> Some (rt, responseWithID normalized (take 2 query)))"

text \<open>
  \<open>flights.do\<close> and \<open>resolve\<close> of one goroutine. When another goroutine owns the flight, \<open>shared\<close> is what
  \<open>wait\<close> returns; the owner exchanges with \<open>ctx\<close> and \<open>result\<close>, and \<open>cancelled\<close> is the context error that
  its own \<open>wait\<close> may pick over the finished flight.
\<close>

definition flights_do ::
  "'i runtime \<Rightarrow> queryPlan \<Rightarrow> bytes \<Rightarrow> go_error option \<Rightarrow> go_error + bytes \<Rightarrow> go_error option \<Rightarrow>
   flight_outcome \<Rightarrow> nanos \<Rightarrow> ('i runtime \<times> flight_outcome) go" where
  "flights_do rt plan query ctx result cancelled shared now = do {
     (group, begun) \<leftarrow> flight_begin (rt_flights rt) (qp_key plan) 0;
     (a, owner) \<leftarrow> begun;
     let rt = rt\<lparr>rt_flights := group\<rparr>;
     (rt, outcome) \<leftarrow>
       (if owner then do {
          (rt, outcome) \<leftarrow> exchangePlan rt plan query ctx result now;
          group \<leftarrow> flight_finish (rt_flights rt) (qp_key plan) a outcome;
          outcome \<leftarrow> flight_wait group a cancelled;
          Some (rt\<lparr>rt_flights := group\<rparr>, outcome)
        } else Some (rt, shared));
     group \<leftarrow> flight_leave (rt_flights rt) a;
     Some (rt\<lparr>rt_flights := group\<rparr>, outcome)
   }"

text \<open>One time \<open>now\<close> stands for the clock readings of one call, and the cache is not changed by another
  goroutine between its lookup and its update; the flights of other goroutines are in \<open>Dns_Flights\<close>.\<close>

definition resolve ::
  "dns_library \<Rightarrow> ('i \<Rightarrow> string \<Rightarrow> u32 list go) \<Rightarrow> 'i runtime \<Rightarrow> string \<Rightarrow> bytes \<Rightarrow>
   go_error option \<Rightarrow> go_error + bytes \<Rightarrow> go_error option \<Rightarrow> flight_outcome \<Rightarrow> nanos \<Rightarrow>
   ('i runtime \<times> (go_error + bytes)) go" where
  "resolve lib visits rt laneID query ctx result cancelled shared now = do {
     (rt, planned) \<leftarrow> planQuery lib visits rt laneID query now;
     case planned of
       Inl err \<Rightarrow> Some (rt, Inl err)
     | Inr plan \<Rightarrow>
         if qp_local plan then Some (rt, Inr (qp_answer plan))
         else do {
           (rt, outcome) \<leftarrow> flights_do rt plan query ctx result cancelled shared now;
           (rt, answer) \<leftarrow> queryResult lib rt plan query outcome now;
           Some (rt, Inr answer)
         }
   }"

section \<open>Facts on messages\<close>

lemma ttl_fields_after_header: "p \<in> fst ` set (ttl_fields m) \<Longrightarrow> 12 < p"
proof -
  assume p: "p \<in> fst ` set (ttl_fields m)"
  then obtain i where i: "first_record m = Some i"
    by (cases "first_record m") (auto simp: ttl_fields_def)
  then have "12 \<le> i" using skipQuestions_total [of "header_count m 4" m 12]
    by (auto simp: first_record_def split: if_splits)
  with p i show ?thesis using record_fields_after [of p _ m i 12] by (auto simp: ttl_fields_def)
qed

lemma cachedResponse_id:
  assumes "cachedResponse response queryID age ttl = Some r" "2 \<le> length response" "2 \<le> length queryID"
  shows "take 2 r = take 2 queryID"
proof -
  obtain m' where m': "adjustResponseTTLs (responseWithID response queryID) (word_of_int (go_div age second)) ttl = Some m'"
      "length m' = length response"
      "\<forall>j. (\<forall>p \<in> fst ` set (ttl_fields (responseWithID response queryID)). j < p \<or> p + 4 \<le> j) \<longrightarrow>
         m' ! j = responseWithID response queryID ! j"
    using adjustResponseTTLs_spec [of "responseWithID response queryID" _ ttl] by fastforce
  have "m' ! j = responseWithID response queryID ! j" if "j < 2" for j
    using m'(3) ttl_fields_after_header that by (metis less_trans numeral_less_iff semiring_norm(76,78))
  then have "take 2 m' = take 2 (responseWithID response queryID)"
    using m'(2) assms(2) by (simp add: take2_eq_nth)
  then show ?thesis using m'(1) assms responseWithID_take [OF assms(2,3)] by (simp add: cachedResponse_def)
qed

lemma parse_loop_cong:
  "length m' = length m \<Longrightarrow> (\<forall>j. i \<le> j \<longrightarrow> j < length m \<longrightarrow> m' ! j = m ! j) \<Longrightarrow>
     parseQuestionName_loop m' i name = parseQuestionName_loop m i name"
proof (induction m i name rule: parseQuestionName_loop.induct)
  case (1 m i name)
  have tail: "drop (Suc i) m' = drop (Suc i) m"
    using 1(2,3) by (intro nth_equalityI) auto
  show ?case
  proof (cases "i < length m")
    case True
    then have b: "byte_at m' i = byte_at m i" using 1(2,3) by (simp add: byte_at_def)
    let ?n = "unat (m ! i)"
    have rec: "parseQuestionName_loop m' (Suc i + ?n) nm = parseQuestionName_loop m (Suc i + ?n) nm"
      if "?n \<noteq> 0" "\<not> (63 < ?n \<or> m ! i AND 0xC0 \<noteq> 0 \<or> length m < Suc i + ?n)"
        "nm = (if name \<noteq> [] then name @ ''.'' else name) @ map (byte_char \<circ> lower_byte) (take ?n (drop (Suc i) m))" for nm
      using 1(1) [of "m ! i" ?n "Suc i"] 1(2,3) True that by (simp add: byte_at_def)
    show ?thesis
      using True b tail 1(2) rec
      by (subst (1 2) parseQuestionName_loop.simps) (auto simp: Let_def byte_at_def)
  qed (use 1(2) in \<open>simp add: parseQuestionName_loop.simps [of m] parseQuestionName_loop.simps [of m']\<close>)
qed

lemma drop2_nth:
  assumes "drop 2 q' = drop 2 q" "length q' = length q" "2 \<le> j" "j < length q"
  shows "q' ! j = q ! j"
proof -
  obtain i where i: "j = 2 + i" using assms(3) le_Suc_ex by blast
  have "drop 2 xs ! i = xs ! j" if "j < length xs" for xs :: "'a list"
    using that i by (simp only: nth_drop)
  then show ?thesis using assms by metis
qed

lemma questionName_cong:
  assumes "length q' = length q" "drop 2 q' = drop 2 q"
  shows "questionName q' = questionName q"
proof (cases "length q < 12")
  case False
  have "parseQuestionName_loop q' 12 [] = parseQuestionName_loop q 12 []"
    by (rule parse_loop_cong) (use assms drop2_nth [OF assms(2,1)] in auto)
  then show ?thesis using assms(1) by (simp add: questionName_def parseQuestionName_def)
qed (use assms in \<open>simp add: questionName_def parseQuestionName_def\<close>)

section \<open>Outcomes of the operations\<close>

lemma refusal_total: "\<exists>r. refusal lib query failure = Some r"
proof (cases "length query < 12")
  case False
  then obtain f i c where r: "u16_at query 2 = Some f" "u16_at query 0 = Some i" "u16_at query 4 = Some c"
    using u16_at_returns [of 2 query] u16_at_returns [of 0 query] u16_at_returns [of 4 query] by auto
  have "\<exists>q. (case lib_unpack lib query 12 of
      Some (name, endp) \<Rightarrow>
        if endp + 4 \<le> length query
        then do { t \<leftarrow> u16_at query endp; cl \<leftarrow> u16_at query (endp + 2); Some (Some (name, t, cl)) }
        else Some None
    | None \<Rightarrow> Some None) = Some q"
  proof (cases "lib_unpack lib query 12")
    case (Some ne)
    obtain name endp where ne: "ne = (name, endp)" by (cases ne)
    show ?thesis
    proof (cases "endp + 4 \<le> length query")
      case True
      then obtain t cl where "u16_at query endp = Some t" "u16_at query (endp + 2) = Some cl"
        using u16_at_returns [of endp query] u16_at_returns [of "endp + 2" query] by auto
      then show ?thesis using Some ne True by simp
    qed (simp add: Some ne)
  qed simp
  with r False show ?thesis by (cases "c = 1") (auto simp: refusal_def Let_def)
qed (simp add: refusal_def)

text \<open>What the message library documents of a packed reply: a header with the identifier, the response
  bit and the response code.\<close>

definition lib_documented :: "dns_library \<Rightarrow> bool" where
  "lib_documented lib \<longleftrightarrow> (\<forall>r w. lib_pack lib r = Some w \<longrightarrow>
     12 \<le> length w \<and> u16_at w 0 = Some (dr_Id r) \<and>
     (\<exists>f. u16_at w 2 = Some f \<and> f AND 0x8000 \<noteq> 0 \<and> unat (f AND 0xf) = dr_Rcode r))"

lemma refusal_id:
  assumes "lib_documented lib" "refusal lib query failure = Some r" "r \<noteq> []"
  shows "take 2 r = take 2 query \<and>
    (\<exists>f. u16_at r 2 = Some f \<and> f AND 0x8000 \<noteq> 0 \<and> unat (f AND 0xf) = (if failure then 2 else 5))"
proof -
  have len: "12 \<le> length query" using assms(2,3) by (auto simp: refusal_def split: if_splits)
  obtain reply where reply: "lib_pack lib reply = Some r" "u16_at query 0 = Some (dr_Id reply)"
      "dr_Rcode reply = (if failure then 2 else 5)"
    using assms(2,3) len by (auto simp: refusal_def Let_def split: option.splits)
  then have w: "12 \<le> length r" "u16_at r 0 = Some (dr_Id reply)"
      "\<exists>f. u16_at r 2 = Some f \<and> f AND 0x8000 \<noteq> 0 \<and> unat (f AND 0xf) = dr_Rcode reply"
    using assms(1) unfolding lib_documented_def by blast+
  have "take 2 r = take 2 query"
    using u16_at_inj [OF reply(2) w(2)] w(1) len by (simp add: take2_eq_nth)
  with w(3) reply(3) show ?thesis by simp
qed

lemma target_map_total: "\<exists>r. target mapMembership_Match lane name = Some r"
  by (cases "ln_shared lane") (simp_all add: target_def mapMembership_Match_def)

lemma questionName_total: "\<exists>r. questionName query = Some r"
  using parseQuestionName_total [of query] by (auto simp: questionName_def)

text \<open>The cases of \<open>planQuery\<close>: a refusal that leaves the runtime alone, or a permitted route that is
  answered from the cache or left to the upstream.\<close>

lemma planQuery_cases:
  assumes ok: "cache_ok (rt_cache rt)"
  obtains (unknown) "rt_lanes rt laneID = None"
      "planQuery lib mapMembership_Match rt laneID query now = Some (rt, Inl (''unknown policy DNS lane '' @ laneID))"
  | (refused) lane r where "rt_lanes rt laneID = Some lane" "refusal lib query False = Some r"
      "planQuery lib mapMembership_Match rt laneID query now = Some (rt, Inr (local_plan r))"
      "\<And>name tag. questionName query = Some (Some name) \<Longrightarrow>
         target mapMembership_Match lane name = Some (tag, False) \<Longrightarrow>
         rt_servers rt tag = None \<or> normalizedQueryKey tag query = None"
  | (routed) lane name tag server key cache found where "rt_lanes rt laneID = Some lane"
      "questionName query = Some (Some name)" "target mapMembership_Match lane name = Some (tag, False)"
      "rt_servers rt tag = Some server" "normalizedQueryKey tag query = Some key"
      "cache_get (rt_cache rt) key (take 2 query) now = Some (cache, found)" "cache_ok cache"
      "planQuery lib mapMembership_Match rt laneID query now = Some (rt\<lparr>rt_cache := cache\<rparr>, Inr (case found of
         Some response \<Rightarrow> local_plan response
       | None \<Rightarrow> \<lparr>qp_server = Some server, qp_tag = tag, qp_key = key, qp_answer = [], qp_local = False\<rparr>))"
proof (cases "rt_lanes rt laneID")
  case None
  then show ?thesis using unknown by (simp add: planQuery_def)
next
  case (Some lane)
  obtain r where r: "refusal lib query False = Some r" using refusal_total by blast
  obtain n where n: "questionName query = Some n" using questionName_total by blast
  show ?thesis
  proof (cases n)
    case None
    then show ?thesis using refused [OF Some r] Some r n by (auto simp: planQuery_def)
  next
    case name: (Some name)
    obtain tag rej where t: "target mapMembership_Match lane name = Some (tag, rej)"
      using target_map_total [of lane name] by (metis surj_pair)
    note base = Some r n name t
    show ?thesis
    proof (cases "rej \<or> rt_servers rt tag = None \<or> normalizedQueryKey tag query = None")
      case True
      then have plan: "planQuery lib mapMembership_Match rt laneID query now = Some (rt, Inr (local_plan r))"
        using base by (cases rej; cases "rt_servers rt tag"; cases "normalizedQueryKey tag query")
          (simp_all add: planQuery_def)
      show ?thesis by (rule refused [OF Some r plan]) (use True base in auto)
    next
      case False
      then obtain server key where sk: "rt_servers rt tag = Some server" "normalizedQueryKey tag query = Some key"
        by auto
      obtain cache found where c: "cache_get (rt_cache rt) key (take 2 query) now = Some (cache, found)" "cache_ok cache"
        using cache_get_spec [OF ok, of key "take 2 query" now] by auto
      have n': "questionName query = Some (Some name)" and t': "target mapMembership_Match lane name = Some (tag, False)"
        using n name t False by simp_all
      show ?thesis
        by (rule routed [OF Some n' t' sk c]) (use Some r n' t' sk c in \<open>auto simp: planQuery_def split: option.splits\<close>)
    qed
  qed
qed

lemma cache_get_found:
  assumes "cache_ok c" "cache_get c key queryID now = Some (c', Some r)"
  obtains e where "cache_find c key = Some e" "now < ce_expires e"
    "cachedResponse (ce_response e) queryID (now - ce_stored e) 0 = Some r"
  using cache_get_spec [OF assms(1), of key queryID now] assms(2)
  by (cases "cache_find c key") (auto split: if_splits)

lemma cached_entry_length: "cache_ok c \<Longrightarrow> cache_find c key = Some e \<Longrightarrow> 2 \<le> length (ce_response e)"
  by (auto simp: cache_find_def cached_def cache_ok_def cache_linked_def dest!: find_Some_mem)

lemma exchangePlan_spec:
  assumes "cache_ok (rt_cache rt)"
  shows "\<exists>rt' outcome. exchangePlan rt plan query ctx result now = Some (rt', outcome) \<and>
    cache_ok (rt_cache rt') \<and> rt_flights rt' = rt_flights rt \<and>
    (\<forall>r. outcome = Answered r \<longrightarrow> (\<exists>response ttl. result = Inr response \<and> ctx = None \<and>
       matchingQuestion query response = Some True \<and> r = response[0 := 0, 1 := 0] \<and>
       responseTTL response = Some ttl \<and>
       putOwned (rt_cache rt) (qp_key plan) r ttl now = Some (rt_cache rt') \<and>
       rt' = rt\<lparr>rt_cache := rt_cache rt'\<rparr>)) \<and>
    (\<forall>err. outcome = Failed err \<longrightarrow> rt' = rt)"
proof (cases "ctx = None \<and> (\<exists>response. result = Inr response \<and> 12 \<le> length response)")
  case False
  then have "\<exists>err. exchangePlan rt plan query ctx result now = Some (rt, Failed err)"
    by (auto simp: exchangePlan_def split: option.splits sum.splits)
  then show ?thesis using assms by auto
next
  case True
  then obtain response where r: "ctx = None" "result = Inr response" "12 \<le> length response" by blast
  obtain ok where ok: "matchingQuestion query response = Some ok" using matchingQuestion_total by blast
  obtain ttl where ttl: "responseTTL response = Some ttl" using responseTTL_spec [of response] by blast
  obtain c where c: "putOwned (rt_cache rt) (qp_key plan) (response[0 := 0, 1 := 0]) ttl now = Some c" "cache_ok c"
    using putOwned_spec [OF assms, of "qp_key plan" "response[0 := 0, 1 := 0]" ttl now] by auto
  show ?thesis
    using assms r ok ttl c by (cases ok) (simp_all add: exchangePlan_def Let_def)
qed

lemma queryResult_spec:
  assumes "cache_ok (rt_cache rt)"
  shows "\<exists>rt' answer. queryResult lib rt plan query outcome now = Some (rt', answer) \<and>
    cache_ok (rt_cache rt') \<and> rt_flights rt' = rt_flights rt \<and>
    (lib_documented lib \<longrightarrow> 2 \<le> length query \<longrightarrow> (\<forall>r. outcome = Answered r \<longrightarrow> 2 \<le> length r) \<longrightarrow>
       answer = [] \<or> take 2 answer = take 2 query)"
proof (cases outcome)
  case (Answered r)
  then show ?thesis
    using assms responseWithID_take [of r "take 2 query"] by (auto simp: queryResult_def)
next
  case (Failed err)
  obtain c stale where g: "getStale (rt_cache rt) (qp_key plan) (take 2 query) now = Some (c, stale)" "cache_ok c"
    using getStale_spec [OF assms, of "qp_key plan" "take 2 query" now] by blast
  obtain r where r: "refusal lib query True = Some r" using refusal_total by blast
  show ?thesis
  proof (cases stale)
    case None
    then show ?thesis using Failed g r refusal_id [OF _ r] by (auto simp: queryResult_def)
  next
    case (Some response)
    with g getStale_spec [OF assms, of "qp_key plan" "take 2 query" now] obtain e where
      e: "cache_find (rt_cache rt) (qp_key plan) = Some e"
        "cachedResponse (ce_response e) (take 2 query) 0 30 = Some response"
      by (cases "cache_find (rt_cache rt) (qp_key plan)") (auto split: if_splits)
    have "2 \<le> length query \<Longrightarrow> take 2 response = take 2 query"
      using cachedResponse_id [OF e(2) cached_entry_length [OF assms e(1)]] by simp
    with Failed g Some show ?thesis by (simp add: queryResult_def)
  qed
qed

text \<open>A group of flights as the other goroutines leave it: reachable, with some clients.\<close>

definition flights_ok :: "flightGroup \<Rightarrow> bool" where
  "flights_ok g \<longleftrightarrow> (\<exists>cs. group_reach \<lparr>gs_group = g, gs_clients = cs\<rparr>)"

lemma flights_okD:
  assumes "flights_ok g" "fg_flights g key = Some a"
  shows "\<exists>f. fg_heap g a = Some f \<and> \<not> fl_done f"
proof -
  obtain cs where ok: "group_ok g cs"
    using assms(1) group_reach_ok by (force simp: flights_ok_def)
  obtain c where "c \<in> set (owned cs)" "cl_flight c = a" using group_okD(4) [OF ok assms(2)] by blast
  then show ?thesis
    using group_okD(2,5) [OF ok] owned_subset [of cs] by blast
qed

lemma flights_do_spec:
  assumes cache: "cache_ok (rt_cache rt)" and group: "flights_ok (rt_flights rt)"
  shows "\<exists>rt' outcome. flights_do rt plan query ctx result cancelled shared now = Some (rt', outcome) \<and>
    cache_ok (rt_cache rt') \<and>
    (\<forall>r. outcome = Answered r \<longrightarrow> shared = Answered r \<or>
       (\<exists>response. result = Inr response \<and> matchingQuestion query response = Some True \<and>
          r = response[0 := 0, 1 := 0]))"
proof (cases "fg_flights (rt_flights rt) (qp_key plan)")
  case (Some a)
  then obtain f where f: "fg_heap (rt_flights rt) a = Some f" using flights_okD [OF group] by blast
  show ?thesis
    using Some f cache by (simp add: flights_do_def flight_begin_def flight_leave_def)
next
  case None
  let ?g = "rt_flights rt"
  let ?a = "fg_next ?g"
  let ?g1 = "?g\<lparr>fg_heap := (fg_heap ?g)(?a \<mapsto> \<lparr>fl_done = False, fl_outcome = None, fl_waiters = 1\<rparr>),
     fg_flights := (fg_flights ?g)(qp_key plan \<mapsto> ?a), fg_next := Suc ?a\<rparr>"
  have begin_eq: "flight_begin ?g (qp_key plan) 0 = Some (?g1, Some (?a, True))"
    using None by (simp add: flight_begin_def Let_def)
  obtain rt1 outcome where x: "exchangePlan (rt\<lparr>rt_flights := ?g1\<rparr>) plan query ctx result now = Some (rt1, outcome)"
      "cache_ok (rt_cache rt1)" "rt_flights rt1 = ?g1"
      "\<forall>r. outcome = Answered r \<longrightarrow> (\<exists>response. result = Inr response \<and> matchingQuestion query response = Some True \<and>
          r = response[0 := 0, 1 := 0])"
    using exchangePlan_spec [of "rt\<lparr>rt_flights := ?g1\<rparr>" plan query ctx result now] cache by fastforce
  have "\<exists>g2. flight_finish ?g1 (qp_key plan) ?a outcome = Some g2 \<and>
      fg_heap g2 ?a = Some \<lparr>fl_done = True, fl_outcome = Some outcome, fl_waiters = 1\<rparr>"
    by (simp add: flight_finish_def)
  then obtain g2 where g2: "flight_finish ?g1 (qp_key plan) ?a outcome = Some g2"
      "fg_heap g2 ?a = Some \<lparr>fl_done = True, fl_outcome = Some outcome, fl_waiters = 1\<rparr>" by blast
  have w: "flight_wait g2 ?a cancelled = Some (case cancelled of Some err \<Rightarrow> Failed err | None \<Rightarrow> outcome)"
    using g2(2) by (auto simp: flight_wait_def split: option.splits)
  show ?thesis
    using begin_eq x g2 w
    by (simp add: flights_do_def flight_leave_def split: option.splits)
qed

section \<open>Loading\<close>

lemma runtime_timeout_bounds: "second \<le> runtime_timeout t" "runtime_timeout t \<le> 15 * second"
  by (auto simp: runtime_timeout_def Let_def)

definition lane_listens_safely :: "'i lane \<Rightarrow> bool" where
  "lane_listens_safely l \<longleftrightarrow>
     ln_id l \<noteq> [] \<and> ln_host l \<in> {''127.0.0.1'', ''::1''} \<and> 1024 \<le> ln_port l \<and> ln_port l \<le> 65535"

definition runtime_lanes_ok :: "'i runtime \<Rightarrow> bool" where
  "runtime_lanes_ok rt \<longleftrightarrow>
     distinct (map ln_id (rt_ordered rt)) \<and> list_all lane_listens_safely (rt_ordered rt) \<and>
     rt_lanes rt = map_of (map (\<lambda>l. (ln_id l, l)) (rt_ordered rt))"

lemma map_of_snoc_fresh:
  "k \<notin> fst ` set ps \<Longrightarrow> map_of (ps @ [(k, v)]) = (map_of ps)(k \<mapsto> v)"
  by (induction ps) (auto simp: fun_eq_iff)

lemma load_lanes_spec:
  "load_lanes shared ids raws rt = Inr rt' \<Longrightarrow> runtime_lanes_ok rt \<Longrightarrow>
     runtime_lanes_ok rt' \<and> rt_cache rt' = rt_cache rt \<and> rt_timeout rt' = rt_timeout rt \<and>
     rt_servers rt' = rt_servers rt \<and> rt_profiles rt' = rt_profiles rt \<and> rt_flights rt' = rt_flights rt \<and>
     (\<exists>lanes. rt_ordered rt' = rt_ordered rt @ lanes \<and>
        list_all2 (\<lambda>raw lane. compileLaneWithSets raw shared ids = Inr lane) raws lanes)"
proof (induction raws arbitrary: rt)
  case (Cons raw raws)
  then obtain lane where c: "compileLaneWithSets raw shared ids = Inr lane" "rt_lanes rt (ln_id lane) = None"
    and rest: "load_lanes shared ids raws (rt\<lparr>rt_lanes := (rt_lanes rt)(ln_id lane \<mapsto> lane),
        rt_ordered := rt_ordered rt @ [lane]\<rparr>) = Inr rt'"
    by (auto split: sum.splits if_splits)
  have "lane_listens_safely lane"
    using compileLane_Inr(1) [OF c(1)] by (auto simp: lane_listens_safely_def)
  moreover have fresh: "ln_id lane \<notin> fst ` set (map (\<lambda>l. (ln_id l, l)) (rt_ordered rt))"
    using c(2) Cons.prems(2) by (simp add: runtime_lanes_ok_def map_of_eq_None_iff)
  ultimately have "runtime_lanes_ok (rt\<lparr>rt_lanes := (rt_lanes rt)(ln_id lane \<mapsto> lane),
        rt_ordered := rt_ordered rt @ [lane]\<rparr>)"
    using Cons.prems(2) map_of_snoc_fresh [OF fresh, of lane]
    by (force simp: runtime_lanes_ok_def)
  from Cons.IH [OF rest this] c(1) show ?case by auto
qed simp

lemma loadRuntime_Inr:
  assumes "loadRuntime ID build doc entries bytes staleTTL = Inr rt"
  obtains d raw servers shared ids where "doc = Some d" "decodeRuntimeConfig ID d = Inr raw"
    "0 \<le> rw_Version raw" "rw_Version raw \<le> 2" "rw_Lanes raw \<noteq> []"
    "load_servers (runtime_timeout (rw_TimeoutSeconds raw)) (rw_Servers raw) = Inr servers"
    "compileWith ID build (rw_DomainSets raw) = Inr (shared, ids)"
    "load_lanes shared ids (rw_Lanes raw) \<lparr>rt_servers = map_of servers, rt_profiles = length servers,
       rt_lanes = Map.empty, rt_ordered = [], rt_timeout = runtime_timeout (rw_TimeoutSeconds raw),
       rt_cache = newResponseCache entries bytes staleTTL, rt_flights = new_group\<rparr> = Inr rt"
  using assms
  by (auto simp: loadRuntime_def Let_def split: option.splits sum.splits prod.splits if_splits)

lemma loadRuntime_spec:
  assumes "loadRuntime ID build doc entries bytes staleTTL = Inr rt"
  shows "runtime_lanes_ok rt \<and> rt_ordered rt \<noteq> [] \<and> second \<le> rt_timeout rt \<and> rt_timeout rt \<le> 15 * second \<and>
    rt_cache rt = newResponseCache entries bytes staleTTL \<and> rt_flights rt = new_group"
proof -
  from assms show ?thesis
  proof (cases rule: loadRuntime_Inr)
    case (1 d raw servers shared ids)
    from load_lanes_spec [OF 1(8)] 1(5) runtime_timeout_bounds show ?thesis
      by (auto simp: runtime_lanes_ok_def)
  qed
qed

section \<open>Properties\<close>

text \<open>C2: The cache never bypasses the policy: on any query, \<open>planQuery\<close> returns without panicking;
  it answers from the cache, or hands the query to an upstream, only when the lane of the listener
  exists, its target for the question name is a configured server and is not rejected, and the
  entry was stored under the key of that server and is not expired. Otherwise it answers with a
  refusal and leaves the runtime as it was.\<close>

theorem cache_never_bypasses_policy:
  assumes "cache_reach entries bytes staleTTL (rt_cache rt)"
  shows "\<exists>rt' planned. planQuery lib mapMembership_Match rt laneID query now = Some (rt', planned) \<and>
    (\<forall>plan. planned = Inr plan \<longrightarrow> (\<exists>lane. rt_lanes rt laneID = Some lane \<and>
       (qp_local plan \<and> refusal lib query False = Some (qp_answer plan) \<and> rt' = rt \<or>
        (\<exists>name tag server key. questionName query = Some (Some name) \<and>
           target mapMembership_Match lane name = Some (tag, False) \<and> rt_servers rt tag = Some server \<and>
           normalizedQueryKey tag query = Some key \<and>
           (if qp_local plan
            then \<exists>e. cache_find (rt_cache rt) key = Some e \<and> now < ce_expires e \<and>
              cachedResponse (ce_response e) (take 2 query) (now - ce_stored e) 0 = Some (qp_answer plan)
            else qp_server plan = Some server \<and> qp_tag plan = tag \<and> qp_key plan = key)))))"
proof -
  have ok: "cache_ok (rt_cache rt)" using cache_reach_ok [OF assms] by simp
  then show ?thesis
  proof (cases rule: planQuery_cases [of rt laneID lib query now])
    case unknown
    then show ?thesis by simp
  next
    case (refused lane r)
    then show ?thesis by (simp add: local_plan_def)
  next
    case (routed lane name tag server key cache found)
    show ?thesis
    proof (cases found)
      case None
      with routed show ?thesis by auto
    next
      case (Some response)
      then obtain e where "cache_find (rt_cache rt) key = Some e" "now < ce_expires e"
          "cachedResponse (ce_response e) (take 2 query) (now - ce_stored e) 0 = Some response"
        using cache_get_found [OF ok] routed(6) by blast
      with routed Some show ?thesis by (auto simp: local_plan_def)
    qed
  qed
qed

definition example_query :: bytes where
  "example_query = [0, 7, 1, 0, 0, 1, 0, 0, 0, 0, 0, 0, 1, 97, 0, 0, 1, 0, 1]"

definition plain_lane :: "mapMembership lane" where
  "plain_lane = \<lparr>ln_shared = None, ln_setDecisions = Map.empty, ln_id = ''lan'', ln_host = ''127.0.0.1'',
     ln_port = 5301, ln_final = ''direct'', ln_exact = Map.empty, ln_suffix = Map.empty\<rparr>"

definition example_runtime :: "mapMembership runtime" where
  "example_runtime = \<lparr>rt_servers = [''direct'' \<mapsto> UdpUpstream ''192.0.2.53:53'' (5 * second)],
     rt_profiles = 1, rt_lanes = [''lan'' \<mapsto> plain_lane], rt_ordered = [plain_lane],
     rt_timeout = 5 * second, rt_cache = newResponseCache 16 65536 minute, rt_flights = new_group\<rparr>"

text \<open>A stand-in for the message library that packs the header only.\<close>

definition header_library :: dns_library where
  "header_library = \<lparr>lib_unpack = (\<lambda>_ _. None),
     lib_pack = (\<lambda>r. if dr_Rcode r < 16
       then Some (u16_bytes (dr_Id r) @ u16_bytes (0x8000 OR of_nat (dr_Rcode r)) @ replicate 8 0) else None)\<rparr>"

lemma example_names:
  "questionName example_query = Some (Some ''a'')"
  "target mapMembership_Match plain_lane ''a'' = Some (''direct'', False)"
proof -
  show "questionName example_query = Some (Some ''a'')" by code_simp
  have "fold (\<lambda>s. better (Map.empty s)) xs None = None" for xs :: "string list"
    by (induction xs) (simp_all add: better_def)
  then show "target mapMembership_Match plain_lane ''a'' = Some (''direct'', False)"
    by (simp add: target_def plain_lane_def)
qed

theorem cache_never_bypasses_policy_witness:
  "\<exists>rt' plan. planQuery header_library mapMembership_Match example_runtime ''lan'' example_query 0 = Some (rt', Inr plan) \<and>
     (qp_local plan \<and> refusal header_library example_query False = Some (qp_answer plan) \<and> rt' = example_runtime \<or>
      (\<exists>tag server. target mapMembership_Match plain_lane ''a'' = Some (tag, False) \<and>
         rt_servers example_runtime tag = Some server))"
proof -
  have reach: "cache_reach 16 65536 minute (rt_cache example_runtime)"
    by (simp add: example_runtime_def reach_new)
  then have ok: "cache_ok (rt_cache example_runtime)" using cache_reach_ok by blast
  have "\<exists>rt' plan. planQuery header_library mapMembership_Match example_runtime ''lan'' example_query 0 = Some (rt', Inr plan)"
    using ok
    by (cases rule: planQuery_cases [of example_runtime "''lan''" header_library example_query 0])
      (auto simp: example_runtime_def)
  then obtain rt' plan where
    p: "planQuery header_library mapMembership_Match example_runtime ''lan'' example_query 0 = Some (rt', Inr plan)"
    by blast
  with cache_never_bypasses_policy [OF reach, of header_library "''lan''" example_query 0] show ?thesis
    by (auto simp: example_names example_runtime_def)
qed

text \<open>C3: A repeated question is answered without the upstream. After an exchange whose response validates, may be
  cached and fits the cache, the response is in the cache. In every later state of the cache in which it has been neither
  evicted nor replaced, \<open>resolve\<close> answers a query with the same bytes behind the identifier, on any lane whose
  target for the name is the same server, from the cache until the response expires: with the identifier of the
  new query and aged record life times, whatever an upstream would return, and without beginning a flight.\<close>

theorem repeated_question_served_from_cache:
  assumes "cache_reach entries bytes staleTTL (rt_cache rt)"
    and "normalizedQueryKey (qp_tag plan) query = Some (qp_key plan)"
    and "exchangePlan rt plan query None (Inr response) now = Some (rt1, Answered r)"
    and "responseTTL response = Some ttl" and "0 < ttl"
    and "0 < entries" and "entry_weight (qp_key plan) response \<le> bytes"
    and "length query' = length query" and "drop 2 query' = drop 2 query"
    and "cache_reach entries bytes staleTTL (rt_cache rt2)"
    and "cache_find (rt_cache rt2) (qp_key plan) = cache_find (rt_cache rt1) (qp_key plan)"
    and "rt_lanes rt2 laneID = Some lane" and "questionName query = Some (Some name)"
    and "target mapMembership_Match lane name = Some (qp_tag plan, False)"
    and "rt_servers rt2 (qp_tag plan) = Some server" and "now' < now + ttl"
  shows "cache_find (rt_cache rt1) (qp_key plan) \<noteq> None \<and>
    (\<exists>rt3 answer. resolve lib mapMembership_Match rt2 laneID query' ctx result cancelled shared now' = Some (rt3, Inr answer) \<and>
       rt_flights rt3 = rt_flights rt2 \<and> cachedResponse (response[0 := 0, 1 := 0]) (take 2 query') (now' - now) 0 = Some answer \<and>
       take 2 answer = take 2 query')"
proof -
  have ok: "cache_ok (rt_cache rt)" and lim: "rc_limit (rt_cache rt) = entries" "rc_byteLimit (rt_cache rt) = bytes"
    using cache_reach_ok [OF assms(1)] by simp_all
  have ok2: "cache_ok (rt_cache rt2)" using cache_reach_ok [OF assms(10)] by simp
  from exchangePlan_spec [OF ok, of plan query None "Inr response" now] assms(3,4)
  have r: "r = response[0 := 0, 1 := 0]" and put: "putOwned (rt_cache rt) (qp_key plan) r ttl now = Some (rt_cache rt1)"
    and len: "12 \<le> length response" "12 \<le> length query"
    using matchingQuestion_True(1,2) [of query response] by auto
  have st: "storable (rt_cache rt) (qp_key plan) r ttl"
    using assms(5-7) lim len r by (simp add: storable_def entry_weight_def)
  let ?e = "new_entry (rt_cache rt) (qp_key plan) r ttl now"
  have held: "cache_find (rt_cache rt1) (qp_key plan) = Some ?e"
    using put_holds [OF ok st, of now] put by auto
  have e: "ce_response ?e = response[0 := 0, 1 := 0]" using r by (simp add: list_update_swap)
  obtain answer where a: "cachedResponse (ce_response ?e) (take 2 query') (now' - now) 0 = Some answer"
    using cachedResponse_total by blast
  obtain c2 where get: "cache_get (rt_cache rt2) (qp_key plan) (take 2 query') now' = Some (c2, Some answer)"
    using cache_get_spec [OF ok2, of "qp_key plan" "take 2 query'" now'] held assms(11,16) a by auto
  have names: "questionName query' = Some (Some name)" "normalizedQueryKey (qp_tag plan) query' = Some (qp_key plan)"
    using questionName_cong [OF assms(8,9)] normalizedQueryKey_cong [OF assms(8,9)] assms(2,13) by simp_all
  obtain refused where "refusal lib query' False = Some refused" using refusal_total by blast
  then have "planQuery lib mapMembership_Match rt2 laneID query' now' =
      Some (rt2\<lparr>rt_cache := c2\<rparr>, Inr (local_plan answer))"
    using assms(12,14,15) names get by (simp add: planQuery_def)
  then have "resolve lib mapMembership_Match rt2 laneID query' ctx result cancelled shared now' = Some (rt2\<lparr>rt_cache := c2\<rparr>, Inr answer)"
    by (simp add: resolve_def local_plan_def)
  moreover have "take 2 answer = take 2 query'"
    using cachedResponse_id [OF a] e len assms(8) r by simp
  ultimately show ?thesis using a e held by auto
qed

lemma example_answer_facts:
  "matchingQuestion example_query example_answer = Some True"
  "responseTTL example_answer = Some (100 * second)"
  by code_simp+

lemma example_exchange:
  assumes "normalizedQueryKey ''direct'' example_query = Some key"
  shows "\<exists>rt1. exchangePlan example_runtime
    \<lparr>qp_server = None, qp_tag = ''direct'', qp_key = key, qp_answer = [], qp_local = False\<rparr>
    example_query None (Inr example_answer) 0 = Some (rt1, Answered (example_answer[0 := 0, 1 := 0]))"
proof -
  have ok: "cache_ok (rt_cache example_runtime)"
    using cache_reach_ok [OF reach_new] by (simp add: example_runtime_def)
  obtain c where "putOwned (rt_cache example_runtime) key (example_answer[0 := 0, 1 := 0]) (100 * second) 0 = Some c"
    using putOwned_spec [OF ok] by blast
  moreover have "\<not> length example_answer < 12" by (simp add: example_answer_def)
  ultimately show ?thesis using example_answer_facts by (simp add: exchangePlan_def)
qed

theorem repeated_question_served_from_cache_witness:
  "\<exists>key rt1 rt3 answer. normalizedQueryKey ''direct'' example_query = Some key \<and>
     exchangePlan example_runtime
       \<lparr>qp_server = None, qp_tag = ''direct'', qp_key = key, qp_answer = [], qp_local = False\<rparr>
       example_query None (Inr example_answer) 0 = Some (rt1, Answered (example_answer[0 := 0, 1 := 0])) \<and>
     resolve header_library mapMembership_Match rt1 ''lan'' (example_query[1 := 9]) None (Inl ''down'') None (Failed ''down'') (30 * second) =
       Some (rt3, Inr answer) \<and> take 2 answer = [0, 9]"
proof -
  obtain key where key: "normalizedQueryKey ''direct'' example_query = Some key" "length key = 26"
    by (simp add: normalizedQueryKey_def example_query_def)
  let ?plan = "\<lparr>qp_server = None, qp_tag = ''direct'', qp_key = key, qp_answer = [], qp_local = False\<rparr>"
  obtain rt1 where x: "exchangePlan example_runtime ?plan example_query None (Inr example_answer) 0 =
      Some (rt1, Answered (example_answer[0 := 0, 1 := 0]))"
    using example_exchange [OF key(1)] by blast
  have reach: "cache_reach 16 65536 minute (rt_cache example_runtime)"
    by (simp add: example_runtime_def reach_new)
  have put: "putOwned (rt_cache example_runtime) key (example_answer[0 := 0, 1 := 0]) (100 * second) 0 = Some (rt_cache rt1)"
    and rt1: "rt1 = example_runtime\<lparr>rt_cache := rt_cache rt1\<rparr>"
    using exchangePlan_spec [OF conjunct1 [OF cache_reach_ok [OF reach]], of ?plan example_query None "Inr example_answer" 0] x example_answer_facts(2)
    by auto
  have reach1: "cache_reach 16 65536 minute (rt_cache rt1)" by (rule cache_reach.reach_put [OF reach put])
  have tag: "target mapMembership_Match plain_lane ''a'' = Some (qp_tag ?plan, False)"
    using example_names(2) by simp
  have same: "rt_lanes rt1 = rt_lanes example_runtime" "rt_servers rt1 = rt_servers example_runtime" by (subst rt1, simp)+
  have "cache_find (rt_cache rt1) (qp_key ?plan) \<noteq> None \<and>
      (\<exists>rt3 answer. resolve header_library mapMembership_Match rt1 ''lan'' (example_query[1 := 9]) None (Inl ''down'') None (Failed ''down'') (30 * second) =
         Some (rt3, Inr answer) \<and> rt_flights rt3 = rt_flights rt1 \<and>
       cachedResponse (example_answer[0 := 0, 1 := 0]) (take 2 (example_query[1 := 9])) (30 * second - 0) 0 = Some answer \<and>
       take 2 answer = take 2 (example_query[1 := 9]))"
    by (rule repeated_question_served_from_cache
          [OF reach _ x example_answer_facts(2) _ _ _ _ _ reach1 refl _ example_names(1) tag])
      (simp_all add: key entry_weight_def example_answer_def same,
        simp_all add: example_query_def example_runtime_def)
  then show ?thesis using key x by (auto simp: example_query_def)
qed

text \<open>C4: \<open>resolve\<close> always returns and answers the client that asked: with a consistent cache, with the
  flights as any interleaving of other goroutines leaves them, and whatever the upstream returns,
  it neither panics nor blocks on its own flight; an answer that is not empty carries the
  identifier of the query. A response of the upstream is only used when its question matches the
  query. Assumes the documented header of packed replies.\<close>

theorem resolve_answers_with_query_id:
  assumes "lib_documented lib" and "cache_reach entries bytes staleTTL (rt_cache rt)"
    and "flights_ok (rt_flights rt)" and "2 \<le> length query"
    and "\<forall>r. shared = Answered r \<longrightarrow> 2 \<le> length r"
  shows "\<exists>rt' result'. resolve lib mapMembership_Match rt laneID query ctx result cancelled shared now = Some (rt', result') \<and>
    cache_ok (rt_cache rt') \<and>
    (\<forall>answer. result' = Inr answer \<longrightarrow> answer = [] \<or> take 2 answer = take 2 query)"
proof -
  have ok: "cache_ok (rt_cache rt)" using cache_reach_ok [OF assms(2)] by simp
  then show ?thesis
  proof (cases rule: planQuery_cases [of rt laneID lib query now])
    case unknown
    then show ?thesis using ok by (simp add: resolve_def)
  next
    case (refused lane r)
    then show ?thesis using ok refusal_id [OF assms(1) refused(2)] by (auto simp: resolve_def local_plan_def)
  next
    case (routed lane name tag server key cache found)
    show ?thesis
    proof (cases found)
      case (Some response)
      then obtain e where e: "cache_find (rt_cache rt) key = Some e"
          "cachedResponse (ce_response e) (take 2 query) (now - ce_stored e) 0 = Some response"
        using cache_get_found [OF ok] routed(6) by blast
      have "take 2 response = take 2 query"
        using cachedResponse_id [OF e(2) cached_entry_length [OF ok e(1)]] assms(4) by simp
      then show ?thesis using routed Some by (simp add: resolve_def local_plan_def)
    next
      case None
      let ?rt = "rt\<lparr>rt_cache := cache\<rparr>"
      let ?plan = "\<lparr>qp_server = Some server, qp_tag = tag, qp_key = key, qp_answer = [], qp_local = False\<rparr>"
      have ok': "cache_ok (rt_cache ?rt)" and group: "flights_ok (rt_flights ?rt)"
        using routed(7) assms(3) by simp_all
      from flights_do_spec [OF ok' group] obtain rt1 outcome where
        d: "flights_do ?rt ?plan query ctx result cancelled shared now = Some (rt1, outcome)" "cache_ok (rt_cache rt1)"
        and o: "\<forall>r. outcome = Answered r \<longrightarrow> shared = Answered r \<or>
          (\<exists>response. result = Inr response \<and> matchingQuestion query response = Some True \<and>
             r = response[0 := 0, 1 := 0])"
        by blast
      have "\<forall>r. outcome = Answered r \<longrightarrow> 2 \<le> length r"
        using o assms(5) matchingQuestion_True(2) [of query] by (auto dest!: matchingQuestion_True(2))
      with queryResult_spec [OF d(2), of lib ?plan query outcome now] assms(1,4) obtain rt2 answer where
        "queryResult lib rt1 ?plan query outcome now = Some (rt2, answer)" "cache_ok (rt_cache rt2)"
        "answer = [] \<or> take 2 answer = take 2 query"
        by blast
      then show ?thesis using routed(8) None d by (simp add: resolve_def)
    qed
  qed
qed

lemma u16_at_bytes: "u16_at (u16_bytes v @ rest) 0 = Some v"
  using u16_bytes_join [of v] by (simp add: u16_at_def u16_bytes_def)

lemma u16_at_bytes2: "u16_at (u16_bytes u @ u16_bytes v @ rest) 2 = Some v"
  using u16_bytes_join [of v] by (simp add: u16_at_def u16_bytes_def)

lemma response_flags:
  assumes "c < 16"
  shows "(0x8000 OR of_nat c :: u16) AND 0x8000 \<noteq> 0" "unat ((0x8000 OR of_nat c :: u16) AND 0xf) = c"
proof -
  have "c \<in> set [0..<16]" using assms by simp
  then have "((0x8000 OR of_nat c :: u16) AND 0x8000 \<noteq> 0) \<and> unat ((0x8000 OR of_nat c :: u16) AND 0xf) = c"
    unfolding upt_rec_numeral by (simp add: upt_rec) (elim disjE; simp)
  then show "(0x8000 OR of_nat c :: u16) AND 0x8000 \<noteq> 0" "unat ((0x8000 OR of_nat c :: u16) AND 0xf) = c"
    by simp_all
qed

lemma header_library_documented: "lib_documented header_library"
  unfolding lib_documented_def
proof (intro allI impI)
  fix r w assume "lib_pack header_library r = Some w"
  then have w: "w = u16_bytes (dr_Id r) @ u16_bytes (0x8000 OR of_nat (dr_Rcode r)) @ replicate 8 0" "dr_Rcode r < 16"
    by (auto simp: header_library_def split: if_splits)
  have "length w = 12" by (simp add: w(1) u16_bytes_def)
  then show "12 \<le> length w \<and> u16_at w 0 = Some (dr_Id r) \<and>
      (\<exists>f. u16_at w 2 = Some f \<and> f AND 0x8000 \<noteq> 0 \<and> unat (f AND 0xf) = dr_Rcode r)"
    using response_flags [OF w(2)] unfolding w(1) u16_at_bytes u16_at_bytes2 by auto
qed

theorem resolve_answers_with_query_id_witness:
  "\<exists>rt' answer. resolve header_library mapMembership_Match (example_runtime\<lparr>rt_servers := Map.empty\<rparr>) ''lan''
     example_query None (Inr example_answer) None (Failed ''none'') 0 = Some (rt', Inr answer) \<and>
     answer \<noteq> [] \<and> take 2 answer = [0, 7]"
proof -
  let ?rt = "example_runtime\<lparr>rt_servers := Map.empty\<rparr>"
  have reach: "cache_reach 16 65536 minute (rt_cache ?rt)"
    by (simp add: example_runtime_def reach_new)
  have group: "flights_ok (rt_flights ?rt)"
    using group_init by (auto simp: flights_ok_def example_runtime_def)
  obtain refused where r: "refusal header_library example_query False = Some refused"
    using refusal_total by blast
  moreover have "u16_at example_query 0 \<noteq> None" "u16_at example_query 2 \<noteq> None" "u16_at example_query 4 \<noteq> None"
    by (simp_all add: example_query_def u16_at_def)
  ultimately have "refused \<noteq> []"
    by (auto simp: refusal_def header_library_def Let_def u16_bytes_def example_query_def split: if_splits)
  moreover have "planQuery header_library mapMembership_Match ?rt ''lan'' example_query 0 =
      Some (?rt, Inr (local_plan refused))"
    by (simp add: planQuery_def r example_names example_runtime_def)
  then have "resolve header_library mapMembership_Match ?rt ''lan'' example_query None (Inr example_answer) None
      (Failed ''none'') 0 = Some (?rt, Inr refused)"
    by (simp add: resolve_def local_plan_def)
  moreover have "take 2 example_query = [0, 7]" "2 \<le> length example_query"
    by (simp_all add: example_query_def)
  ultimately show ?thesis
    using resolve_answers_with_query_id [OF header_library_documented reach group, of example_query
        "Failed ''none''" "''lan''" None "Inr example_answer" None 0]
    by auto
qed

text \<open>C14: A runtime that loads is safe to serve: it has at least one lane, all lane identifiers are
  distinct and found by the lane map, every lane listens on a loopback address and an unprivileged
  port, the query timeout is between 1 and 15 seconds whatever the configuration says, every
  configured server passed the validation of its type, and the cache starts empty.\<close>

theorem loaded_runtime_is_safe:
  assumes "loadRuntime ID build doc entries bytes staleTTL = Inr rt"
  shows "rt_ordered rt \<noteq> [] \<and> distinct (map ln_id (rt_ordered rt)) \<and>
    (\<forall>lane \<in> set (rt_ordered rt). rt_lanes rt (ln_id lane) = Some lane \<and>
       ln_host lane \<in> {''127.0.0.1'', ''::1''} \<and> 1024 \<le> ln_port lane \<and> ln_port lane \<le> 65535) \<and>
    second \<le> rt_timeout rt \<and> rt_timeout rt \<le> 15 * second \<and>
    (\<forall>tag u. rt_servers rt tag = Some u \<longrightarrow> (\<exists>config. newUpstream config (rt_timeout rt) = Inr u)) \<and>
    cached (rt_cache rt) = []"
proof -
  have servers: "\<forall>(tag, u) \<in> set servers. \<exists>config. newUpstream config t = Inr u"
    if "load_servers t configs = Inr servers" for t configs servers
    using that
  proof (induction configs arbitrary: servers)
    case (Cons c configs)
    then show ?case by (cases c) (fastforce split: sum.splits)
  qed simp
  have s: "runtime_lanes_ok rt" "rt_ordered rt \<noteq> []" "second \<le> rt_timeout rt" "rt_timeout rt \<le> 15 * second"
      "rt_cache rt = newResponseCache entries bytes staleTTL"
    using loadRuntime_spec [OF assms] by simp_all
  have lookup: "rt_lanes rt (ln_id lane) = Some lane" if "lane \<in> set (rt_ordered rt)" for lane
    using s(1) that by (force simp: runtime_lanes_ok_def comp_def intro!: map_of_is_SomeI)
  from assms have "rt_servers rt tag = Some u \<Longrightarrow> \<exists>config. newUpstream config (rt_timeout rt) = Inr u" for tag u
  proof (cases rule: loadRuntime_Inr)
    case (1 d raw svs shared ids)
    have "rt_servers rt = map_of svs" "rt_timeout rt = runtime_timeout (rw_TimeoutSeconds raw)"
      using load_lanes_spec [OF 1(8)] by (simp_all add: runtime_lanes_ok_def)
    then show "rt_servers rt tag = Some u \<Longrightarrow> \<exists>config. newUpstream config (rt_timeout rt) = Inr u"
      using servers [OF 1(6)] by (fastforce dest: map_of_SomeD)
  qed
  with s lookup show ?thesis
    by (auto simp: runtime_lanes_ok_def lane_listens_safely_def list_all_iff newResponseCache_def cached_def)
qed

theorem loaded_runtime_is_safe_witness:
  "\<exists>rt. loadRuntime example_ID compileMapMembership (Some example_document) 16 65536 minute = Inr rt \<and>
     second \<le> rt_timeout rt \<and> rt_timeout rt \<le> 15 * second"
proof -
  have v: "rw_Version example_raw = 2" "rw_Servers example_raw = []" "length (rw_Lanes example_raw) = 1"
    by (simp_all add: example_raw_def example_document_def example_lane_def decodeRuntimeConfig_def
        intern_rule_def maxRuntimeConfigBytes_def empty_raw_def rule_set_def Let_def)
  then obtain raw where raw: "rw_Lanes example_raw = [raw]" by (cases "rw_Lanes example_raw") auto
  have lane: "compileLaneWithSets raw (fst example_index) (snd example_index) = Inr example_compiled"
    using example_lane_compiles raw by simp
  obtain rt where rt: "loadRuntime example_ID compileMapMembership (Some example_document) 16 65536 minute = Inr rt"
    using v raw lane by (simp add: loadRuntime_def example_decoded(1) example_compiles Let_def case_prod_beta)
  then show ?thesis using loaded_runtime_is_safe [OF rt] by blast
qed

end
