(* ===== verification/Dns_Admission.thy ===== *)
theory Dns_Admission
  imports Gateway_Prelude "HOL-Library.Multiset"
begin

text \<open>
  Admission of queries to the policy DNS service, \<^verbatim>\<open>internal/policydns/admission.go\<close> with the
  semaphores of \<^verbatim>\<open>internal/policydns/server.go\<close>: bounds on the wire bytes retained, on shared
  queries, on running and on queued exchanges, globally and for each upstream profile.

  A query is handled by its own goroutine, from \<open>admitQuery\<close> to the end of \<open>resolveAdmitted\<close>. Its
  program is written as phases; \<open>advance\<close> is one step of it, one access to the shared state
  each, and \<open>adm_step\<close> interleaves the steps of any number of queries. Single flights
  (theory \<open>Dns_Flights\<close>) and the context only matter here for which branch a goroutine
  takes, so their outcome is the \<open>choice\<close> of a step.
\<close>

section \<open>The service\<close>

abbreviation maxDNSMessage :: int where "maxDNSMessage \<equiv> 65535"

record routeBudget =
  rb_active :: channel
  rb_pending :: channel
  rb_shared :: int
  rb_bytes :: int

record service =
  sv_limit :: channel
  sv_pending :: channel
  sv_tcpLimit :: channel
  sv_queryBytes :: int
  sv_sharedQueries :: int
  sv_routes :: "string \<rightharpoonup> routeBudget"

text \<open>The service that \<open>Serve\<close> starts with.\<close>

definition new_service :: "nat \<Rightarrow> nat \<Rightarrow> service" where
  "new_service workers tcpSessions =
     \<lparr>sv_limit = make_chan workers, sv_pending = make_chan (workers * 4), sv_tcpLimit = make_chan tcpSessions,
      sv_queryBytes = 0, sv_sharedQueries = 0, sv_routes = Map.empty\<rparr>"

definition acquire :: "service \<Rightarrow> service \<times> bool" where
  "acquire sv = (let (c, ok) = chan_try_send (sv_limit sv) in (sv\<lparr>sv_limit := c\<rparr>, ok))"

definition release :: "service \<Rightarrow> service go" where
  "release sv = do { c \<leftarrow> chan_recv (sv_limit sv); Some (sv\<lparr>sv_limit := c\<rparr>) }"

definition acquireTCP :: "service \<Rightarrow> service \<times> bool" where
  "acquireTCP sv = (let (c, ok) = chan_try_send (sv_tcpLimit sv) in (sv\<lparr>sv_tcpLimit := c\<rparr>, ok))"

definition releaseTCP :: "service \<Rightarrow> service go" where
  "releaseTCP sv = do { c \<leftarrow> chan_recv (sv_tcpLimit sv); Some (sv\<lparr>sv_tcpLimit := c\<rparr>) }"

definition workers :: "service \<Rightarrow> nat" where
  "workers sv = ch_cap (sv_limit sv)"

definition routeLimit :: "service \<Rightarrow> string \<Rightarrow> nat \<Rightarrow> service \<times> string option" where
  "routeLimit sv tag profiles =
     (if profiles < 2 \<or> workers sv < 2 then (sv, None)
      else if sv_routes sv tag = None
      then (sv\<lparr>sv_routes := (sv_routes sv)(tag \<mapsto>
              \<lparr>rb_active = make_chan (max 1 (workers sv div 2)),
               rb_pending = make_chan (max 1 (ch_cap (sv_pending sv) div 2)),
               rb_shared = 0, rb_bytes = 0\<rparr>)\<rparr>, Some tag)
      else (sv, Some tag))"

text \<open>Operations on the budget behind a route pointer; a nil budget where the code dereferences it is
  a panic. \<open>tryRoute\<close> and \<open>releaseRoute\<close> accept a nil route.\<close>

definition update_route :: "service \<Rightarrow> string \<Rightarrow> routeBudget \<Rightarrow> service" where
  "update_route sv tag rb = sv\<lparr>sv_routes := (sv_routes sv)(tag \<mapsto> rb)\<rparr>"

definition try_active :: "service \<Rightarrow> string option \<Rightarrow> (service \<times> bool) go" where
  "try_active sv route = (case route of
     None \<Rightarrow> Some (sv, True)
   | Some tag \<Rightarrow> do {
       rb \<leftarrow> sv_routes sv tag;
       let (c, ok) = chan_try_send (rb_active rb);
       Some (update_route sv tag (rb\<lparr>rb_active := c\<rparr>), ok)
     })"

definition try_pending_route :: "service \<Rightarrow> string option \<Rightarrow> (service \<times> bool) go" where
  "try_pending_route sv route = (case route of
     None \<Rightarrow> Some (sv, True)
   | Some tag \<Rightarrow> do {
       rb \<leftarrow> sv_routes sv tag;
       let (c, ok) = chan_try_send (rb_pending rb);
       Some (update_route sv tag (rb\<lparr>rb_pending := c\<rparr>), ok)
     })"

definition release_active :: "service \<Rightarrow> string option \<Rightarrow> service go" where
  "release_active sv route = (case route of
     None \<Rightarrow> Some sv
   | Some tag \<Rightarrow> do {
       rb \<leftarrow> sv_routes sv tag;
       c \<leftarrow> chan_recv (rb_active rb);
       Some (update_route sv tag (rb\<lparr>rb_active := c\<rparr>))
     })"

definition release_pending_route :: "service \<Rightarrow> string option \<Rightarrow> service go" where
  "release_pending_route sv route = (case route of
     None \<Rightarrow> Some sv
   | Some tag \<Rightarrow> do {
       rb \<leftarrow> sv_routes sv tag;
       c \<leftarrow> chan_recv (rb_pending rb);
       Some (update_route sv tag (rb\<lparr>rb_pending := c\<rparr>))
     })"

definition try_pending :: "service \<Rightarrow> service \<times> bool" where
  "try_pending sv = (let (c, ok) = chan_try_send (sv_pending sv) in (sv\<lparr>sv_pending := c\<rparr>, ok))"

definition recv_pending :: "service \<Rightarrow> service go" where
  "recv_pending sv = do { c \<leftarrow> chan_recv (sv_pending sv); Some (sv\<lparr>sv_pending := c\<rparr>) }"

text \<open>The reservation of wire bytes in \<open>admitQuery\<close> and its undoing \<open>returnBytes\<close>.\<close>

definition reserve_bytes :: "service \<Rightarrow> string option \<Rightarrow> int \<Rightarrow> (service \<times> bool) go" where
  "reserve_bytes sv route len =
     (let full = int (max 1 (workers sv)) * maxDNSMessage < sv_queryBytes sv + len in
      case route of
        None \<Rightarrow> if full then Some (sv, False)
                else Some (sv\<lparr>sv_queryBytes := sv_queryBytes sv + len\<rparr>, True)
      | Some tag \<Rightarrow> do {
          rb \<leftarrow> sv_routes sv tag;
          if full \<or> int (max 1 (workers sv div 2)) * maxDNSMessage < rb_bytes rb + len then Some (sv, False)
          else Some (update_route (sv\<lparr>sv_queryBytes := sv_queryBytes sv + len\<rparr>) tag
                       (rb\<lparr>rb_bytes := rb_bytes rb + len\<rparr>), True)
        })"

definition returnBytes :: "service \<Rightarrow> string option \<Rightarrow> int \<Rightarrow> service go" where
  "returnBytes sv route len =
     (let sv = sv\<lparr>sv_queryBytes := sv_queryBytes sv - len\<rparr> in
      case route of
        None \<Rightarrow> Some sv
      | Some tag \<Rightarrow> do {
          rb \<leftarrow> sv_routes sv tag;
          Some (update_route sv tag (rb\<lparr>rb_bytes := rb_bytes rb - len\<rparr>))
        })"

text \<open>The slot of a query that joins a flight of another query.\<close>

definition share_query :: "service \<Rightarrow> string option \<Rightarrow> (service \<times> bool) go" where
  "share_query sv route =
     (let room = (sv_sharedQueries sv < int (max 1 (workers sv)) * 4) in
      case route of
        None \<Rightarrow> if room then Some (sv\<lparr>sv_sharedQueries := sv_sharedQueries sv + 1\<rparr>, True) else Some (sv, False)
      | Some tag \<Rightarrow> do {
          rb \<leftarrow> sv_routes sv tag;
          if room \<and> rb_shared rb < int (workers sv) * 3
          then Some (update_route (sv\<lparr>sv_sharedQueries := sv_sharedQueries sv + 1\<rparr>) tag
                       (rb\<lparr>rb_shared := rb_shared rb + 1\<rparr>), True)
          else Some (sv, False)
        })"

definition unshare_query :: "service \<Rightarrow> string option \<Rightarrow> service go" where
  "unshare_query sv route =
     (let sv = sv\<lparr>sv_sharedQueries := sv_sharedQueries sv - 1\<rparr> in
      case route of
        None \<Rightarrow> Some sv
      | Some tag \<Rightarrow> do {
          rb \<leftarrow> sv_routes sv tag;
          Some (update_route sv tag (rb\<lparr>rb_shared := rb_shared rb - 1\<rparr>))
        })"

text \<open>The work slots and the TCP session slots obey the contract of a counting semaphore.\<close>

interpretation work: semaphore acquire release "\<lambda>sv. ch_len (sv_limit sv)" "\<lambda>sv. ch_cap (sv_limit sv)"
  by unfold_locales (auto simp: acquire_def release_def chan_try_send_def chan_recv_def split: if_splits)

interpretation sessions: semaphore acquireTCP releaseTCP "\<lambda>sv. ch_len (sv_tcpLimit sv)" "\<lambda>sv. ch_cap (sv_tcpLimit sv)"
  by unfold_locales (auto simp: acquireTCP_def releaseTCP_def chan_try_send_def chan_recv_def split: if_splits)

section \<open>The program of a query\<close>

record query_info =
  qi_route :: "string option"
  qi_len :: nat

datatype phase =
    Reserve | Begin | Join | Shared
  | TryActive | TryWork | DropActive | TryPendingRoute | TryPending | DropPendingRoute
  | Queued | QueuedActive | QueuedDrop | Unqueue bool | UnqueueRoute bool
  | Working | ReleaseActive | Finish | Return | Done

text \<open>What the rest of the program decides at a step: the outcome of \<open>flights.begin\<close>, and whether the
  context is done where a \<open>select\<close> waits for it.\<close>

datatype choice = Owner | Joined | Refused | CtxDone | Proceed

definition advance :: "choice \<Rightarrow> query_info \<Rightarrow> service \<Rightarrow> phase \<Rightarrow> (service \<times> phase) go" where
  "advance ch q sv p =
     (let route = qi_route q; len = int (qi_len q) in
      case p of
        Reserve \<Rightarrow> do { (sv, ok) \<leftarrow> reserve_bytes sv route len; Some (sv, if ok then Begin else Done) }
      | Begin \<Rightarrow> Some (sv, case ch of Owner \<Rightarrow> TryActive | Joined \<Rightarrow> Join | _ \<Rightarrow> Return)
      | Join \<Rightarrow> do { (sv, ok) \<leftarrow> share_query sv route; Some (sv, if ok then Shared else Return) }
      | Shared \<Rightarrow> do { sv \<leftarrow> unshare_query sv route; Some (sv, Return) }
      | TryActive \<Rightarrow> do { (sv, ok) \<leftarrow> try_active sv route; Some (sv, if ok then TryWork else TryPendingRoute) }
      | TryWork \<Rightarrow> (let (sv, ok) = acquire sv in Some (sv, if ok then Working else DropActive))
      | DropActive \<Rightarrow> do { sv \<leftarrow> release_active sv route; Some (sv, TryPendingRoute) }
      | TryPendingRoute \<Rightarrow> do { (sv, ok) \<leftarrow> try_pending_route sv route; Some (sv, if ok then TryPending else Finish) }
      | TryPending \<Rightarrow> (let (sv, ok) = try_pending sv in Some (sv, if ok then Queued else DropPendingRoute))
      | DropPendingRoute \<Rightarrow> do { sv \<leftarrow> release_pending_route sv route; Some (sv, Finish) }
      | Queued \<Rightarrow>
          if ch = CtxDone \<and> route \<noteq> None then Some (sv, Unqueue False)
          else do { (sv, ok) \<leftarrow> try_active sv route; if ok then Some (sv, QueuedActive) else None }
      | QueuedActive \<Rightarrow>
          if ch = CtxDone then Some (sv, QueuedDrop)
          else (let (sv, ok) = acquire sv in if ok then Some (sv, Unqueue True) else None)
      | QueuedDrop \<Rightarrow> do { sv \<leftarrow> release_active sv route; Some (sv, Unqueue False) }
      | Unqueue acquired \<Rightarrow> do { sv \<leftarrow> recv_pending sv; Some (sv, UnqueueRoute acquired) }
      | UnqueueRoute acquired \<Rightarrow> do {
          sv \<leftarrow> release_pending_route sv route;
          Some (sv, if acquired then Working else Finish)
        }
      | Working \<Rightarrow> do { sv \<leftarrow> release sv; Some (sv, ReleaseActive) }
      | ReleaseActive \<Rightarrow> do { sv \<leftarrow> release_active sv route; Some (sv, Finish) }
      | Finish \<Rightarrow> Some (sv, Return)
      | Return \<Rightarrow> do { sv \<leftarrow> returnBytes sv route len; Some (sv, Done) }
      | Done \<Rightarrow> None)"

text \<open>A step that is \<open>None\<close> at \<open>Queued\<close> and \<open>QueuedActive\<close> is a goroutine that waits.\<close>

record adm_state =
  as_service :: service
  as_queries :: "(query_info \<times> phase) list"

inductive adm_step :: "adm_state \<Rightarrow> adm_state \<Rightarrow> bool" where
  adm_arrive: "routeLimit (as_service s) tag profiles = (sv, route) \<Longrightarrow> int len \<le> maxDNSMessage \<Longrightarrow>
    adm_step s \<lparr>as_service = sv,
      as_queries = (\<lparr>qi_route = route, qi_len = len\<rparr>, Reserve) # as_queries s\<rparr>"
| adm_advance: "as_queries s = xs @ (q, p) # ys \<Longrightarrow> advance ch q (as_service s) p = Some (sv, p') \<Longrightarrow>
    adm_step s \<lparr>as_service = sv, as_queries = xs @ (q, p') # ys\<rparr>"

inductive adm_reach :: "nat \<Rightarrow> nat \<Rightarrow> adm_state \<Rightarrow> bool" for n tcp where
  adm_init: "adm_reach n tcp \<lparr>as_service = new_service n tcp, as_queries = []\<rparr>"
| adm_next: "adm_reach n tcp s \<Longrightarrow> adm_step s s' \<Longrightarrow> adm_reach n tcp s'"

inductive_cases adm_stepE: "adm_step s s'"

section \<open>Accounting\<close>

text \<open>
  The bounded resources, how much of each a query in a phase holds, how much the service
  counts as given out, and how much it may give out.
\<close>

datatype resource =
    Bytes | Workers | PendingSlots | SharedSlots
  | RouteBytes string | RouteWorkers string | RoutePending string | RouteShared string

definition holds_bytes :: "phase \<Rightarrow> bool" where
  "holds_bytes p \<longleftrightarrow> p \<notin> {Reserve, Done}"

definition holds_worker :: "phase \<Rightarrow> bool" where
  "holds_worker p \<longleftrightarrow> p \<in> {Unqueue True, UnqueueRoute True, Working}"

definition holds_pending :: "phase \<Rightarrow> bool" where
  "holds_pending p \<longleftrightarrow> p \<in> {Queued, QueuedActive, QueuedDrop, Unqueue True, Unqueue False}"

definition holds_active :: "phase \<Rightarrow> bool" where
  "holds_active p \<longleftrightarrow> p \<in> {TryWork, DropActive, QueuedActive, QueuedDrop, ReleaseActive} \<or> holds_worker p"

definition holds_route_pending :: "phase \<Rightarrow> bool" where
  "holds_route_pending p \<longleftrightarrow>
     p \<in> {TryPending, DropPendingRoute, UnqueueRoute True, UnqueueRoute False} \<or> holds_pending p"

lemmas holds_defs = holds_bytes_def holds_worker_def holds_pending_def holds_active_def holds_route_pending_def

fun use :: "query_info \<times> phase \<Rightarrow> resource \<Rightarrow> int" where
  "use (q, p) Bytes = (if holds_bytes p then int (qi_len q) else 0)"
| "use (q, p) Workers = of_bool (holds_worker p)"
| "use (q, p) PendingSlots = of_bool (holds_pending p)"
| "use (q, p) SharedSlots = of_bool (p = Shared)"
| "use (q, p) (RouteBytes tag) = (if qi_route q = Some tag \<and> holds_bytes p then int (qi_len q) else 0)"
| "use (q, p) (RouteWorkers tag) = of_bool (qi_route q = Some tag \<and> holds_active p)"
| "use (q, p) (RoutePending tag) = of_bool (qi_route q = Some tag \<and> holds_route_pending p)"
| "use (q, p) (RouteShared tag) = of_bool (qi_route q = Some tag \<and> p = Shared)"

definition of_route :: "service \<Rightarrow> string \<Rightarrow> (routeBudget \<Rightarrow> int) \<Rightarrow> int" where
  "of_route sv tag f = (case sv_routes sv tag of None \<Rightarrow> 0 | Some rb \<Rightarrow> f rb)"

fun level :: "service \<Rightarrow> resource \<Rightarrow> int" where
  "level sv Bytes = sv_queryBytes sv"
| "level sv Workers = int (ch_len (sv_limit sv))"
| "level sv PendingSlots = int (ch_len (sv_pending sv))"
| "level sv SharedSlots = sv_sharedQueries sv"
| "level sv (RouteBytes tag) = of_route sv tag rb_bytes"
| "level sv (RouteWorkers tag) = of_route sv tag (\<lambda>rb. int (ch_len (rb_active rb)))"
| "level sv (RoutePending tag) = of_route sv tag (\<lambda>rb. int (ch_len (rb_pending rb)))"
| "level sv (RouteShared tag) = of_route sv tag rb_shared"

text \<open>The bounds for a service with \<open>n\<close> workers.\<close>

fun quota :: "nat \<Rightarrow> resource \<Rightarrow> int" where
  "quota n Bytes = int (max 1 n) * maxDNSMessage"
| "quota n Workers = int n"
| "quota n PendingSlots = int n * 4"
| "quota n SharedSlots = int (max 1 n) * 4"
| "quota n (RouteBytes tag) = int (max 1 (n div 2)) * maxDNSMessage"
| "quota n (RouteWorkers tag) = int (max 1 (n div 2))"
| "quota n (RoutePending tag) = int (max 1 (n * 4 div 2))"
| "quota n (RouteShared tag) = int n * 3"

definition capacities :: "nat \<Rightarrow> service \<Rightarrow> bool" where
  "capacities n sv \<longleftrightarrow> ch_cap (sv_limit sv) = n \<and> ch_cap (sv_pending sv) = n * 4 \<and>
     (\<forall>tag rb. sv_routes sv tag = Some rb \<longrightarrow>
        ch_cap (rb_active rb) = max 1 (n div 2) \<and> ch_cap (rb_pending rb) = max 1 (n * 4 div 2))"

definition route_known :: "service \<Rightarrow> query_info \<Rightarrow> bool" where
  "route_known sv q \<longleftrightarrow> (\<forall>tag. qi_route q = Some tag \<longrightarrow> sv_routes sv tag \<noteq> None)"

lemma use_nonneg [simp]: "0 \<le> use qp r"
  by (cases qp; cases r) auto

text \<open>How the operations change the counts: \<open>draw route n global profile\<close> is \<open>n\<close> units of a
  service-wide resource and of the resource of the profile, each where there is one.\<close>

definition draw :: "string option \<Rightarrow> int \<Rightarrow> resource option \<Rightarrow> (string \<Rightarrow> resource) option \<Rightarrow> resource \<Rightarrow> int" where
  "draw route n service_wide profile r =
     (if Some r = service_wide \<or> (\<exists>f tag. profile = Some f \<and> route = Some tag \<and> r = f tag) then n else 0)"

lemma reserve_bytes_level:
  "reserve_bytes sv route n = Some (sv', ok) \<Longrightarrow>
   level sv' r = level sv r + (if ok then draw route n (Some Bytes) (Some RouteBytes) r else 0)"
  by (cases r; cases route)
    (auto simp: reserve_bytes_def draw_def update_route_def of_route_def Let_def split: if_splits)

lemma returnBytes_level:
  "returnBytes sv route n = Some sv' \<Longrightarrow>
   level sv' r = level sv r - draw route n (Some Bytes) (Some RouteBytes) r"
  by (cases r; cases route)
    (auto simp: returnBytes_def draw_def update_route_def of_route_def Let_def split: if_splits)

lemma share_query_level:
  "share_query sv route = Some (sv', ok) \<Longrightarrow>
   level sv' r = level sv r + (if ok then draw route 1 (Some SharedSlots) (Some RouteShared) r else 0)"
  by (cases r; cases route)
    (auto simp: share_query_def draw_def update_route_def of_route_def Let_def split: if_splits)

lemma unshare_query_level:
  "unshare_query sv route = Some sv' \<Longrightarrow>
   level sv' r = level sv r - draw route 1 (Some SharedSlots) (Some RouteShared) r"
  by (cases r; cases route)
    (auto simp: unshare_query_def draw_def update_route_def of_route_def Let_def split: if_splits)

lemma acquire_level:
  "acquire sv = (sv', ok) \<Longrightarrow> level sv' r = level sv r + (if ok then draw route 1 (Some Workers) None r else 0)"
  by (cases r) (auto simp: acquire_def chan_try_send_def draw_def of_route_def split: if_splits)

lemma release_level:
  "release sv = Some sv' \<Longrightarrow> level sv' r = level sv r - draw route 1 (Some Workers) None r"
  by (cases r) (auto simp: release_def chan_recv_def draw_def of_route_def split: if_splits)

lemma try_pending_level:
  "try_pending sv = (sv', ok) \<Longrightarrow>
   level sv' r = level sv r + (if ok then draw route 1 (Some PendingSlots) None r else 0)"
  by (cases r) (auto simp: try_pending_def chan_try_send_def draw_def of_route_def split: if_splits)

lemma recv_pending_level:
  "recv_pending sv = Some sv' \<Longrightarrow> level sv' r = level sv r - draw route 1 (Some PendingSlots) None r"
  by (cases r) (auto simp: recv_pending_def chan_recv_def draw_def of_route_def split: if_splits)

lemma try_active_level:
  "try_active sv route = Some (sv', ok) \<Longrightarrow>
   level sv' r = level sv r + (if ok then draw route 1 None (Some RouteWorkers) r else 0)"
  by (cases r; cases route)
    (auto simp: try_active_def chan_try_send_def draw_def update_route_def of_route_def Let_def split: if_splits)

lemma release_active_level:
  "release_active sv route = Some sv' \<Longrightarrow> level sv' r = level sv r - draw route 1 None (Some RouteWorkers) r"
  by (cases r; cases route)
    (auto simp: release_active_def chan_recv_def draw_def update_route_def of_route_def split: if_splits)

lemma try_pending_route_level:
  "try_pending_route sv route = Some (sv', ok) \<Longrightarrow>
   level sv' r = level sv r + (if ok then draw route 1 None (Some RoutePending) r else 0)"
  by (cases r; cases route)
    (auto simp: try_pending_route_def chan_try_send_def draw_def update_route_def of_route_def Let_def split: if_splits)

lemma release_pending_route_level:
  "release_pending_route sv route = Some sv' \<Longrightarrow>
   level sv' r = level sv r - draw route 1 None (Some RoutePending) r"
  by (cases r; cases route)
    (auto simp: release_pending_route_def chan_recv_def draw_def update_route_def of_route_def split: if_splits)

lemmas level_changes = reserve_bytes_level returnBytes_level share_query_level unshare_query_level
  acquire_level release_level try_pending_level recv_pending_level try_active_level release_active_level
  try_pending_route_level release_pending_route_level

text \<open>What the phases hold, in the same terms.\<close>

lemma use_draw:
  "use (q, p) r =
     (if holds_bytes p then draw (qi_route q) (int (qi_len q)) (Some Bytes) (Some RouteBytes) r else 0) +
     (if holds_worker p then draw (qi_route q) 1 (Some Workers) None r else 0) +
     (if holds_pending p then draw (qi_route q) 1 (Some PendingSlots) None r else 0) +
     (if holds_active p then draw (qi_route q) 1 None (Some RouteWorkers) r else 0) +
     (if holds_route_pending p then draw (qi_route q) 1 None (Some RoutePending) r else 0) +
     (if p = Shared then draw (qi_route q) 1 (Some SharedSlots) (Some RouteShared) r else 0)"
  by (cases r) (simp_all add: draw_def)

text \<open>A step changes the count of every resource by exactly what the query takes or gives back.\<close>

lemma advance_level:
  assumes "advance ch q sv p = Some (sv', p')"
  shows "level sv' r = level sv r + use (q, p') r - use (q, p) r"
  using assms unfolding use_draw
  by (cases p)
    (auto simp: advance_def holds_defs Let_def split: if_splits choice.splits prod.splits
      dest!: level_changes [where r = r and route = "qi_route q"] level_changes [where r = r])

text \<open>Every operation keeps the capacities and the set of profiles with a budget.\<close>

definition shape :: "service \<Rightarrow> nat \<times> nat \<times> (string \<Rightarrow> (nat \<times> nat) option)" where
  "shape sv = (ch_cap (sv_limit sv), ch_cap (sv_pending sv),
     \<lambda>tag. map_option (\<lambda>rb. (ch_cap (rb_active rb), ch_cap (rb_pending rb))) (sv_routes sv tag))"

lemma shape_changes:
  "reserve_bytes sv route n = Some (sv', ok) \<Longrightarrow> shape sv' = shape sv"
  "returnBytes sv route n = Some sv' \<Longrightarrow> shape sv' = shape sv"
  "share_query sv route = Some (sv', ok) \<Longrightarrow> shape sv' = shape sv"
  "unshare_query sv route = Some sv' \<Longrightarrow> shape sv' = shape sv"
  "acquire sv = (sv', ok) \<Longrightarrow> shape sv' = shape sv"
  "release sv = Some sv' \<Longrightarrow> shape sv' = shape sv"
  "try_pending sv = (sv', ok) \<Longrightarrow> shape sv' = shape sv"
  "recv_pending sv = Some sv' \<Longrightarrow> shape sv' = shape sv"
  "try_active sv route = Some (sv', ok) \<Longrightarrow> shape sv' = shape sv"
  "release_active sv route = Some sv' \<Longrightarrow> shape sv' = shape sv"
  "try_pending_route sv route = Some (sv', ok) \<Longrightarrow> shape sv' = shape sv"
  "release_pending_route sv route = Some sv' \<Longrightarrow> shape sv' = shape sv"
  by (cases route; auto simp: shape_def fun_eq_iff reserve_bytes_def returnBytes_def share_query_def
    unshare_query_def acquire_def release_def try_pending_def recv_pending_def try_active_def
    release_active_def try_pending_route_def release_pending_route_def update_route_def
    chan_try_send_def chan_recv_def Let_def split: if_splits)+

lemma advance_shape: "advance ch q sv p = Some (sv', p') \<Longrightarrow> shape sv' = shape sv"
  by (cases p)
    (auto simp: advance_def Let_def split: if_splits choice.splits prod.splits dest!: shape_changes)

lemma capacities_shape: "shape sv' = shape sv \<Longrightarrow> capacities n sv' \<longleftrightarrow> capacities n sv"
proof -
  have "capacities n sv \<longleftrightarrow> fst (shape sv) = n \<and> fst (snd (shape sv)) = n * 4 \<and>
      (\<forall>tag a b. snd (snd (shape sv)) tag = Some (a, b) \<longrightarrow> a = max 1 (n div 2) \<and> b = max 1 (n * 4 div 2))" for sv
    by (auto simp: capacities_def shape_def)
  then show "shape sv' = shape sv \<Longrightarrow> ?thesis" by simp
qed

lemma route_known_shape: "shape sv' = shape sv \<Longrightarrow> route_known sv' q \<longleftrightarrow> route_known sv q"
proof -
  have "route_known sv q \<longleftrightarrow> (\<forall>tag. qi_route q = Some tag \<longrightarrow> snd (snd (shape sv)) tag \<noteq> None)" for sv
    by (auto simp: route_known_def shape_def)
  then show "shape sv' = shape sv \<Longrightarrow> ?thesis" by simp
qed

text \<open>An operation that takes from a resource checks its bound first.\<close>

definition in_quota :: "nat \<Rightarrow> service \<Rightarrow> bool" where
  "in_quota n sv \<longleftrightarrow> capacities n sv \<and> (\<forall>r. level sv r \<le> quota n r)"

lemma in_quota_grant:
  assumes "in_quota n sv" and "shape sv' = shape sv"
    and "\<And>r. level sv' r = level sv r + (if ok then draw route k g f r else 0)"
    and "\<And>r. ok \<Longrightarrow> draw route k g f r \<noteq> 0 \<Longrightarrow> level sv' r \<le> quota n r"
  shows "in_quota n sv'"
proof -
  have "level sv' r \<le> quota n r" for r
    using assms(1) assms(3,4) [of r] by (cases "ok \<and> draw route k g f r \<noteq> 0") (auto simp: in_quota_def)
  then show ?thesis using assms(1) capacities_shape [OF assms(2)] by (simp add: in_quota_def)
qed

lemma in_quota_return:
  assumes "in_quota n sv" and "shape sv' = shape sv"
    and "\<And>r. level sv' r = level sv r - draw route k g f r" and "0 \<le> k"
  shows "in_quota n sv'"
proof -
  have "0 \<le> draw route k g f r" for r using assms(4) by (simp add: draw_def)
  then have "level sv' r \<le> quota n r" for r
    using assms(1) by (simp add: assms(3) in_quota_def) (meson add_increasing2 diff_le_eq)
  then show ?thesis using assms(1) capacities_shape [OF assms(2)] by (simp add: in_quota_def)
qed

lemma in_quota_reserve:
  assumes "in_quota n sv" and "reserve_bytes sv route k = Some (sv', ok)" shows "in_quota n sv'"
proof (rule in_quota_grant [OF assms(1) shape_changes(1) [OF assms(2)] reserve_bytes_level [OF assms(2)]])
  fix r assume "ok" and "draw route k (Some Bytes) (Some RouteBytes) r \<noteq> 0"
  then show "level sv' r \<le> quota n r"
    using assms by (cases r; cases route) (auto simp: in_quota_def capacities_def reserve_bytes_def draw_def
      workers_def update_route_def of_route_def Let_def split: if_splits)
qed

lemma in_quota_share:
  assumes "in_quota n sv" and "share_query sv route = Some (sv', ok)" shows "in_quota n sv'"
proof (rule in_quota_grant [OF assms(1) shape_changes(3) [OF assms(2)] share_query_level [OF assms(2)]])
  fix r assume "ok" and "draw route 1 (Some SharedSlots) (Some RouteShared) r \<noteq> 0"
  then show "level sv' r \<le> quota n r"
    using assms by (cases r; cases route) (auto simp: in_quota_def capacities_def share_query_def draw_def
      workers_def update_route_def of_route_def Let_def split: if_splits)
qed

lemma in_quota_acquire:
  assumes "in_quota n sv" and "acquire sv = (sv', ok)" shows "in_quota n sv'"
proof (rule in_quota_grant [OF assms(1) shape_changes(5) [OF assms(2)] acquire_level [OF assms(2), where route = None]])
  fix r assume "ok" and "draw None 1 (Some Workers) None r \<noteq> 0"
  then show "level sv' r \<le> quota n r"
    using assms by (auto simp: in_quota_def capacities_def acquire_def chan_try_send_def draw_def split: if_splits)
qed

lemma in_quota_try_pending:
  assumes "in_quota n sv" and "try_pending sv = (sv', ok)" shows "in_quota n sv'"
proof (rule in_quota_grant [OF assms(1) shape_changes(7) [OF assms(2)] try_pending_level [OF assms(2), where route = None]])
  fix r assume "ok" and "draw None 1 (Some PendingSlots) None r \<noteq> 0"
  then show "level sv' r \<le> quota n r"
    using assms by (auto simp: in_quota_def capacities_def try_pending_def chan_try_send_def draw_def split: if_splits)
qed

lemma in_quota_try_active:
  assumes "in_quota n sv" and "try_active sv route = Some (sv', ok)" shows "in_quota n sv'"
proof (rule in_quota_grant [OF assms(1) shape_changes(9) [OF assms(2)] try_active_level [OF assms(2)]])
  fix r assume "ok" and "draw route 1 None (Some RouteWorkers) r \<noteq> 0"
  then show "level sv' r \<le> quota n r"
    using assms by (cases route) (auto simp: in_quota_def capacities_def try_active_def chan_try_send_def draw_def
      update_route_def of_route_def split: if_splits)
qed

lemma in_quota_try_pending_route:
  assumes "in_quota n sv" and "try_pending_route sv route = Some (sv', ok)" shows "in_quota n sv'"
proof (rule in_quota_grant [OF assms(1) shape_changes(11) [OF assms(2)] try_pending_route_level [OF assms(2)]])
  fix r assume "ok" and "draw route 1 None (Some RoutePending) r \<noteq> 0"
  then show "level sv' r \<le> quota n r"
    using assms by (cases route) (auto simp: in_quota_def capacities_def try_pending_route_def chan_try_send_def draw_def
      update_route_def of_route_def split: if_splits)
qed

lemma in_quota_releases:
  assumes "in_quota n sv"
  shows "returnBytes sv route (int k) = Some sv' \<Longrightarrow> in_quota n sv'"
    and "unshare_query sv route = Some sv' \<Longrightarrow> in_quota n sv'"
    and "release sv = Some sv' \<Longrightarrow> in_quota n sv'"
    and "recv_pending sv = Some sv' \<Longrightarrow> in_quota n sv'"
    and "release_active sv route = Some sv' \<Longrightarrow> in_quota n sv'"
    and "release_pending_route sv route = Some sv' \<Longrightarrow> in_quota n sv'"
  using in_quota_return [OF assms shape_changes(2) returnBytes_level]
    in_quota_return [OF assms shape_changes(4) unshare_query_level]
    in_quota_return [OF assms shape_changes(6) release_level]
    in_quota_return [OF assms shape_changes(8) recv_pending_level]
    in_quota_return [OF assms shape_changes(10) release_active_level]
    in_quota_return [OF assms shape_changes(12) release_pending_route_level]
  by (simp_all add: zero_le_one)

lemma advance_in_quota:
  assumes "in_quota n sv" and "advance ch q sv p = Some (sv', p')"
  shows "in_quota n sv'"
  using assms
  by (cases p)
    (auto simp: advance_def Let_def split: if_splits choice.splits prod.splits
      dest: in_quota_reserve in_quota_share in_quota_acquire in_quota_try_pending in_quota_try_active
        in_quota_try_pending_route in_quota_releases)

section \<open>Invariant\<close>

definition total_use :: "(query_info \<times> phase) list \<Rightarrow> resource \<Rightarrow> int" where
  "total_use qs r = sum_list (map (\<lambda>qp. use qp r) qs)"

definition adm_ok :: "nat \<Rightarrow> adm_state \<Rightarrow> bool" where
  "adm_ok n s \<longleftrightarrow> in_quota n (as_service s) \<and>
     (\<forall>r. level (as_service s) r = total_use (as_queries s) r) \<and>
     (\<forall>(q, p) \<in> set (as_queries s). route_known (as_service s) q)"

lemma routeLimit_keeps:
  assumes "routeLimit sv tag profiles = (sv', route)" and "in_quota n sv"
  shows "in_quota n sv'" "level sv' r = level sv r" "route_known sv q \<Longrightarrow> route_known sv' q"
    "qi_route q = route \<Longrightarrow> route_known sv' q"
proof -
  have level: "level sv' r = level sv r" for r
    using assms(1) by (cases r) (auto simp: routeLimit_def of_route_def split: if_splits option.splits)
  show "level sv' r = level sv r" by (rule level)
  have "capacities n sv'"
    using assms by (auto simp: routeLimit_def capacities_def in_quota_def workers_def split: if_splits)
  then show "in_quota n sv'" using assms(2) level by (simp add: in_quota_def)
  show "route_known sv q \<Longrightarrow> route_known sv' q" "qi_route q = route \<Longrightarrow> route_known sv' q"
    using assms(1) by (auto simp: routeLimit_def route_known_def split: if_splits)
qed

lemma adm_step_ok:
  assumes "adm_ok n s" and "adm_step s s'" shows "adm_ok n s'"
  using assms(2)
proof (cases rule: adm_step.cases)
  case (adm_arrive tag profiles sv route len)
  note keep = routeLimit_keeps [OF adm_arrive(2)]
  have "use (q, Reserve) r = 0" for q r by (cases r) (simp_all add: holds_defs)
  with assms(1) adm_arrive(1) show ?thesis
    by (auto simp: adm_ok_def total_use_def keep)
next
  case (adm_advance xs q p ys ch sv p')
  note shape = advance_shape [OF adm_advance(3)]
  have "in_quota n sv" using assms(1) advance_in_quota [OF _ adm_advance(3)] by (simp add: adm_ok_def)
  moreover have "level sv r = total_use (xs @ (q, p') # ys) r" for r
    using assms(1) advance_level [OF adm_advance(3), of r] adm_advance(2)
    by (simp add: adm_ok_def total_use_def)
  moreover have "route_known sv x = route_known (as_service s) x" for x
    by (rule route_known_shape [OF shape])
  ultimately show ?thesis using assms(1) adm_advance(1,2) by (auto simp: adm_ok_def)
qed

lemma new_service_ok: "adm_ok n \<lparr>as_service = new_service n tcp, as_queries = []\<rparr>"
proof -
  have "level (new_service n tcp) r = 0" for r by (cases r) (simp_all add: new_service_def of_route_def)
  moreover have "0 \<le> quota n r" for r by (cases r) auto
  moreover have "capacities n (new_service n tcp)" by (simp add: capacities_def new_service_def)
  ultimately show ?thesis by (simp add: adm_ok_def in_quota_def total_use_def)
qed

lemma adm_reach_ok: "adm_reach n tcp s \<Longrightarrow> adm_ok n s"
  by (induction rule: adm_reach.induct) (simp_all add: new_service_ok adm_step_ok)

section \<open>Progress\<close>

text \<open>How many steps a query has left at most.\<close>

fun rank :: "phase \<Rightarrow> nat" where
  "rank Reserve = 16" | "rank Begin = 15" | "rank Join = 3" | "rank Shared = 2"
| "rank TryActive = 14" | "rank TryWork = 13" | "rank DropActive = 12"
| "rank TryPendingRoute = 11" | "rank TryPending = 10" | "rank DropPendingRoute = 3"
| "rank Queued = 9" | "rank QueuedActive = 8" | "rank QueuedDrop = 7"
| "rank (Unqueue _) = 6" | "rank (UnqueueRoute _) = 5"
| "rank Working = 4" | "rank ReleaseActive = 3" | "rank Finish = 2" | "rank Return = 1" | "rank Done = 0"

lemma advance_rank: "advance ch q sv p = Some (sv', p') \<Longrightarrow> rank p' < rank p"
  by (cases p) (auto simp: advance_def Let_def split: if_splits choice.splits prod.splits)

text \<open>A resource that a query holds can be given back without waiting.\<close>

lemma use_le_total: "qp \<in> set qs \<Longrightarrow> use qp r \<le> total_use qs r"
  unfolding total_use_def by (rule member_le_sum_list) auto

lemma held_released:
  assumes "adm_ok n s" and "(q, p) \<in> set (as_queries s)"
  shows "holds_worker p \<Longrightarrow> release (as_service s) \<noteq> None"
    and "holds_pending p \<Longrightarrow> recv_pending (as_service s) \<noteq> None"
    and "holds_active p \<Longrightarrow> release_active (as_service s) (qi_route q) \<noteq> None"
    and "holds_route_pending p \<Longrightarrow> release_pending_route (as_service s) (qi_route q) \<noteq> None"
proof -
  have lev: "use (q, p) r \<le> level (as_service s) r" for r
    using use_le_total [OF assms(2)] assms(1) by (simp add: adm_ok_def)
  have known: "route_known (as_service s) q" using assms by (auto simp: adm_ok_def)
  show "holds_worker p \<Longrightarrow> release (as_service s) \<noteq> None"
    using lev [of Workers] by (auto simp: release_def chan_recv_def)
  show "holds_pending p \<Longrightarrow> recv_pending (as_service s) \<noteq> None"
    using lev [of PendingSlots] by (auto simp: recv_pending_def chan_recv_def)
  show "release_active (as_service s) (qi_route q) \<noteq> None" if "holds_active p"
  proof (cases "qi_route q")
    case (Some tag)
    then obtain rb where "sv_routes (as_service s) tag = Some rb" using known by (auto simp: route_known_def)
    with Some that lev [of "RouteWorkers tag"] show ?thesis
      by (simp add: release_active_def chan_recv_def of_route_def)
  qed (simp add: release_active_def)
  show "release_pending_route (as_service s) (qi_route q) \<noteq> None" if "holds_route_pending p"
  proof (cases "qi_route q")
    case (Some tag)
    then obtain rb where "sv_routes (as_service s) tag = Some rb" using known by (auto simp: route_known_def)
    with Some that lev [of "RoutePending tag"] show ?thesis
      by (simp add: release_pending_route_def chan_recv_def of_route_def)
  qed (simp add: release_pending_route_def)
qed

text \<open>Operations that only dereference the budget return when the profile is known.\<close>

lemma known_returns:
  assumes "route_known sv q"
  shows "reserve_bytes sv (qi_route q) k \<noteq> None" "returnBytes sv (qi_route q) k \<noteq> None"
    "share_query sv (qi_route q) \<noteq> None" "unshare_query sv (qi_route q) \<noteq> None"
    "try_active sv (qi_route q) \<noteq> None" "try_pending_route sv (qi_route q) \<noteq> None"
proof -
  obtain rb where route: "qi_route q = None \<or> (\<exists>tag. qi_route q = Some tag \<and> sv_routes sv tag = Some rb)"
    using assms by (cases "qi_route q") (auto simp: route_known_def)
  show "reserve_bytes sv (qi_route q) k \<noteq> None" using route by (auto simp: reserve_bytes_def Let_def)
  show "returnBytes sv (qi_route q) k \<noteq> None" using route by (auto simp: returnBytes_def Let_def)
  show "share_query sv (qi_route q) \<noteq> None" using route by (auto simp: share_query_def Let_def)
  show "unshare_query sv (qi_route q) \<noteq> None" using route by (auto simp: unshare_query_def Let_def)
  show "try_active sv (qi_route q) \<noteq> None" using route by (auto simp: try_active_def case_prod_beta)
  show "try_pending_route sv (qi_route q) \<noteq> None"
    using route by (auto simp: try_pending_route_def case_prod_beta)
qed

lemma advance_possible:
  assumes "adm_ok n s" and "(q, p) \<in> set (as_queries s)" and "p \<noteq> Done"
  shows "advance CtxDone q (as_service s) p \<noteq> None"
proof -
  have known: "route_known (as_service s) q" using assms by (auto simp: adm_ok_def)
  show ?thesis
    using known_returns [OF known] held_released [OF assms(1,2)] assms(3)
    by (cases p) (auto simp: advance_def Let_def holds_defs try_active_def split: prod.splits)
qed

lemma drain_step:
  assumes "adm_ok n s" and "as_queries s = xs @ (q, p) # ys" and "p \<noteq> Done"
  shows "\<exists>s'. adm_step s s' \<and> adm_ok n s' \<and>
    sum_list (map (rank \<circ> snd) (as_queries s')) < sum_list (map (rank \<circ> snd) (as_queries s))"
proof -
  obtain sv p' where a: "advance CtxDone q (as_service s) p = Some (sv, p')"
    using advance_possible [OF assms(1) _ assms(3), of q] assms(2) by auto
  let ?s = "\<lparr>as_service = sv, as_queries = xs @ (q, p') # ys\<rparr>"
  have step: "adm_step s ?s" by (rule adm_step.adm_advance [OF assms(2) a])
  moreover have "adm_ok n ?s" by (rule adm_step_ok [OF assms(1) step])
  ultimately show ?thesis
    using advance_rank [OF a] assms(2) by (intro exI [of _ ?s]) simp
qed

lemma drains:
  assumes "adm_ok n s"
  shows "\<exists>s'. adm_step\<^sup>*\<^sup>* s s' \<and> adm_ok n s' \<and> (\<forall>(q, p) \<in> set (as_queries s'). p = Done)"
  using assms
proof (induction "sum_list (map (rank \<circ> snd) (as_queries s))" arbitrary: s rule: less_induct)
  case less
  show ?case
  proof (cases "\<forall>(q, p) \<in> set (as_queries s). p = Done")
    case False
    then obtain q p where "(q, p) \<in> set (as_queries s)" and p: "p \<noteq> Done" by auto
    then obtain xs ys where "as_queries s = xs @ (q, p) # ys" by (meson split_list)
    from drain_step [OF less.prems this p] obtain s' where s': "adm_step s s'" "adm_ok n s'"
      "sum_list (map (rank \<circ> snd) (as_queries s')) < sum_list (map (rank \<circ> snd) (as_queries s))"
      by blast
    from less.hyps [OF s'(3,2)] s'(1) show ?thesis
      by (meson converse_rtranclp_into_rtranclp)
  qed (use less.prems in blast)
qed

lemma idle_level:
  assumes "adm_ok n s" and "\<forall>(q, p) \<in> set (as_queries s). p = Done"
  shows "level (as_service s) r = 0"
proof -
  have "use (q, Done) r = 0" for q by (cases r) (simp_all add: holds_defs)
  then have "\<forall>qp \<in> set (as_queries s). use qp r = 0" using assms(2) by auto
  then have "total_use (as_queries s) r = 0" unfolding total_use_def by (simp add: map_idI sum_list_0 cong: map_cong)
  then show ?thesis using assms(1) by (simp add: adm_ok_def)
qed

lemma count_workers: "int (length (filter (\<lambda>(q, p). p = Working) qs)) \<le> total_use qs Workers"
  by (induction qs) (auto simp: total_use_def holds_defs)

lemma count_route_workers:
  "int (length (filter (\<lambda>(q, p). p = Working \<and> qi_route q = Some tag) qs)) \<le> total_use qs (RouteWorkers tag)"
proof (induction qs)
  case (Cons qp qs)
  obtain q p where "qp = (q, p)" by (cases qp)
  with Cons show ?case
    by (cases "p = Working \<and> qi_route q = Some tag") (auto simp: total_use_def holds_defs intro: add_increasing)
qed (simp add: total_use_def)

section \<open>Properties\<close>

text \<open>C15: Admission keeps every bound in every interleaving of any number of queries: the counters of
  the service are exactly what the queries in flight hold, and none passes its bound. So at most \<open>n\<close>
  exchanges run at once, and at most half of them for one upstream profile when it has a budget;
  the queued queries, the queries that share a flight and the retained wire bytes are bounded as
  well, for the service and for each profile.\<close>

theorem admission_keeps_bounds:
  assumes "adm_reach n tcp s"
  shows "(\<forall>r. level (as_service s) r = total_use (as_queries s) r \<and> level (as_service s) r \<le> quota n r) \<and>
    length (filter (\<lambda>(q, p). p = Working) (as_queries s)) \<le> n \<and>
    length (filter (\<lambda>(q, p). p = Working \<and> qi_route q = Some tag) (as_queries s)) \<le> max 1 (n div 2)"
proof -
  have ok: "level (as_service s) r = total_use (as_queries s) r \<and> level (as_service s) r \<le> quota n r" for r
    using adm_reach_ok [OF assms] unfolding adm_ok_def in_quota_def by blast
  have "int (length (filter (\<lambda>(q, p). p = Working) (as_queries s))) \<le> quota n Workers"
    using ok [of Workers] count_workers [of "as_queries s"] by linarith
  moreover have "int (length (filter (\<lambda>(q, p). p = Working \<and> qi_route q = Some tag) (as_queries s)))
      \<le> quota n (RouteWorkers tag)"
    using ok [of "RouteWorkers tag"] count_route_workers [of tag "as_queries s"] by linarith
  ultimately show ?thesis using ok unfolding quota.simps of_nat_le_iff by blast
qed

definition two_queries :: adm_state where
  "two_queries = \<lparr>as_service = new_service 4 2, as_queries =
     [(\<lparr>qi_route = None, qi_len = 40\<rparr>, Reserve), (\<lparr>qi_route = None, qi_len = 30\<rparr>, Reserve)]\<rparr>"

lemma two_queries_reach: "adm_reach 4 2 two_queries"
proof -
  have "adm_reach 4 2 \<lparr>as_service = new_service 4 2, as_queries = [(\<lparr>qi_route = None, qi_len = 30\<rparr>, Reserve)]\<rparr>"
    using adm_next [OF adm_init adm_arrive [where profiles = 1 and len = 30]] by (simp add: routeLimit_def)
  from adm_next [OF this adm_arrive [where profiles = 1 and len = 40]] show ?thesis
    by (simp add: routeLimit_def two_queries_def)
qed

theorem admission_keeps_bounds_witness:
  "\<exists>s. adm_reach 4 2 s \<and> length (as_queries s) = 2 \<and> level (as_service s) Bytes = 40 \<and>
     total_use (as_queries s) Bytes = 40"
proof -
  let ?s = "\<lparr>as_service = (new_service 4 2)\<lparr>sv_queryBytes := 40\<rparr>, as_queries =
     [(\<lparr>qi_route = None, qi_len = 40\<rparr>, Begin), (\<lparr>qi_route = None, qi_len = 30\<rparr>, Reserve)]\<rparr>"
  have "advance Proceed \<lparr>qi_route = None, qi_len = 40\<rparr> (new_service 4 2) Reserve =
      Some ((new_service 4 2)\<lparr>sv_queryBytes := 40\<rparr>, Begin)"
    by (simp add: advance_def reserve_bytes_def new_service_def workers_def)
  then have "adm_step two_queries ?s"
    by (intro adm_step.adm_advance [where xs = "[]", simplified]) (simp_all add: two_queries_def)
  then have reach: "adm_reach 4 2 ?s" by (rule adm_next [OF two_queries_reach])
  from admission_keeps_bounds [OF this] have "total_use (as_queries ?s) Bytes = level (as_service ?s) Bytes"
    by metis
  with reach show ?thesis by (intro exI [of _ ?s]) simp
qed

text \<open>C16: Admission neither deadlocks nor leaks: in every reachable state every query that is not done
  can take a step as soon as its context is done, each step of a query brings it closer to its
  end, and the whole service can drain, after which every counter and semaphore is back to zero.\<close>

theorem admission_drains:
  assumes "adm_reach n tcp s"
  shows "(\<forall>(q, p) \<in> set (as_queries s). p \<noteq> Done \<longrightarrow>
      (\<exists>sv p'. advance CtxDone q (as_service s) p = Some (sv, p') \<and> rank p' < rank p)) \<and>
    (\<exists>s'. adm_step\<^sup>*\<^sup>* s s' \<and> (\<forall>(q, p) \<in> set (as_queries s'). p = Done) \<and>
      (\<forall>r. level (as_service s') r = 0))"
proof -
  note ok = adm_reach_ok [OF assms]
  have "\<exists>sv p'. advance CtxDone q (as_service s) p = Some (sv, p') \<and> rank p' < rank p"
    if "(q, p) \<in> set (as_queries s)" "p \<noteq> Done" for q p
    using advance_possible [OF ok that] by (auto dest: advance_rank)
  moreover obtain s' where "adm_step\<^sup>*\<^sup>* s s'" "adm_ok n s'" "\<forall>(q, p) \<in> set (as_queries s'). p = Done"
    using drains [OF ok] by blast
  ultimately show ?thesis using idle_level by blast
qed

theorem admission_drains_witness:
  "\<exists>s'. adm_step\<^sup>*\<^sup>* two_queries s' \<and> level (as_service s') Bytes = 0 \<and> level (as_service s') Workers = 0"
  using admission_drains [OF two_queries_reach] by blast

end
