(* ===== verification/Dns_Server.thy ===== *)
theory Dns_Server
  imports Dns_Resolver Dns_Admission
begin

text \<open>
  The policy DNS server, \<^verbatim>\<open>internal/policydns/server.go\<close>, and the handlers \<open>admitQuery\<close> and
  \<open>resolveAdmitted\<close> of \<^verbatim>\<open>internal/policydns/admission.go\<close> over the runtime and the admission counters: the options read from
  the environment, waiting for a configuration with lanes, opening the listeners, a TCP session.

  The handlers here run without interruption; theory \<open>Dns_Admission\<close> has the same accesses to the
  counters as separate steps. \<open>admitQuery_runs\<close> shows that the handler is a run of those steps, so the
  bounds proved there for every interleaving hold for it.
\<close>

section \<open>Options\<close>

record Options =
  op_Workers :: int
  op_TCPSessions :: int
  op_CacheEntries :: int
  op_CacheBytes :: int
  op_StaleTTL :: nanos

text \<open>\<open>env\<close> is \<open>os.Getenv\<close>, which is empty for an unset name.\<close>

definition boundedEnvironmentInt :: "(string \<Rightarrow> string) \<Rightarrow> string \<Rightarrow> int \<Rightarrow> int \<Rightarrow> int \<Rightarrow> int" where
  "boundedEnvironmentInt env name fallback minimum maximum =
     (case atoi (env name) of
        None \<Rightarrow> fallback
      | Some v \<Rightarrow> if v < minimum then minimum else if maximum < v then maximum else v)"

definition boundedEnvironmentDuration :: "(string \<Rightarrow> string) \<Rightarrow> string \<Rightarrow> int \<Rightarrow> int \<Rightarrow> int \<Rightarrow> nanos" where
  "boundedEnvironmentDuration env name fallback minimum maximum =
     boundedEnvironmentInt env name fallback minimum maximum * second"

definition OptionsFromEnvironment :: "(string \<Rightarrow> string) \<Rightarrow> Options" where
  "OptionsFromEnvironment env =
     \<lparr>op_Workers = boundedEnvironmentInt env ''SB_POLICY_DNS_WORKERS'' 32 2 64,
      op_TCPSessions = boundedEnvironmentInt env ''SB_POLICY_DNS_TCP_SESSIONS'' 8 2 32,
      op_CacheEntries = boundedEnvironmentInt env ''SB_POLICY_DNS_CACHE_ENTRIES'' 4096 256 65536,
      op_CacheBytes = boundedEnvironmentInt env ''SB_POLICY_DNS_CACHE_BYTES'' (4 * 1024 * 1024) (1024 * 1024) (64 * 1024 * 1024),
      op_StaleTTL = boundedEnvironmentDuration env ''SB_POLICY_DNS_STALE_SECONDS'' 3600 0 86400\<rparr>"

section \<open>Admission of a query\<close>

record queryAdmission =
  qa_deadline :: nanos
  qa_queued :: bool
  qa_immediate :: bool
  qa_shared :: bool
  qa_answer :: bytes
  qa_plan :: queryPlan
  qa_flight :: flight_ref
  qa_route :: "string option"
  qa_bytes :: nat

definition immediate :: "nanos \<Rightarrow> bytes \<Rightarrow> queryAdmission" where
  "immediate deadline answer =
     \<lparr>qa_deadline = deadline, qa_queued = False, qa_immediate = True, qa_shared = False, qa_answer = answer,
      qa_plan = local_plan [], qa_flight = 0, qa_route = None, qa_bytes = 0\<rparr>"

text \<open>The plan and the flight of an immediate admission are not read.\<close>

definition admitted ::
  "nanos \<Rightarrow> bool \<Rightarrow> bool \<Rightarrow> queryPlan \<Rightarrow> flight_ref \<Rightarrow> string option \<Rightarrow> nat \<Rightarrow> queryAdmission" where
  "admitted deadline queued shared plan a route n =
     \<lparr>qa_deadline = deadline, qa_queued = queued, qa_immediate = False, qa_shared = shared, qa_answer = [],
      qa_plan = plan, qa_flight = a, qa_route = route, qa_bytes = n\<rparr>"

text \<open>The owner of a new flight: work slot, else a place in the queue, else the flight fails at once.\<close>

definition admit_owner ::
  "service \<Rightarrow> string option \<Rightarrow> (service \<times> bool \<times> bool) go" where
  "admit_owner sv route = do {
     (sv, routed) \<leftarrow> try_active sv route;
     let (sv, acquired) = (if routed then acquire sv else (sv, False));
     if acquired then Some (sv, True, False)
     else do {
       sv \<leftarrow> (if routed then release_active sv route else Some sv);
       (sv, profileQueued) \<leftarrow> try_pending_route sv route;
       let (sv, queued) = (if profileQueued then try_pending sv else (sv, False));
       if queued then Some (sv, True, True)
       else do {
         sv \<leftarrow> (if profileQueued then release_pending_route sv route else Some sv);
         Some (sv, False, False)
       }
     }
   }"

text \<open>The part of \<open>admitQuery\<close> behind the plan; \<open>refused\<close> is the refusal of the query.\<close>

definition admit_planned ::
  "bytes \<Rightarrow> 'i runtime \<Rightarrow> service \<Rightarrow> string option \<Rightarrow> queryPlan \<Rightarrow> nat \<Rightarrow> nanos \<Rightarrow>
   ('i runtime \<times> service \<times> queryAdmission) go" where
  "admit_planned refused rt sv route plan n deadline = do {
     (sv, reserved) \<leftarrow> reserve_bytes sv route (int n);
     if \<not> reserved then Some (rt, sv, immediate deadline refused)
     else do {
       (group, begun) \<leftarrow> flight_begin (rt_flights rt) (qp_key plan) (max 2 (int (workers sv) * 4));
       case begun of
         None \<Rightarrow> do {
           sv \<leftarrow> returnBytes sv route (int n);
           Some (rt\<lparr>rt_flights := group\<rparr>, sv, immediate deadline refused)
         }
       | Some (a, False) \<Rightarrow> do {
           (sv, accepted) \<leftarrow> share_query sv route;
           if accepted then Some (rt\<lparr>rt_flights := group\<rparr>, sv, admitted deadline False True plan a route n)
           else do {
             group \<leftarrow> flight_leave group a;
             sv \<leftarrow> returnBytes sv route (int n);
             Some (rt\<lparr>rt_flights := group\<rparr>, sv, immediate deadline refused)
           }
         }
       | Some (a, True) \<Rightarrow> do {
           (sv, ok, queued) \<leftarrow> admit_owner sv route;
           if ok then Some (rt\<lparr>rt_flights := group\<rparr>, sv, admitted deadline queued False plan a route n)
           else do {
             group \<leftarrow> flight_finish group (qp_key plan) a (Failed ''context deadline exceeded'');
             group \<leftarrow> flight_leave group a;
             sv \<leftarrow> returnBytes sv route (int n);
             Some (rt\<lparr>rt_flights := group\<rparr>, sv, immediate deadline refused)
           }
         }
     }
   }"

definition admitQuery ::
  "dns_library \<Rightarrow> ('i \<Rightarrow> string \<Rightarrow> u32 list go) \<Rightarrow> 'i runtime \<Rightarrow> service \<Rightarrow> string \<Rightarrow> bytes \<Rightarrow> nanos \<Rightarrow>
   ('i runtime \<times> service \<times> queryAdmission) go" where
  "admitQuery lib visits rt sv laneID query now = do {
     let deadline = now + rt_timeout rt;
     refused \<leftarrow> refusal lib query True;
     (rt, planned) \<leftarrow> planQuery lib visits rt laneID query now;
     case planned of
       Inl _ \<Rightarrow> Some (rt, sv, immediate deadline refused)
     | Inr plan \<Rightarrow>
         if qp_local plan then Some (rt, sv, immediate deadline (qp_answer plan))
         else (let (sv, route) = routeLimit sv (qp_tag plan) (rt_profiles rt) in
           admit_planned refused rt sv route plan (length query) deadline)
   }"

section \<open>Resolution of an admitted query\<close>

text \<open>
  What happens outside the handler while it runs: whether the context is done at the two waits of
  \<open>waitWork\<close> and its error then, the error of the context when the exchange starts, what the
  upstream returns, what the shared flight returns, and the error of the service context.
\<close>

record resolve_env =
  re_done_route :: bool
  re_done_work :: bool
  re_err :: go_error
  re_ctx :: "go_error option"
  re_result :: "go_error + bytes"
  re_shared :: flight_outcome
  re_service :: "go_error option"
  re_now :: nanos

definition waitWork :: "service \<Rightarrow> string option \<Rightarrow> bool \<Rightarrow> bool \<Rightarrow> (service \<times> bool) go" where
  "waitWork sv route done_route done_work = do {
     (sv, routed) \<leftarrow>
       (if route \<noteq> None \<and> done_route then Some (sv, False)
        else do { (sv, ok) \<leftarrow> try_active sv route; if ok then Some (sv, True) else None });
     if \<not> routed then Some (sv, False)
     else if done_work then do { sv \<leftarrow> release_active sv route; Some (sv, False) }
     else (let (sv, ok) = acquire sv in if ok then Some (sv, True) else None)
   }"

definition resolveAdmitted ::
  "dns_library \<Rightarrow> 'i runtime \<Rightarrow> service \<Rightarrow> queryAdmission \<Rightarrow> bytes \<Rightarrow> resolve_env \<Rightarrow>
   ('i runtime \<times> service \<times> (go_error + bytes)) go" where
  "resolveAdmitted lib rt sv a query env =
     (let route = qa_route a; plan = qa_plan a in
      if qa_immediate a then Some (rt, sv, Inr (qa_answer a))
      else if qa_shared a then do {
        (rt, answer) \<leftarrow> queryResult lib rt plan query (re_shared env) (re_now env);
        sv \<leftarrow> unshare_query sv route;
        group \<leftarrow> flight_leave (rt_flights rt) (qa_flight a);
        sv \<leftarrow> returnBytes sv route (int (qa_bytes a));
        Some (rt\<lparr>rt_flights := group\<rparr>, sv, Inr answer)
      }
      else do {
        (sv, acquired) \<leftarrow>
          (if qa_queued a then do {
             (sv, ok) \<leftarrow> waitWork sv route (re_done_route env) (re_done_work env);
             sv \<leftarrow> recv_pending sv;
             sv \<leftarrow> release_pending_route sv route;
             Some (sv, ok)
           } else Some (sv, True));
        (rt, sv, outcome) \<leftarrow>
          (if acquired then do {
             (rt, outcome) \<leftarrow> exchangePlan rt plan query (re_ctx env) (re_result env) (re_now env);
             sv \<leftarrow> release sv;
             sv \<leftarrow> release_active sv route;
             Some (rt, sv, outcome)
           } else Some (rt, sv, Failed (re_err env)));
        group \<leftarrow> flight_finish (rt_flights rt) (qp_key plan) (qa_flight a) outcome;
        let rt = rt\<lparr>rt_flights := group\<rparr>;
        (rt, result) \<leftarrow>
          (case (acquired, re_service env) of
             (False, Some err) \<Rightarrow> Some (rt, Inl err)
           | _ \<Rightarrow> do {
               (rt, answer) \<leftarrow> queryResult lib rt plan query outcome (re_now env);
               Some (rt, Inr answer)
             });
        group \<leftarrow> flight_leave (rt_flights rt) (qa_flight a);
        sv \<leftarrow> returnBytes sv route (int (qa_bytes a));
        Some (rt\<lparr>rt_flights := group\<rparr>, sv, result)
      })"

definition localAnswer ::
  "dns_library \<Rightarrow> ('i \<Rightarrow> string \<Rightarrow> u32 list go) \<Rightarrow> 'i runtime \<Rightarrow> string \<Rightarrow> bytes \<Rightarrow> nanos \<Rightarrow>
   ('i runtime \<times> bytes option) go" where
  "localAnswer lib visits rt laneID query now = do {
     (rt, planned) \<leftarrow> planQuery lib visits rt laneID query now;
     Some (rt, case planned of
         Inl _ \<Rightarrow> None
       | Inr plan \<Rightarrow> if qp_local plan then Some (qp_answer plan) else None)
   }"

definition overloadResponse ::
  "dns_library \<Rightarrow> ('i \<Rightarrow> string \<Rightarrow> u32 list go) \<Rightarrow> 'i runtime \<Rightarrow> string \<Rightarrow> bytes \<Rightarrow> nanos \<Rightarrow>
   ('i runtime \<times> bytes) go" where
  "overloadResponse lib visits rt laneID query now = do {
     (rt, answer) \<leftarrow> localAnswer lib visits rt laneID query now;
     case answer of
       Some a \<Rightarrow> Some (rt, a)
     | None \<Rightarrow> do { r \<leftarrow> refusal lib query True; Some (rt, r) }
   }"

section \<open>Listeners\<close>

text \<open>
  A TCP session over the bytes that the peer sends. \<open>handle\<close> is admission and resolution of one query
  on the state \<open>'s\<close> of the service, \<open>writes n\<close> whether the write of the answer that leaves \<open>n\<close>
  messages succeeds. The result is the bytes written.
\<close>

fun tcp_session ::
  "('s \<Rightarrow> bytes \<Rightarrow> ('s \<times> (go_error + bytes)) go) \<Rightarrow> (nat \<Rightarrow> bool) \<Rightarrow> nat \<Rightarrow> 's \<Rightarrow> bytes \<Rightarrow> ('s \<times> bytes) go" where
  "tcp_session handle writes 0 st stream = Some (st, [])"
| "tcp_session handle writes (Suc n) st stream =
     (case read_frame stream of
        None \<Rightarrow> Some (st, [])
      | Some (query, rest) \<Rightarrow>
          if length query < 12 then Some (st, [])
          else do {
            (st, result) \<leftarrow> handle st query;
            case result of
              Inl _ \<Rightarrow> Some (st, [])
            | Inr answer \<Rightarrow>
                if maxDNSMessage < int (length answer) \<or> \<not> writes n then Some (st, [])
                else do {
                  (st, out) \<leftarrow> tcp_session handle writes n st rest;
                  Some (st, tcp_frame answer @ out)
                }
          })"

text \<open>Bound of messages on one connection.\<close>

definition serveTCP_messages :: nat where
  "serveTCP_messages = 64"

text \<open>\<open>waitForRuntime\<close>: \<open>attempts k\<close> is what the \<open>k\<close>-th \<open>loadRuntime\<close> returns, \<open>missing\<close> whether a read
  error is \<open>os.ErrNotExist\<close>, \<open>cancelled k\<close> whether the context is done instead of the next tick.\<close>

partial_function (option) waitForRuntime ::
  "(nat \<Rightarrow> load_error + 'r) \<Rightarrow> (nat \<Rightarrow> bool) \<Rightarrow> (nat \<Rightarrow> bool) \<Rightarrow> nat \<Rightarrow> (load_error option + 'r) option" where
  "waitForRuntime attempts missing cancelled k =
     (case attempts k of
        Inr rt \<Rightarrow> Some (Inr rt)
      | Inl err \<Rightarrow>
          if err \<noteq> NoLanes \<and> \<not> (err = ReadConfig \<and> missing k) then Some (Inl (Some err))
          else if cancelled k then Some (Inl None)
          else waitForRuntime attempts missing cancelled (Suc k))"

text \<open>\<open>listen\<close>: for each lane whether the UDP and the TCP socket can be opened. The state is the sockets opened
  and closed so far, and \<open>service.closers\<close>.\<close>

datatype socket = PacketSocket string | ListenSocket string

record sockets =
  sk_open :: "socket list"
  sk_closers :: "socket list"

fun listen :: "(string \<times> bool \<times> bool) list \<Rightarrow> sockets \<Rightarrow> sockets \<times> string option" where
  "listen [] st = (st, None)"
| "listen ((lane, udp, tcp) # lanes) st =
     (if \<not> udp then (st, Some (''listen UDP lane '' @ lane))
      else let st = st\<lparr>sk_open := PacketSocket lane # sk_open st\<rparr> in
        if \<not> tcp then (st\<lparr>sk_open := remove1 (PacketSocket lane) (sk_open st)\<rparr>, Some (''listen TCP lane '' @ lane))
        else listen lanes
          (st\<lparr>sk_open := ListenSocket lane # sk_open st,
              sk_closers := sk_closers st @ [PacketSocket lane, ListenSocket lane]\<rparr>))"

definition service_close :: "sockets \<Rightarrow> sockets" where
  "service_close st = st\<lparr>sk_open := fold remove1 (sk_closers st) (sk_open st)\<rparr>"

section \<open>Admission as steps\<close>

definition phase_of :: "queryAdmission \<Rightarrow> phase" where
  "phase_of a = (if qa_immediate a then Done else if qa_shared a then Shared else if qa_queued a then Queued else Working)"

definition advances :: "query_info \<Rightarrow> service \<times> phase \<Rightarrow> service \<times> phase \<Rightarrow> bool" where
  "advances q x y \<longleftrightarrow> (\<exists>ch. advance ch q (fst x) (snd x) = Some y)"

lemma advances_I: "advance ch q sv p = Some (sv', p') \<Longrightarrow> advances q (sv, p) (sv', p')"
  by (auto simp: advances_def)

lemma admit_owner_runs:
  assumes "admit_owner sv (qi_route q) = Some (sv', ok, queued)"
  shows "(advances q)\<^sup>*\<^sup>* (sv, TryActive) (sv', if \<not> ok then Finish else if queued then Queued else Working)"
proof -
  obtain sv1 routed where a: "try_active sv (qi_route q) = Some (sv1, routed)"
    using assms by (auto simp: admit_owner_def)
  have s1: "advances q (sv, TryActive) (sv1, if routed then TryWork else TryPendingRoute)"
    using a by (auto simp: advance_def intro!: advances_I)
  obtain sv2 acquired where w: "(if routed then acquire sv1 else (sv1, False)) = (sv2, acquired)"
    by fastforce
  have s2: "(advances q)\<^sup>*\<^sup>* (sv, TryActive) (sv2, if acquired then Working else if routed then DropActive else TryPendingRoute)"
  proof (cases routed)
    case True
    then have "advances q (sv1, TryWork) (sv2, if acquired then Working else DropActive)"
      using w by (auto simp: advance_def intro!: advances_I)
    with True s1 show ?thesis by (auto intro: rtranclp_trans)
  qed (use s1 w in auto)
  show ?thesis
  proof (cases acquired)
    case True
    then show ?thesis using assms a w s2 by (auto simp: admit_owner_def)
  next
    case False
    then obtain sv3 where d: "(if routed then release_active sv2 (qi_route q) else Some sv2) = Some sv3"
      and rest: "do { (sv, profileQueued) \<leftarrow> try_pending_route sv3 (qi_route q);
         let (sv, queued) = (if profileQueued then try_pending sv else (sv, False));
         if queued then Some (sv, True, True)
         else do { sv \<leftarrow> (if profileQueued then release_pending_route sv (qi_route q) else Some sv);
           Some (sv, False, False) } } = Some (sv', ok, queued)"
      using assms a w by (auto simp: admit_owner_def)
    have s3: "(advances q)\<^sup>*\<^sup>* (sv, TryActive) (sv3, TryPendingRoute)"
    proof (cases routed)
      case True
      then have "advances q (sv2, DropActive) (sv3, TryPendingRoute)"
        using d by (auto simp: advance_def intro!: advances_I)
      with True False s2 show ?thesis by simp
    qed (use False s2 d in auto)
    obtain sv4 pq where p: "try_pending_route sv3 (qi_route q) = Some (sv4, pq)" using rest by auto
    have s4: "(advances q)\<^sup>*\<^sup>* (sv, TryActive) (sv4, if pq then TryPending else Finish)"
      by (rule rtranclp.rtrancl_into_rtrancl [OF s3])
        (use p in \<open>auto simp: advance_def intro!: advances_I\<close>)
    show ?thesis
    proof (cases pq)
      case True
      obtain sv5 qd where t: "try_pending sv4 = (sv5, qd)" by fastforce
      have s5: "(advances q)\<^sup>*\<^sup>* (sv, TryActive) (sv5, if qd then Queued else DropPendingRoute)"
        by (rule rtranclp.rtrancl_into_rtrancl [OF s4])
          (use True t in \<open>auto simp: advance_def intro!: advances_I\<close>)
      show ?thesis
      proof (cases qd)
        case False
        then have r: "release_pending_route sv5 (qi_route q) = Some sv'" "\<not> ok"
          using rest p True t by auto
        have "advances q (sv5, DropPendingRoute) (sv', Finish)"
          using r by (auto simp: advance_def intro!: advances_I)
        with s5 False r show ?thesis by simp
      qed (use rest p True t s5 in auto)
    qed (use rest p s4 in auto)
  qed
qed

lemma admit_planned_runs:
  assumes "admit_planned refused rt sv (qi_route q) plan (qi_len q) deadline = Some (rt', sv', a)"
  shows "(advances q)\<^sup>*\<^sup>* (sv, Reserve) (sv', phase_of a) \<and>
    (\<not> qa_immediate a \<longrightarrow> qa_route a = qi_route q \<and> qa_bytes a = qi_len q)"
proof -
  obtain sv1 reserved where r: "reserve_bytes sv (qi_route q) (int (qi_len q)) = Some (sv1, reserved)"
    using assms by (auto simp: admit_planned_def)
  have s1: "(advances q)\<^sup>*\<^sup>* (sv, Reserve) (sv1, if reserved then Begin else Done)"
    using r by (auto simp: advance_def intro!: advances_I)
  have given_back: "advances q (sv2, Return) (sv3, Done)"
    if "returnBytes sv2 (qi_route q) (int (qi_len q)) = Some sv3" for sv2 sv3
    using that by (auto simp: advance_def intro!: advances_I)
  have begins: "advances q (sv1, Begin) (sv1, p)" if "p \<in> {Return, Join, TryActive}" for p
    using that by (auto simp: advance_def advances_def intro: exI [of _ Owner] exI [of _ Joined] exI [of _ Refused])
  show ?thesis
  proof (cases reserved)
    case False
    then show ?thesis using assms r s1 by (auto simp: admit_planned_def phase_of_def immediate_def)
  next
    case True
    with s1 have s2: "(advances q)\<^sup>*\<^sup>* (sv, Reserve) (sv1, p)" if "p \<in> {Return, Join, TryActive}" for p
      using begins [OF that] by auto
    obtain group begun where b: "flight_begin (rt_flights rt) (qp_key plan) (max 2 (int (workers sv1) * 4)) = Some (group, begun)"
      using assms r True by (auto simp: admit_planned_def)
    consider (refused) "begun = None" | (joined) x where "begun = Some (x, False)" | (owner) x where "begun = Some (x, True)"
      by (metis (full_types) not_Some_eq surj_pair)
    then show ?thesis
    proof cases
      case refused
      then have "returnBytes sv1 (qi_route q) (int (qi_len q)) = Some sv'" "a = immediate deadline refused"
        using assms r True b by (auto simp: admit_planned_def)
      with s2 [of Return] show ?thesis by (auto simp: phase_of_def immediate_def dest: given_back)
    next
      case joined
      obtain sv2 accepted where sh: "share_query sv1 (qi_route q) = Some (sv2, accepted)"
        using assms r True b joined by (auto simp: admit_planned_def)
      have s3: "(advances q)\<^sup>*\<^sup>* (sv, Reserve) (sv2, if accepted then Shared else Return)"
        by (rule rtranclp.rtrancl_into_rtrancl [OF s2 [of Join]])
          (use sh in \<open>auto simp: advance_def intro!: advances_I\<close>)
      show ?thesis
        using assms r True b joined sh s3
        by (auto simp: admit_planned_def phase_of_def immediate_def admitted_def split: if_splits dest: given_back)
    next
      case owner
      obtain sv2 ok queued where ow: "admit_owner sv1 (qi_route q) = Some (sv2, ok, queued)"
        using assms r True b owner by (auto simp: admit_planned_def)
      have s3: "(advances q)\<^sup>*\<^sup>* (sv, Reserve) (sv2, if \<not> ok then Finish else if queued then Queued else Working)"
        by (rule rtranclp_trans [OF s2 [of TryActive] admit_owner_runs [OF ow]]) simp
      have fin: "advances q (sv2, Finish) (sv2, Return)" by (auto simp: advance_def intro!: advances_I)
      show ?thesis
      proof (cases ok)
        case False
        then have "(advances q)\<^sup>*\<^sup>* (sv, Reserve) (sv2, Return)" using s3 fin by auto
        with False show ?thesis
          using assms r True b owner ow
          by (auto simp: admit_planned_def phase_of_def immediate_def dest: given_back)
      qed (use assms r True b owner ow s3 in \<open>auto simp: admit_planned_def phase_of_def admitted_def\<close>)
    qed
  qed
qed

text \<open>\<open>resolveAdmitted\<close> runs the rest of the steps.\<close>

lemma waitWork_runs:
  assumes "waitWork sv (qi_route q) done_route done_work = Some (sv', ok)"
  shows "(advances q)\<^sup>*\<^sup>* (sv, Queued) (sv', Unqueue ok)"
proof (cases "qi_route q \<noteq> None \<and> done_route")
  case True
  then have "advances q (sv, Queued) (sv, Unqueue False)"
    by (auto simp: advance_def intro!: advances_I [of CtxDone])
  with True show ?thesis using assms by (auto simp: waitWork_def)
next
  case False
  then obtain sv1 where a: "try_active sv (qi_route q) = Some (sv1, True)"
    using assms by (auto simp: waitWork_def split: if_splits)
  have s1: "advances q (sv, Queued) (sv1, QueuedActive)"
    using a by (auto simp: advance_def intro!: advances_I [of Proceed])
  show ?thesis
  proof (cases done_work)
    case True
    then have r: "release_active sv1 (qi_route q) = Some sv'" "ok = False"
      using assms False a by (auto simp: waitWork_def split: if_splits)
    have "advances q (sv1, QueuedActive) (sv1, QueuedDrop)" "advances q (sv1, QueuedDrop) (sv', Unqueue False)"
      using r by (auto simp: advance_def intro!: advances_I [of CtxDone])
    with s1 r show ?thesis by (meson converse_rtranclp_into_rtranclp rtranclp.rtrancl_refl)
  next
    case nodone: False
    then have "acquire sv1 = (sv', True)" "ok"
      using assms False a by (auto simp: waitWork_def split: if_splits prod.splits)
    then have "advances q (sv1, QueuedActive) (sv', Unqueue True)" "ok"
      by (auto simp: advance_def intro!: advances_I [of Proceed])
    with s1 show ?thesis by (auto intro: rtranclp_trans)
  qed
qed

lemma resolveAdmitted_runs:
  assumes "resolveAdmitted lib rt sv a query env = Some (rt', sv', result)"
    and "\<not> qa_immediate a" and "q = \<lparr>qi_route = qa_route a, qi_len = qa_bytes a\<rparr>"
  shows "(advances q)\<^sup>*\<^sup>* (sv, phase_of a) (sv', Done)"
proof -
  have given_back: "advances q (sv2, Return) (sv3, Done)"
    if "returnBytes sv2 (qa_route a) (int (qa_bytes a)) = Some sv3" for sv2 sv3
    using that assms(3) by (auto simp: advance_def intro!: advances_I)
  show ?thesis
  proof (cases "qa_shared a")
    case True
    then obtain sv1 where u: "unshare_query sv (qa_route a) = Some sv1"
        "returnBytes sv1 (qa_route a) (int (qa_bytes a)) = Some sv'"
      using assms by (auto simp: resolveAdmitted_def Let_def)
    have "advances q (sv, Shared) (sv1, Return)"
      using u assms(3) by (auto simp: advance_def intro!: advances_I)
    with given_back [OF u(2)] True assms(2) show ?thesis
      by (auto simp: phase_of_def intro: rtranclp_trans)
  next
    case False
    obtain sv1 acquired where w: "(if qa_queued a then do {
             (sv, ok) \<leftarrow> waitWork sv (qa_route a) (re_done_route env) (re_done_work env);
             sv \<leftarrow> recv_pending sv;
             sv \<leftarrow> release_pending_route sv (qa_route a);
             Some (sv, ok)
           } else Some (sv, True)) = Some (sv1, acquired)"
      using assms False by (auto simp: resolveAdmitted_def Let_def)
    have s1: "(advances q)\<^sup>*\<^sup>* (sv, phase_of a) (sv1, if acquired then Working else Finish)"
    proof (cases "qa_queued a")
      case True
      then obtain sv2 sv3 where q: "waitWork sv (qi_route q) (re_done_route env) (re_done_work env) = Some (sv2, acquired)"
          "recv_pending sv2 = Some sv3" "release_pending_route sv3 (qi_route q) = Some sv1"
        using w assms(3) by auto
      have "advances q (sv2, Unqueue acquired) (sv3, UnqueueRoute acquired)"
        "advances q (sv3, UnqueueRoute acquired) (sv1, if acquired then Working else Finish)"
        using q by (auto simp: advance_def intro!: advances_I)
      with waitWork_runs [OF q(1)] True False assms(2) show ?thesis
        by (simp add: phase_of_def)
    qed (use w False assms(2) in \<open>auto simp: phase_of_def\<close>)
    have "\<exists>sv2. (advances q)\<^sup>*\<^sup>* (sv1, if acquired then Working else Finish) (sv2, Finish) \<and>
        returnBytes sv2 (qa_route a) (int (qa_bytes a)) = Some sv'"
    proof (cases acquired)
      case True
      then obtain sv2 sv3 where "release sv1 = Some sv2" "release_active sv2 (qi_route q) = Some sv3"
          "returnBytes sv3 (qa_route a) (int (qa_bytes a)) = Some sv'"
        using assms False w by (auto simp: resolveAdmitted_def Let_def)
      moreover from this have "advances q (sv1, Working) (sv2, ReleaseActive)" "advances q (sv2, ReleaseActive) (sv3, Finish)"
        by (auto simp: advance_def intro!: advances_I)
      ultimately have "(advances q)\<^sup>*\<^sup>* (sv1, Working) (sv3, Finish)"
          "returnBytes sv3 (qa_route a) (int (qa_bytes a)) = Some sv'"
        by (simp_all add: converse_rtranclp_into_rtranclp)
      with True show ?thesis by auto
    next
      case notacq: False
      then have "returnBytes sv1 (qa_route a) (int (qa_bytes a)) = Some sv'"
        using assms False w by (auto simp: resolveAdmitted_def Let_def)
      with notacq show ?thesis by auto
    qed
    then obtain sv2 where s2: "(advances q)\<^sup>*\<^sup>* (sv, phase_of a) (sv2, Finish)"
        "returnBytes sv2 (qa_route a) (int (qa_bytes a)) = Some sv'"
      using s1 by (meson rtranclp_trans)
    have "advances q (sv2, Finish) (sv2, Return)" by (auto simp: advance_def intro!: advances_I)
    with s2(1) given_back [OF s2(2)] show ?thesis by (meson rtranclp.rtrancl_into_rtrancl)
  qed
qed

section \<open>Accounting of the handlers\<close>

lemma advances_account:
  assumes "(advances q)\<^sup>*\<^sup>* x y"
  shows "level (fst y) r = level (fst x) r + use (q, snd y) r - use (q, snd x) r \<and>
    (in_quota n (fst x) \<longrightarrow> in_quota n (fst y)) \<and> shape (fst y) = shape (fst x)"
  using assms
proof (induction rule: rtranclp_induct)
  case (step y z)
  then obtain ch where a: "advance ch q (fst y) (snd y) = Some (fst z, snd z)" by (auto simp: advances_def)
  show ?case
    using step.IH advance_level [OF a, of r] advance_in_quota [OF _ a, of n] advance_shape [OF a] by simp
qed simp

lemma released_again:
  shows active_released_again: "try_active sv route = Some (sv1, True) \<Longrightarrow> release_active sv1 route = Some sv"
    and pending_released_again: "try_pending_route sv route = Some (sv1, True) \<Longrightarrow> release_pending_route sv1 route = Some sv"
proof -
  have same: "sv\<lparr>sv_routes := (sv_routes sv)(tag \<mapsto> rb)\<rparr> = sv" if "sv_routes sv tag = Some rb" for tag rb
    using that by (simp add: fun_upd_idem)
  show "release_active sv1 route = Some sv" if "try_active sv route = Some (sv1, True)"
    using that by (cases route) (auto simp: try_active_def release_active_def update_route_def
      chan_try_send_def chan_recv_def same split: if_splits)
  show "release_pending_route sv1 route = Some sv" if "try_pending_route sv route = Some (sv1, True)"
    using that by (cases route) (auto simp: try_pending_route_def release_pending_route_def update_route_def
      chan_try_send_def chan_recv_def same split: if_splits)
qed

lemma admit_owner_total:
  assumes "route_known sv q" shows "admit_owner sv (qi_route q) \<noteq> None"
proof -
  note known = known_returns(5,6)
  obtain sv1 routed where a: "try_active sv (qi_route q) = Some (sv1, routed)"
    using known(1) [OF assms] by auto
  have k1: "route_known sv1 q" using assms route_known_shape [OF shape_changes(9) [OF a]] by blast
  have refused: "sv2 = sv1" if "(if routed then acquire sv1 else (sv1, False)) = (sv2, False)" for sv2
    using that work.acquire_refused by (auto split: if_splits)
  have released: "\<exists>sv3. (if routed then release_active sv1 (qi_route q) else Some sv1) = Some sv3 \<and> route_known sv3 q"
    using released_again(1) [of sv "qi_route q" sv1] a assms k1 by (cases routed) auto
  then obtain sv3 where d: "(if routed then release_active sv1 (qi_route q) else Some sv1) = Some sv3" "route_known sv3 q"
    by blast
  obtain sv4 pq where p: "try_pending_route sv3 (qi_route q) = Some (sv4, pq)" using known(2) [OF d(2)] by auto
  have unqueued: "(if pq then release_pending_route sv5 (qi_route q) else Some sv5) \<noteq> None"
    if "(if pq then try_pending sv4 else (sv4, False)) = (sv5, False)" for sv5
  proof -
    have "sv5 = sv4" using that by (auto simp: try_pending_def chan_try_send_def split: if_splits)
    then show ?thesis using released_again(2) [of sv3 "qi_route q" sv4] p by (cases pq) auto
  qed
  obtain sv2 acquired where w: "(if routed then acquire sv1 else (sv1, False)) = (sv2, acquired)"
    by (meson surj_pair)
  show ?thesis
  proof (cases acquired)
    case False
    then have "sv2 = sv1" using w refused [of sv2] by simp
    moreover obtain sv5 queued where t: "(if pq then try_pending sv4 else (sv4, False)) = (sv5, queued)"
      by (meson surj_pair)
    moreover have "queued \<or> (\<exists>sv6. (if pq then release_pending_route sv5 (qi_route q) else Some sv5) = Some sv6)"
      using unqueued t by (cases queued) auto
    ultimately show ?thesis using a d p w False by (auto simp: admit_owner_def)
  qed (use a w in \<open>simp add: admit_owner_def\<close>)
qed

lemma flight_begin_total:
  assumes "flights_ok g"
  obtains g' where "flight_begin g key m = Some (g', None)"
  | g' a where "flight_begin g key m = Some (g', Some (a, False))" "flight_leave g' a \<noteq> None"
  | g' a where "flight_begin g key m = Some (g', Some (a, True))"
      "\<And>out. \<exists>g''. flight_finish g' key a out = Some g'' \<and> flight_leave g'' a \<noteq> None"
proof (cases "fg_flights g key")
  case None
  let ?new = "\<lparr>fl_done = False, fl_outcome = None, fl_waiters = 1\<rparr>"
  let ?g = "g\<lparr>fg_heap := (fg_heap g)(fg_next g \<mapsto> ?new), fg_flights := (fg_flights g)(key \<mapsto> fg_next g),
    fg_next := Suc (fg_next g)\<rparr>"
  have "\<exists>g''. flight_finish ?g key (fg_next g) out = Some g'' \<and> flight_leave g'' (fg_next g) \<noteq> None" for out
    by (simp add: flight_finish_def flight_leave_def)
  with None show ?thesis by (intro that(3)) (auto simp: flight_begin_def Let_def)
next
  case (Some a)
  then obtain f where "fg_heap g a = Some f" using flights_okD [OF assms] by blast
  with Some show ?thesis
    by (cases "0 < m \<and> m \<le> fl_waiters f")
      (auto simp: flight_begin_def flight_leave_def intro: that(1,2))
qed

lemma admit_planned_total:
  assumes known: "route_known sv q" and ok: "flights_ok (rt_flights rt)"
  shows "admit_planned refused rt sv (qi_route q) plan (qi_len q) deadline \<noteq> None"
proof -
  obtain sv1 reserved where r: "reserve_bytes sv (qi_route q) (int (qi_len q)) = Some (sv1, reserved)"
    using known_returns(1) [OF known, of "int (qi_len q)"] by auto
  have k1: "route_known sv1 q" using known route_known_shape [OF shape_changes(1) [OF r]] by blast
  have returned: "returnBytes sv2 (qi_route q) (int (qi_len q)) \<noteq> None" if "route_known sv2 q" for sv2
    using known_returns(2) [OF that] by blast
  show ?thesis
  proof (cases rule: flight_begin_total [OF ok, of "qp_key plan" "max 2 (int (workers sv1) * 4)"])
    case (1 g')
    then show ?thesis using r returned [OF k1] by (cases reserved) (auto simp: admit_planned_def)
  next
    case (2 g' a)
    obtain sv2 acc where sh: "share_query sv1 (qi_route q) = Some (sv2, acc)"
      using known_returns(3) [OF k1] by auto
    have "route_known sv2 q" using k1 route_known_shape [OF shape_changes(3) [OF sh]] by blast
    then show ?thesis
      using r 2 sh returned [of sv2] by (cases reserved; cases acc) (auto simp: admit_planned_def)
  next
    case (3 g' a)
    obtain sv2 good queued where ow: "admit_owner sv1 (qi_route q) = Some (sv2, good, queued)"
      using admit_owner_total [OF k1] by auto
    have "route_known sv2 q"
      using k1 route_known_shape [of sv2 sv1 q] advances_account [OF admit_owner_runs [OF ow]] by simp
    then obtain sv3 where "returnBytes sv2 (qi_route q) (int (qi_len q)) = Some sv3" using returned by blast
    moreover obtain g'' g3 where "flight_finish g' (qp_key plan) a (Failed ''context deadline exceeded'') = Some g''"
        "flight_leave g'' a = Some g3" using 3(2) by blast
    ultimately show ?thesis
      using r 3(1) ow by (cases reserved; cases good) (simp_all add: admit_planned_def)
  qed
qed

lemma admitQuery_total:
  assumes "cache_ok (rt_cache rt)" "flights_ok (rt_flights rt)" "in_quota n sv"
  shows "admitQuery lib mapMembership_Match rt sv laneID query now \<noteq> None"
proof -
  obtain refused where r: "refusal lib query True = Some refused" using refusal_total by blast
  obtain rt1 planned where p: "planQuery lib mapMembership_Match rt laneID query now = Some (rt1, planned)"
      "rt_flights rt1 = rt_flights rt"
    using assms(1) by (cases rule: planQuery_cases [of rt laneID lib query now]) auto
  have "admit_planned refused rt1 sv0 route plan (length query) deadline \<noteq> None"
    if "routeLimit sv (qp_tag plan) (rt_profiles rt1) = (sv0, route)" for sv0 route plan deadline
  proof -
    have "route_known sv0 \<lparr>qi_route = route, qi_len = length query\<rparr>"
      using routeLimit_keeps(4) [OF that assms(3)] by simp
    from admit_planned_total [OF this, of rt1 refused plan deadline] show ?thesis
      using assms(2) p(2) by simp
  qed
  then show ?thesis
    using r p(1) by (auto simp: admitQuery_def Let_def split: sum.splits prod.splits)
qed

lemma admitQuery_account:
  assumes "admitQuery lib visits rt sv laneID query now = Some (rt', sv', a)" and "in_quota n sv"
    and "q = \<lparr>qi_route = qa_route a, qi_len = qa_bytes a\<rparr>"
  shows "in_quota n sv' \<and> level sv' r = level sv r + use (q, phase_of a) r"
proof -
  obtain refused rt1 planned where p: "refusal lib query True = Some refused"
      "planQuery lib visits rt laneID query now = Some (rt1, planned)"
    using assms(1) by (auto simp: admitQuery_def Let_def)
  have none: "use (x, Done) r = 0" "use (x, Reserve) r = 0" for x by (cases r; simp add: holds_defs)+
  show ?thesis
  proof (cases "\<exists>plan. planned = Inr plan \<and> \<not> qp_local plan")
    case False
    then have "sv' = sv" "phase_of a = Done"
      using assms(1) p by (auto simp: admitQuery_def Let_def immediate_def phase_of_def split: sum.splits if_splits)
    then show ?thesis using assms(2) none by simp
  next
    case True
    then obtain plan where plan: "planned = Inr plan" "\<not> qp_local plan" by blast
    obtain sv0 route where l: "routeLimit sv (qp_tag plan) (rt_profiles rt1) = (sv0, route)" by fastforce
    let ?q = "\<lparr>qi_route = route, qi_len = length query\<rparr>"
    have "admit_planned refused rt1 sv0 (qi_route ?q) plan (qi_len ?q) (now + rt_timeout rt) = Some (rt', sv', a)"
      using assms(1) p plan l by (simp add: admitQuery_def Let_def)
    note run = admit_planned_runs [OF this]
    have acc: "level sv' r = level sv0 r + use (?q, phase_of a) r - use (?q, Reserve) r"
        "in_quota n sv0 \<longrightarrow> in_quota n sv'"
      using advances_account [of ?q "(sv0, Reserve)" "(sv', phase_of a)" r n] run by auto
    have "use (?q, phase_of a) r = use (q, phase_of a) r"
      using run assms(3) none by (cases "qa_immediate a") (auto simp: phase_of_def)
    with acc none routeLimit_keeps(1,2) [OF l assms(2)] show ?thesis by simp
  qed
qed

lemma resolveAdmitted_account:
  assumes "resolveAdmitted lib rt sv a query env = Some (rt', sv', result)" and "in_quota n sv"
    and "q = \<lparr>qi_route = qa_route a, qi_len = qa_bytes a\<rparr>"
  shows "in_quota n sv' \<and> level sv' r = level sv r - use (q, phase_of a) r"
proof -
  have none: "use (x, Done) r = 0" for x by (cases r; simp add: holds_defs)
  show ?thesis
  proof (cases "qa_immediate a")
    case True
    then show ?thesis using assms none by (auto simp: resolveAdmitted_def phase_of_def Let_def)
  next
    case False
    from advances_account [OF resolveAdmitted_runs [OF assms(1) False assms(3)], of r n] assms(2) none show ?thesis
      by simp
  qed
qed

section \<open>Sessions and listeners\<close>

lemma boundedEnvironmentInt_bounds:
  "minimum \<le> fallback \<Longrightarrow> fallback \<le> maximum \<Longrightarrow>
   minimum \<le> boundedEnvironmentInt env name fallback minimum maximum \<and>
   boundedEnvironmentInt env name fallback minimum maximum \<le> maximum"
  by (auto simp: boundedEnvironmentInt_def split: option.splits)

text \<open>The answers of the handler to a sequence of queries.\<close>

fun handle_all :: "('s \<Rightarrow> bytes \<Rightarrow> ('s \<times> (go_error + bytes)) go) \<Rightarrow> 's \<Rightarrow> bytes list \<Rightarrow> ('s \<times> bytes list) option" where
  "handle_all handle st [] = Some (st, [])"
| "handle_all handle st (query # queries) =
     (case handle st query of
        Some (st, Inr answer) \<Rightarrow> map_option (apsnd ((#) answer)) (handle_all handle st queries)
      | _ \<Rightarrow> None)"

lemma tcp_session_limit:
  assumes "\<forall>q \<in> set queries. 12 \<le> length q \<and> length q < 2 ^ 16"
    and "handle_all handle st (take n queries) = Some (st', answers)"
    and "\<forall>a \<in> set answers. length a < 2 ^ 16"
  shows "tcp_session handle (\<lambda>_. True) n st (concat (map tcp_frame queries)) =
    Some (st', concat (map tcp_frame answers))"
  using assms
proof (induction queries arbitrary: n st answers)
  case Nil
  then show ?case by (cases n) (simp_all add: read_frame_def)
next
  case (Cons query queries)
  show ?case
  proof (cases n)
    case (Suc m)
    obtain st1 answer rest where h: "handle st query = Some (st1, Inr answer)"
        "handle_all handle st1 (take m queries) = Some (st', rest)" "answers = answer # rest"
      using Cons.prems(2) Suc by (auto split: option.splits sum.splits)
    have "tcp_session handle (\<lambda>_. True) m st1 (concat (map tcp_frame queries)) = Some (st', concat (map tcp_frame rest))"
      using Cons.IH [OF _ h(2)] Cons.prems(1,3) h(3) by simp
    then show ?thesis
      using Suc h Cons.prems(1,3) by (simp add: read_frame_tcp_frame)
  qed (use Cons.prems in simp)
qed

lemma listen_closers:
  "listen lanes st = (st', err) \<Longrightarrow> mset (sk_open st) = mset (sk_closers st) \<Longrightarrow>
   mset (sk_open st') = mset (sk_closers st')"
proof (induction lanes st arbitrary: st' err rule: listen.induct)
  case (2 lane udp tcp lanes st)
  show ?case
  proof (cases "udp \<and> tcp")
    case True
    then show ?thesis using 2 by (auto simp: Let_def)
  qed (use "2.prems" in \<open>auto simp: Let_def split: if_splits\<close>)
qed auto

lemma fold_remove1_mset: "mset (fold remove1 xs ys) = mset ys - mset xs"
  by (induction xs arbitrary: ys) (simp_all add: diff_diff_add_mset)

text \<open>The error of an attempt that is tried again: a missing file or a configuration without lanes.\<close>

abbreviation retried :: "(nat \<Rightarrow> load_error + 'r) \<Rightarrow> (nat \<Rightarrow> bool) \<Rightarrow> nat \<Rightarrow> bool" where
  "retried attempts missing i \<equiv> attempts i = Inl NoLanes \<or> attempts i = Inl ReadConfig \<and> missing i"

lemma waitForRuntime_step:
  "waitForRuntime attempts missing cancelled k =
     (if \<not> retried attempts missing k then Some (case attempts k of Inr rt \<Rightarrow> Inr rt | Inl err \<Rightarrow> Inl (Some err))
      else if cancelled k then Some (Inl None)
      else waitForRuntime attempts missing cancelled (Suc k))"
  by (subst waitForRuntime.simps) (auto split: sum.split)

lemma waitForRuntime_retries:
  assumes "\<forall>i < k. retried attempts missing i \<and> \<not> cancelled i" and "j \<le> k"
  shows "waitForRuntime attempts missing cancelled j = waitForRuntime attempts missing cancelled k"
  using assms(2)
proof (induction rule: inc_induct)
  case (step i)
  then have "waitForRuntime attempts missing cancelled i = waitForRuntime attempts missing cancelled (Suc i)"
    using assms(1) waitForRuntime_step [of attempts missing cancelled i] by simp
  with step.IH show ?case by simp
qed simp

text \<open>A result was decided by an attempt that is not tried again or by the end of the context.\<close>

lemma waitForRuntime_decided:
  assumes "waitForRuntime attempts missing cancelled j = Some out"
  shows "\<exists>k \<ge> j. (\<forall>i. j \<le> i \<and> i < k \<longrightarrow> retried attempts missing i \<and> \<not> cancelled i) \<and> (\<not> retried attempts missing k \<or> cancelled k)"
  using assms
proof (induction arbitrary: out rule: waitForRuntime.raw_induct [rotated, consumes 1])
  case (1 waitForRuntime attempts missing cancelled k out)
  show ?case
  proof (cases "retried attempts missing k \<and> \<not> cancelled k")
    case True
    then have "waitForRuntime attempts missing cancelled (Suc k) = Some out" using 1(2) by auto
    from 1(1) [OF this] obtain n where n: "Suc k \<le> n" "\<forall>i. Suc k \<le> i \<and> i < n \<longrightarrow> retried attempts missing i \<and> \<not> cancelled i"
        "\<not> retried attempts missing n \<or> cancelled n" by blast
    have "\<forall>i. k \<le> i \<and> i < n \<longrightarrow> retried attempts missing i \<and> \<not> cancelled i" using n(2) True by (metis Suc_leI le_neq_implies_less)
    then show ?thesis using n by (intro exI [of _ n]) simp
  qed auto
qed

section \<open>Properties\<close>

text \<open>C17: The two handlers of a query balance: \<open>admitQuery\<close> always returns, keeps every bound, and an
  immediate answer leaves every counter and semaphore as it was, while an accepted query holds
  exactly its bytes and one slot (shared, queued or working, with the budget of its profile);
  whenever \<open>resolveAdmitted\<close> returns for that admission, from any later state of the service and
  with any outcome of waiting and exchange, it has given back exactly that.\<close>

theorem handlers_balance:
  assumes "cache_reach entries bytes staleTTL (rt_cache rt)" and "flights_ok (rt_flights rt)" and "in_quota n sv"
  shows "\<exists>rt' sv' a. admitQuery lib mapMembership_Match rt sv laneID query now = Some (rt', sv', a) \<and> in_quota n sv' \<and>
    (\<forall>r. level sv' r = level sv r + use (\<lparr>qi_route = qa_route a, qi_len = qa_bytes a\<rparr>, phase_of a) r) \<and>
    (qa_immediate a \<longrightarrow> (\<forall>r. level sv' r = level sv r)) \<and>
    (\<forall>rt2 sv2 env rt3 sv3 result. in_quota n sv2 \<longrightarrow>
       resolveAdmitted lib rt2 sv2 a query env = Some (rt3, sv3, result) \<longrightarrow> in_quota n sv3 \<and>
       (\<forall>r. level sv3 r = level sv2 r - use (\<lparr>qi_route = qa_route a, qi_len = qa_bytes a\<rparr>, phase_of a) r))"
proof -
  have "cache_ok (rt_cache rt)" using assms(1) cache_reach_ok by blast
  then obtain rt' sv' a where a: "admitQuery lib mapMembership_Match rt sv laneID query now = Some (rt', sv', a)"
    using admitQuery_total [OF _ assms(2,3)] by (metis option.exhaust prod_cases3)
  let ?q = "\<lparr>qi_route = qa_route a, qi_len = qa_bytes a\<rparr>"
  have acc: "in_quota n sv' \<and> level sv' r = level sv r + use (?q, phase_of a) r" for r
    using admitQuery_account [OF a assms(3)] by blast
  have "use (?q, phase_of a) r = 0" if "qa_immediate a" for r
    using that by (cases r) (simp_all add: phase_of_def holds_defs)
  then have "\<forall>r. qa_immediate a \<longrightarrow> level sv' r = level sv r" using acc by simp
  moreover have "in_quota n sv3 \<and> (\<forall>r. level sv3 r = level sv2 r - use (?q, phase_of a) r)"
    if "in_quota n sv2" "resolveAdmitted lib rt2 sv2 a query env = Some (rt3, sv3, result)" for rt2 sv2 env rt3 sv3 result
    using resolveAdmitted_account [OF that(2,1) refl] by blast
  ultimately show ?thesis using a acc by blast
qed

theorem handlers_balance_witness:
  "\<exists>rt' sv' a. admitQuery header_library mapMembership_Match example_runtime (new_service 4 2) ''lan'' example_query 0 =
     Some (rt', sv', a) \<and> in_quota 4 sv' \<and>
     level sv' Bytes = use (\<lparr>qi_route = qa_route a, qi_len = qa_bytes a\<rparr>, phase_of a) Bytes"
proof -
  have "cache_reach 16 65536 minute (rt_cache example_runtime)"
    by (simp add: example_runtime_def reach_new)
  moreover have "flights_ok (rt_flights example_runtime)"
    using group_init by (auto simp: flights_ok_def example_runtime_def)
  moreover have "in_quota 4 (new_service 4 2)" using new_service_ok [of 4 2] by (simp add: adm_ok_def)
  moreover have "level (new_service 4 2) Bytes = 0" by (simp add: new_service_def)
  ultimately show ?thesis
    using handlers_balance [of 16 65536 minute example_runtime 4 "new_service 4 2" header_library "''lan''" example_query 0]
    by (metis add_0)
qed

text \<open>C35: A TCP session answers in order and ends: a peer that sends framed queries of at least 12 bytes
  receives the framed answers of the first 64 of them, in order, and nothing else, when the
  handler answers those and the writes succeed; what it sends behind the 64th query is not read.\<close>

theorem tcp_session_in_order:
  assumes "\<forall>q \<in> set queries. 12 \<le> length q \<and> length q < 2 ^ 16"
    and "handle_all handle st (take serveTCP_messages queries) = Some (st', answers)"
    and "\<forall>a \<in> set answers. length a < 2 ^ 16"
  shows "tcp_session handle (\<lambda>_. True) serveTCP_messages st (concat (map tcp_frame queries)) =
    Some (st', concat (map tcp_frame answers))"
  by (rule tcp_session_limit [OF assms])

theorem tcp_session_in_order_witness:
  "tcp_session (\<lambda>k q. Some (Suc k, Inr q)) (\<lambda>_. True) serveTCP_messages (0 :: nat)
     (concat (map tcp_frame (replicate 65 (replicate 12 1)))) =
     Some (64, concat (map tcp_frame (replicate 64 (replicate 12 1))))"
proof -
  have all: "handle_all (\<lambda>k q. Some (Suc k, Inr q)) k qs = Some (k + length qs, qs)" for k :: nat and qs
    by (induction qs arbitrary: k) simp_all
  have "take serveTCP_messages (replicate 65 (replicate 12 1)) = replicate 64 (replicate 12 (1 :: byte))"
    by (simp add: serveTCP_messages_def)
  then show ?thesis
    using tcp_session_in_order [of "replicate 65 (replicate 12 1)" "\<lambda>k q. Some (Suc k, Inr q)" 0 64
        "replicate 64 (replicate 12 1)"] all [of 0 "replicate 64 (replicate 12 1)"]
    by simp
qed

text \<open>C36: Startup waits exactly for a usable configuration. It returns with an outcome if and only if every load before
  some attempt found the file missing or no lanes, with a live context, and that attempt decides: a loaded runtime is returned,
  an error of any other kind, an unreadable file included, ends the service, and the end of the context ends the
  wait. When listening fails part way, or at any later time, closing the service leaves no socket open.\<close>

theorem startup_waits_and_cleans_up:
  "(waitForRuntime attempts missing cancelled 0 = Some out \<longleftrightarrow>
     (\<exists>k. (\<forall>i < k. (attempts i = Inl NoLanes \<or> attempts i = Inl ReadConfig \<and> missing i) \<and> \<not> cancelled i) \<and>
       (case attempts k of
          Inr rt \<Rightarrow> out = Inr rt
        | Inl err \<Rightarrow>
            if err = NoLanes \<or> err = ReadConfig \<and> missing k then cancelled k \<and> out = Inl None else out = Inl (Some err)))) \<and>
   sk_open (service_close (fst (listen lanes \<lparr>sk_open = [], sk_closers = []\<rparr>))) = []"
proof -
  let ?run = "waitForRuntime attempts missing cancelled"
  have at_end: "(?run k = Some out) = (case attempts k of
        Inr rt \<Rightarrow> out = Inr rt
      | Inl err \<Rightarrow> if err = NoLanes \<or> err = ReadConfig \<and> missing k then cancelled k \<and> out = Inl None else out = Inl (Some err))"
    if "\<not> retried attempts missing k \<or> cancelled k" for k
    using that waitForRuntime_step [of attempts missing cancelled k] by (auto split: sum.splits if_splits)
  have wait: "?run 0 = Some out \<longleftrightarrow> (\<exists>k. (\<forall>i < k. retried attempts missing i \<and> \<not> cancelled i) \<and> (case attempts k of
        Inr rt \<Rightarrow> out = Inr rt
      | Inl err \<Rightarrow> if err = NoLanes \<or> err = ReadConfig \<and> missing k then cancelled k \<and> out = Inl None else out = Inl (Some err)))"
    (is "_ \<longleftrightarrow> (\<exists>k. ?before k \<and> ?decides k)")
  proof
    assume run: "?run 0 = Some out"
    from waitForRuntime_decided [OF run] obtain k where k: "?before k" "\<not> retried attempts missing k \<or> cancelled k" by blast
    then have "?decides k" using run waitForRuntime_retries [OF k(1), of 0] at_end [OF k(2)] by simp
    then show "\<exists>k. ?before k \<and> ?decides k" using k(1) by blast
  next
    assume "\<exists>k. ?before k \<and> ?decides k"
    then obtain k where k: "?before k" "?decides k" by blast
    have "\<not> retried attempts missing k \<or> cancelled k" using k(2) by (auto split: sum.splits)
    from at_end [OF this] show "?run 0 = Some out" using k waitForRuntime_retries [OF k(1), of 0] by simp
  qed
  obtain st err where l: "listen lanes \<lparr>sk_open = [], sk_closers = []\<rparr> = (st, err)" by fastforce
  have "mset (sk_open st) = mset (sk_closers st)" using listen_closers [OF l] by simp
  then have "mset (sk_open (service_close st)) = {#}" by (simp add: service_close_def fold_remove1_mset)
  then show ?thesis using wait l by simp
qed

theorem startup_waits_and_cleans_up_witness:
  "waitForRuntime (\<lambda>i. if i < 3 then Inl NoLanes else Inl ReadConfig) (\<lambda>_. False) (\<lambda>_. False) 0 =
     (Some (Inl (Some ReadConfig)) :: (load_error option + nat) option) \<and>
   sk_open (service_close (fst (listen [(''a'', True, True), (''b'', True, False)] \<lparr>sk_open = [], sk_closers = []\<rparr>))) = []"
proof -
  let ?attempts = "\<lambda>i :: nat. if i < 3 then Inl NoLanes else Inl ReadConfig :: load_error + nat"
  have "\<exists>k. (\<forall>i < k. (?attempts i = Inl NoLanes \<or> ?attempts i = Inl ReadConfig \<and> False) \<and> \<not> False) \<and>
      (case ?attempts k of
         Inr rt \<Rightarrow> (Inl (Some ReadConfig) :: load_error option + nat) = Inr rt
       | Inl err \<Rightarrow> if err = NoLanes \<or> err = ReadConfig \<and> False then False \<and> (Inl (Some ReadConfig) :: load_error option + nat) = Inl None
           else (Inl (Some ReadConfig) :: load_error option + nat) = Inl (Some err))"
    by (rule exI [of _ 3]) simp
  then show ?thesis
    using startup_waits_and_cleans_up [of ?attempts "\<lambda>_. False" "\<lambda>_. False" "Inl (Some ReadConfig)" "[(''a'', True, True), (''b'', True, False)]"]
    by blast
qed

end
