(* ===== verification/Memory_Budget.thy ===== *)
theory Memory_Budget
  imports Go_Strings
begin

text \<open>
  The soft memory budgets of the appliance, \<^verbatim>\<open>internal/memorybudget/budget.go\<close>: the limits of the
  cgroup, their division among the controller, Xray, two helper budgets and a reserve, and the
  effect of an explicitly requested limit. Theory \<open>Memory_Loan\<close> has the loan of the ACME budget.

  Sizes are \<open>int\<close>. The code keeps them in \<^verbatim>\<open>int64\<close>; limits from files are below \<open>2^60\<close>, and the
  scaled request is bounded by the budget before it is multiplied, so nothing wraps.
\<close>

abbreviation MiB :: int where "MiB \<equiv> 1048576"

record Limits =
  li_High :: int
  li_Max :: int

record Plan =
  pn_Ceiling :: int
  pn_Gateway :: int
  pn_Xray :: int
  pn_Worker :: int
  pn_Reserve :: int

datatype Role = GatewayRole | XrayRole | WorkerRole

definition budget_ceiling :: "Limits \<Rightarrow> int" where
  "budget_ceiling limits =
     (let ceiling = li_High limits;
          ceiling = (if 0 < li_Max limits then
              (let hardBudget = li_Max limits - li_Max limits div 8 in
               if ceiling \<le> 0 \<or> hardBudget < ceiling then hardBudget else ceiling)
            else ceiling)
      in if ceiling \<le> 0 then 224 * MiB else ceiling)"

definition Derive :: "Limits \<Rightarrow> Plan" where
  "Derive limits =
     (let ceiling = budget_ceiling limits;
          reserve = min (40 * MiB) (ceiling div 4);
          worker = min (32 * MiB) (ceiling div 8);
          regular = ceiling - reserve - 2 * worker;
          xray = regular div 100 * 65 + regular mod 100 * 65 div 100
      in \<lparr>pn_Ceiling = ceiling, pn_Gateway = regular - xray, pn_Xray = xray, pn_Worker = worker,
          pn_Reserve = reserve\<rparr>)"

definition plan_for :: "Plan \<Rightarrow> Role \<Rightarrow> int" where
  "plan_for p role = (case role of GatewayRole \<Rightarrow> pn_Gateway p | XrayRole \<Rightarrow> pn_Xray p | WorkerRole \<Rightarrow> pn_Worker p)"

section \<open>Limits of the cgroup\<close>

definition tighter :: "int \<Rightarrow> int \<Rightarrow> int" where
  "tighter a b = (if a \<le> 0 then b else if b \<le> 0 then a else min a b)"

text \<open>A file is its content, \<open>None\<close> when it cannot be read; \<open>readBounded\<close> keeps a prefix.\<close>

definition readBounded :: "string option \<Rightarrow> nat \<Rightarrow> string option" where
  "readBounded file n = map_option (take n) file"

definition finiteLimit :: "string option \<Rightarrow> int" where
  "finiteLimit file = (case readBounded file 64 of
     None \<Rightarrow> 0
   | Some body \<Rightarrow> (case parseInt64 (trimSpace body) of
       None \<Rightarrow> 0
     | Some v \<Rightarrow> if v \<le> 0 \<or> 2 ^ 60 \<le> v then 0 else v))"

text \<open>\<open>path.Clean\<close> of a rooted path, as its components.\<close>

definition clean_step :: "string list \<Rightarrow> string \<Rightarrow> string list" where
  "clean_step acc c = (if c = [] \<or> c = ''.'' then acc else if c = ''..'' then butlast acc else acc @ [c])"

definition clean_path :: "string \<Rightarrow> string list" where
  "clean_path s = foldl clean_step [] (split_byte CHR ''/'' s)"

text \<open>The loop from the directory of the process up to the root; \<open>files dir name\<close> is the content of a file.\<close>

function read_up :: "(string list \<Rightarrow> string \<Rightarrow> string option) \<Rightarrow> string list \<Rightarrow> Limits \<Rightarrow> Limits" where
  "read_up files dir result =
     (let result = \<lparr>li_High = tighter (li_High result) (finiteLimit (files dir ''memory.high'')),
                    li_Max = tighter (li_Max result) (finiteLimit (files dir ''memory.max''))\<rparr>
      in if dir = [] then result else read_up files (butlast dir) result)"
  by pat_completeness auto
termination
  by (relation "measure (\<lambda>(_, dir, _). length dir)") auto

declare read_up.simps [simp del]

definition ReadV2 :: "(string list \<Rightarrow> string \<Rightarrow> string option) \<Rightarrow> string \<Rightarrow> Limits" where
  "ReadV2 files relative = read_up files (clean_path relative) \<lparr>li_High = 0, li_Max = 0\<rparr>"

fun first_unified :: "string list \<Rightarrow> string" where
  "first_unified [] = ''/''"
| "first_unified (l # ls) = (if hasPrefix l ''0::'' then drop 3 l else first_unified ls)"

definition currentCgroupRelative :: "string option \<Rightarrow> string" where
  "currentCgroupRelative file = (case readBounded file 4096 of
     None \<Rightarrow> ''/''
   | Some body \<Rightarrow> first_unified (split_byte (CHR 0x0A) body))"

text \<open>The hint file is the decoded JSON object, \<open>None\<close> when it is missing or does not decode.\<close>

definition readHint :: "Limits option \<Rightarrow> Limits" where
  "readHint file = (case file of
     Some known \<Rightarrow>
       if 16 * MiB \<le> li_High known \<and> li_High known \<le> li_Max known \<and> li_Max known \<le> 8192 * MiB
       then known else \<lparr>li_High = 0, li_Max = 0\<rparr>
   | None \<Rightarrow> \<lparr>li_High = 0, li_Max = 0\<rparr>)"

definition Current :: "Limits \<Rightarrow> Limits option \<Rightarrow> Plan" where
  "Current detected hint =
     Derive (if li_High detected \<le> 0 \<and> li_Max detected \<le> 0 then readHint hint else detected)"

section \<open>Requested limits\<close>

definition cutSuffix :: "string \<Rightarrow> string \<Rightarrow> string option" where
  "cutSuffix s suffix =
     (if length suffix \<le> length s \<and> drop (length s - length suffix) s = suffix
      then Some (take (length s - length suffix) s) else None)"

definition cap_suffixes :: "(string \<times> int) list" where
  "cap_suffixes = [(''KiB'', 2 ^ 10), (''MiB'', MiB), (''GiB'', 2 ^ 30), (''TiB'', 2 ^ 40), (''B'', 1)]"

fun cap_scaled :: "int \<Rightarrow> string \<Rightarrow> (string \<times> int) list \<Rightarrow> int option" where
  "cap_scaled budget requested [] = None"
| "cap_scaled budget requested ((text, scale) # rest) =
     (case cutSuffix requested text of
        Some v \<Rightarrow> Some (case parseInt64 v of
          Some n \<Rightarrow> if 0 < n \<and> n \<le> budget div scale then n * scale else budget
        | None \<Rightarrow> budget)
      | None \<Rightarrow> cap_scaled budget requested rest)"

definition Cap :: "int \<Rightarrow> string \<Rightarrow> int" where
  "Cap budget requested =
     (let requested = trimSpace requested in
      if requested = [] \<or> requested = ''off'' then budget
      else case cap_scaled budget requested cap_suffixes of
        Some limit \<Rightarrow> limit
      | None \<Rightarrow> (case parseInt64 requested of
          Some n \<Rightarrow> if 0 < n then min n budget else budget
        | None \<Rightarrow> budget))"

section \<open>Lemmas\<close>

lemma budget_ceiling_bounds:
  "0 < budget_ceiling limits"
  "0 < li_High limits \<Longrightarrow> budget_ceiling limits \<le> li_High limits"
  "0 < li_Max limits \<Longrightarrow> budget_ceiling limits \<le> li_Max limits - li_Max limits div 8"
  by (auto simp: budget_ceiling_def Let_def)

lemma percent65:
  assumes "0 \<le> (n :: int)"
  shows "n div 100 * 65 + n mod 100 * 65 div 100 = n * 65 div 100"
proof -
  have "n = n div 100 * 100 + n mod 100" by simp
  then have "n * 65 = (n div 100 * 65) * 100 + n mod 100 * 65" by linarith
  moreover have "((n div 100 * 65) * 100 + n mod 100 * 65) div 100 = n div 100 * 65 + n mod 100 * 65 div 100"
    by (rule div_mult_self3) simp
  ultimately show ?thesis by metis
qed

lemma half_left:
  assumes "w \<le> c div 8" and "r \<le> c div 4" shows "(c :: int) \<le> 2 * (c - r - 2 * w)"
proof -
  have "8 * w \<le> c" "4 * r \<le> c" using assms by presburger+
  then show ?thesis by presburger
qed

lemma share65_bounds:
  assumes "0 \<le> (n :: int)" shows "0 \<le> n * 65 div 100 \<and> n * 65 div 100 \<le> n"
  using assms zdiv_mono1 [of "n * 65" "n * 100" 100] by simp

lemma Derive_parts:
  assumes "p = Derive limits" and "c = budget_ceiling limits"
  obtains N where "c = N + 2 * pn_Worker p + pn_Reserve p" "pn_Xray p = N * 65 div 100" "pn_Gateway p = N - pn_Xray p"
    "pn_Ceiling p = c" "0 \<le> pn_Worker p" "0 \<le> pn_Reserve p" "pn_Worker p \<le> c div 8" "pn_Reserve p \<le> c div 4"
    "c \<le> 2 * N" "0 \<le> pn_Xray p" "pn_Xray p \<le> N"
proof -
  define W where "W = min (32 * MiB) (c div 8)"
  define R where "R = min (40 * MiB) (c div 4)"
  have c: "0 < c" unfolding assms(2) by (rule budget_ceiling_bounds)
  have half: "c \<le> 2 * (c - R - 2 * W)" by (rule half_left) (simp_all add: W_def R_def)
  then have N: "0 \<le> c - R - 2 * W" using c by simp
  have p: "p = \<lparr>pn_Ceiling = c, pn_Gateway = (c - R - 2 * W) - (c - R - 2 * W) * 65 div 100,
      pn_Xray = (c - R - 2 * W) * 65 div 100, pn_Worker = W, pn_Reserve = R\<rparr>"
    unfolding assms(1) Derive_def Let_def percent65 [OF N, symmetric]
    by (simp only: assms(2) W_def R_def)
  have "0 \<le> W" "0 \<le> R" "W \<le> c div 8" "R \<le> c div 4" using c by (simp_all add: W_def R_def)
  with p half share65_bounds [OF N] show ?thesis by (intro that [of "c - R - 2 * W"]) simp_all
qed

lemma cap_scaled_bounded:
  assumes "cap_scaled budget requested ss = Some limit" and "0 < budget" and "\<forall>(t, k) \<in> set ss. 0 < k"
  shows "0 < limit \<and> limit \<le> budget"
  using assms
proof (induction ss)
  case (Cons tk ss)
  obtain t k where tk: "tk = (t, k)" "0 < k" using Cons.prems(3) by (cases tk) auto
  have "n * k \<le> budget" if "n \<le> budget div k" for n
  proof -
    have "n * k \<le> budget div k * k" using that tk(2) by (simp add: mult_right_mono)
    also have "\<dots> \<le> budget" using tk(2) by (metis div_mult_mod_eq le_add_same_cancel1 pos_mod_sign)
    finally show ?thesis .
  qed
  then show ?case using Cons tk by (auto split: option.splits if_splits)
qed simp

lemma Cap_bounded: "0 < budget \<Longrightarrow> 0 < Cap budget requested \<and> Cap budget requested \<le> budget"
proof -
  assume b: "0 < budget"
  have "\<forall>(t, k) \<in> set cap_suffixes. 0 < k" by (simp add: cap_suffixes_def)
  with b show ?thesis
    by (auto simp: Cap_def Let_def split: option.splits dest: cap_scaled_bounded)
qed

text \<open>The tightest of the limits, ignoring those that are not set.\<close>

definition tightest :: "int set \<Rightarrow> int" where
  "tightest vs = (if {v \<in> vs. 0 < v} = {} then 0 else Min {v \<in> vs. 0 < v})"

lemma tighter_tightest:
  assumes "finite vs" and "0 \<le> b"
  shows "tighter (tightest vs) b = tightest (insert b vs)"
proof -
  define S where "S = {v \<in> vs. 0 < v}"
  have fin: "finite S" using assms(1) by (simp add: S_def)
  have old: "tightest vs = (if S = {} then 0 else Min S)" by (simp only: tightest_def S_def)
  have "{v \<in> insert b vs. 0 < v} = (if 0 < b then insert b S else S)" by (auto simp: S_def)
  then have new: "tightest (insert b vs) = (if 0 < b then Min (insert b S) else tightest vs)"
    unfolding old by (simp only: tightest_def) simp
  have "0 < Min S" if "S \<noteq> {}" using Min_in [OF fin that] by (simp add: S_def)
  moreover have "Min (insert b S) = min b (Min S)" if "S \<noteq> {}" using fin that by simp
  ultimately show ?thesis
    unfolding new old tighter_def using assms(2) by (cases "S = {}") (simp_all add: min.commute leD)
qed

lemma finiteLimit_nonneg: "0 \<le> finiteLimit file" "finiteLimit file < 2 ^ 60"
  by (auto simp: finiteLimit_def split: option.splits)

lemma read_up_tightest:
  assumes "finite hs" "finite ms"
  shows "read_up files dir \<lparr>li_High = tightest hs, li_Max = tightest ms\<rparr> =
    \<lparr>li_High = tightest (hs \<union> {finiteLimit (files (take k dir) ''memory.high'') | k. k \<le> length dir}),
     li_Max = tightest (ms \<union> {finiteLimit (files (take k dir) ''memory.max'') | k. k \<le> length dir})\<rparr>"
  using assms
proof (induction dir arbitrary: hs ms rule: rev_induct)
  case Nil
  then show ?case
    by (simp add: read_up.simps [of files "[]"] tighter_tightest finiteLimit_nonneg Let_def)
next
  case (snoc d dir)
  have up: "{f (take k (dir @ [d])) |k. k \<le> length (dir @ [d])} =
      insert (f (dir @ [d])) {f (take k dir) |k. k \<le> length dir}" for f :: "string list \<Rightarrow> int"
    by (force simp: le_Suc_eq)
  show ?case
    using snoc.prems
    unfolding up [of "\<lambda>d. finiteLimit (files d ''memory.high'')"] up [of "\<lambda>d. finiteLimit (files d ''memory.max'')"]
    by (subst read_up.simps) (simp add: Let_def tighter_tightest finiteLimit_nonneg snoc.IH)
qed

end
