(* ===== verification/Memory_Loan.thy ===== *)
theory Memory_Loan
  imports Memory_Budget
begin

text \<open>
  The loan of the ACME helper budget to the controller, \<^verbatim>\<open>internal/memorybudget/acme_loan.go\<close>, and its
  adjustment under memory pressure, \<^verbatim>\<open>internal/memorybudget/pressure.go\<close>. While no ACME worker runs the
  controller may use its budget; \<open>acquire\<close> recalls it before a worker starts.

  \<open>acquire\<close> is modelled twice: as the function the caller sees, with what it samples while it waits, and
  as the steps between which other goroutines and the pressure monitor run. The slot channel is
  sent to without the mutex, so a second \<open>acquire\<close> can take the slot in the middle of a release.
\<close>

section \<open>Pressure\<close>

record loanPressure =
  lp_used :: int
  lp_managed :: int
  lp_live :: int
  lp_nonHeap :: int
  lp_cleanFile :: int

definition pressure_keys :: "string list" where
  "pressure_keys = [''file'', ''file_mapped'', ''file_dirty'', ''file_writeback'']"

text \<open>The loop over the lines of \<open>memory.stat\<close>; \<open>None\<close> is the early \<open>return 0, false\<close>.\<close>

fun stat_values :: "string list \<Rightarrow> (string \<rightharpoonup> int) \<Rightarrow> (string \<rightharpoonup> int) option" where
  "stat_values [] values = Some values"
| "stat_values (line # lines) values =
     (case after_byte CHR '' '' line of
        None \<Rightarrow> stat_values lines values
      | Some v \<Rightarrow>
          let key = takeWhile (\<lambda>c. c \<noteq> CHR '' '') line in
          if key \<in> set pressure_keys then
            (case parseInt64 (trimSpace v) of
               None \<Rightarrow> None
             | Some n \<Rightarrow>
                 if n < 0 \<or> 2 ^ 60 \<le> n \<or> values key \<noteq> None then None
                 else stat_values lines (values(key \<mapsto> n)))
          else stat_values lines values)"

definition pressureFileCache :: "string \<Rightarrow> int option" where
  "pressureFileCache body = do {
     values \<leftarrow> stat_values (split_byte (CHR 0x0A) body) Map.empty;
     file \<leftarrow> values ''file'';
     mapped \<leftarrow> values ''file_mapped'';
     dirty \<leftarrow> values ''file_dirty'';
     writeback \<leftarrow> values ''file_writeback'';
     Some (max 0 (file - (mapped + dirty + writeback + 4 * MiB)))
   }"

text \<open>\<open>metrics\<close> is the six samples of the Go runtime, \<open>None\<close> for one that is not an unsigned counter.\<close>

definition controllerPressure :: "int option \<Rightarrow> string option \<Rightarrow> (int option) list \<Rightarrow> loanPressure option" where
  "controllerPressure usage stat metrics = do {
     used \<leftarrow> usage;
     body \<leftarrow> readBounded stat (32 * 1024);
     cleanFile \<leftarrow> pressureFileCache body;
     if list_all (\<lambda>v. case v of None \<Rightarrow> False | Some n \<Rightarrow> n < 2 ^ 60) metrics \<and> length metrics = 6 then
       (let values = map the metrics;
            managed = max 0 (values ! 0 - values ! 1);
            nonHeap = max 0 (managed - values ! 2 - values ! 3 - values ! 4)
        in Some \<lparr>lp_used = used, lp_managed = managed, lp_live = values ! 5, lp_nonHeap = nonHeap,
             lp_cleanFile = cleanFile\<rparr>)
     else None
   }"

section \<open>The usage counter of the cgroup\<close>

text \<open>A cgroup directory: the content of \<open>cgroup.procs\<close> and the entries, \<open>None\<close> where reading fails.\<close>

datatype cgroup_entry = EntryFile | EntrySymlink | EntryDir cgroup_dir
  and cgroup_dir = CgroupDir "string option" "cgroup_entry list option"

fun entry_dirs :: "cgroup_entry list \<Rightarrow> cgroup_dir list" where
  "entry_dirs [] = []"
| "entry_dirs (EntryDir d # es) = d # entry_dirs es"
| "entry_dirs (_ # es) = entry_dirs es"

lemma entry_dirs_size: "d \<in> set (entry_dirs es) \<Longrightarrow> size d < size_list size es"
  by (induction es rule: entry_dirs.induct) auto

definition procs_valid :: "string list \<Rightarrow> bool" where
  "procs_valid ps = list_all (\<lambda>p. case parseInt64 p of None \<Rightarrow> False | Some v \<Rightarrow> 0 < v) ps"

function ownsCgroupRoot :: "cgroup_dir \<Rightarrow> string \<Rightarrow> nat \<Rightarrow> bool" where
  "ownsCgroupRoot (CgroupDir procs entries) own depth =
     (if 8 \<le> depth then False
      else case readBounded procs (64 * 1024) of
        None \<Rightarrow> False
      | Some body \<Rightarrow>
          let ps = Go_Strings.fields body in
          if \<not> procs_valid ps then False
          else if ps \<noteq> [] then own \<in> set ps
          else (case entries of
            None \<Rightarrow> False
          | Some es \<Rightarrow>
              if EntrySymlink \<in> set es then False
              else (case entry_dirs es of
                [child] \<Rightarrow> ownsCgroupRoot child own (Suc depth)
              | _ \<Rightarrow> False)))"
  by pat_completeness auto
termination
  by (relation "measure (\<lambda>(_, _, depth). 8 - depth)") auto

declare ownsCgroupRoot.simps [simp del]

definition cgroupRootUsage :: "cgroup_dir \<Rightarrow> string option \<Rightarrow> string \<Rightarrow> int option" where
  "cgroupRootUsage dir memory_current pid =
     (if \<not> ownsCgroupRoot dir pid 0 then None
      else case readBounded memory_current 64 of
        None \<Rightarrow> None
      | Some body \<Rightarrow> (case parseInt64 (trimSpace body) of
          None \<Rightarrow> None
        | Some v \<Rightarrow> if 0 \<le> v then Some v else None))"

section \<open>The loan\<close>

record acmeLoan =
  ln_slot :: channel
  ln_base :: int
  ln_idle :: int
  ln_worker :: int
  ln_limit :: int
  ln_current :: int
  ln_set :: int

text \<open>\<open>ln_set\<close> is the soft limit that \<open>setLimit\<close> put in force. The sample of \<open>loan.pressure\<close> is an argument:
  \<open>None\<close> without a pressure source, \<open>Some None\<close> when the sample fails.\<close>

type_synonym pressure_sample = "loanPressure option option"

definition idleLimit :: "acmeLoan \<Rightarrow> pressure_sample \<Rightarrow> int" where
  "idleLimit loan pressure =
     (if ch_len (ln_slot loan) \<noteq> 0 then ln_base loan
      else case pressure of
        None \<Rightarrow> ln_idle loan
      | Some None \<Rightarrow> ln_base loan
      | Some (Some p) \<Rightarrow>
          let other = max 0 (lp_used p - lp_managed p - lp_cleanFile p);
              available = ln_limit loan - min (24 * MiB) (ln_limit loan div 8) - other;
              floor = min (ln_idle loan) (max (ln_base loan) (lp_live p + lp_nonHeap p + 8 * MiB))
          in max floor (min (ln_idle loan) available))"

definition applyLimit :: "acmeLoan \<Rightarrow> int \<Rightarrow> acmeLoan" where
  "applyLimit loan limit = loan\<lparr>ln_set := limit, ln_current := limit\<rparr>"

definition adjustPressure :: "acmeLoan \<Rightarrow> pressure_sample \<Rightarrow> acmeLoan" where
  "adjustPressure loan pressure =
     (let target = idleLimit loan pressure;
          loan = (if ln_current loan = 0 then loan\<lparr>ln_current := ln_idle loan\<rparr> else loan);
          target = (if ln_current loan < target then min target (ln_current loan + 4 * MiB) else target);
          difference = max target (ln_current loan) - min target (ln_current loan)
      in if target \<noteq> ln_current loan \<and> (target = ln_base loan \<or> target = ln_idle loan \<or> MiB \<le> difference)
         then applyLimit loan target else loan)"

definition canLendACME :: "Plan \<Rightarrow> Limits \<Rightarrow> bool \<Rightarrow> bool" where
  "canLendACME plan limits readable \<longleftrightarrow>
     readable \<and> (0 < li_High limits \<or> 0 < li_Max limits) \<and> pn_Ceiling (Derive limits) = pn_Ceiling plan"

text \<open>\<open>lend\<close> and \<open>monitored\<close> are the two environment switches, \<open>usage\<close> what \<open>currentUsage\<close> returns,
  \<open>pressure\<close> a first sample. \<open>Configure\<close> sets the returned limit.\<close>

definition configureACMELoan ::
  "Plan \<Rightarrow> string \<Rightarrow> bool \<Rightarrow> int option \<Rightarrow> Limits \<Rightarrow> bool \<Rightarrow> loanPressure option \<Rightarrow> int \<times> acmeLoan option" where
  "configureACMELoan plan requested lend usage limits monitored pressure =
     (let base = Cap (pn_Gateway plan) requested in
      if \<not> lend then (base, None)
      else if \<not> canLendACME plan limits (usage \<noteq> None) then (base, None)
      else let idle = Cap (pn_Gateway plan + pn_Worker plan) requested in
        if idle \<le> base then (base, None)
        else if monitored \<and> pressure = None then (base, None)
        else (idle, Some \<lparr>ln_slot = make_chan 1, ln_base = base, ln_idle = idle, ln_worker = pn_Worker plan,
               ln_limit = pn_Ceiling plan, ln_current = idle, ln_set = idle\<rparr>))"

definition Configure ::
  "Plan \<Rightarrow> Role \<Rightarrow> string \<Rightarrow> bool \<Rightarrow> bool \<Rightarrow> int option \<Rightarrow> Limits \<Rightarrow> bool \<Rightarrow> loanPressure option \<Rightarrow> int \<times> acmeLoan option" where
  "Configure plan role requested enabled lend usage limits monitored pressure =
     (if \<not> enabled then (0, None)
      else if role = GatewayRole then configureACMELoan plan requested lend usage limits monitored pressure
      else (Cap (plan_for plan role) requested, None))"

section \<open>Admission of a worker\<close>

definition headroom :: "acmeLoan \<Rightarrow> int" where
  "headroom loan = ln_limit loan - ln_worker loan - min (16 * MiB) (ln_worker loan div 2)"

definition release_loan :: "acmeLoan \<Rightarrow> pressure_sample \<Rightarrow> acmeLoan go" where
  "release_loan loan pressure = do {
     c \<leftarrow> chan_recv (ln_slot loan);
     let loan = loan\<lparr>ln_slot := c\<rparr>;
     Some (applyLimit loan (idleLimit loan pressure))
   }"

datatype loan_error = LoanContext string | LoanNoCounter | LoanNoHeadroom

datatype wake = Tick | Cancelled string | Deadline

text \<open>The waiting loop of \<open>acquire\<close>: each round samples the usage and then waits for one of three channels.\<close>

fun await_headroom :: "acmeLoan \<Rightarrow> (int option \<times> wake) list \<Rightarrow> (loan_error option) option" where
  "await_headroom loan [] = None"
| "await_headroom loan ((usage, wake) # rounds) =
     (case usage of
        None \<Rightarrow> Some (Some LoanNoCounter)
      | Some used \<Rightarrow>
          if used \<le> headroom loan then Some None
          else (case wake of
            Cancelled err \<Rightarrow> Some (Some (LoanContext err))
          | Deadline \<Rightarrow> Some (Some LoanNoHeadroom)
          | Tick \<Rightarrow> await_headroom loan rounds))"

record acquire_env =
  ae_ctx :: "string option"
  ae_slot :: "string option"
  ae_ctx_base :: "string option"
  ae_first :: "int option"
  ae_rounds :: "(int option \<times> wake) list"
  ae_ctx_last :: "string option"
  ae_pressure :: pressure_sample

text \<open>\<open>ae_ctx\<close>, \<open>ae_ctx_base\<close> and \<open>ae_ctx_last\<close> are the context error at the three checks, \<open>ae_slot\<close> the error when
  the context ends before the slot is free. \<open>None\<close> as the outcome is a call that still waits.\<close>

definition fail_loan :: "acmeLoan \<Rightarrow> pressure_sample \<Rightarrow> loan_error \<Rightarrow> (acmeLoan \<times> loan_error option) go" where
  "fail_loan loan pressure err = do { loan \<leftarrow> release_loan loan pressure; Some (loan, Some err) }"

definition acquire_loan :: "acmeLoan \<Rightarrow> acquire_env \<Rightarrow> (acmeLoan \<times> loan_error option) go" where
  "acquire_loan loan env =
     (case ae_ctx env of
        Some err \<Rightarrow> Some (loan, Some (LoanContext err))
      | None \<Rightarrow>
          (case ae_slot env of
             Some err \<Rightarrow> Some (loan, Some (LoanContext err))
           | None \<Rightarrow>
               let (c, sent) = chan_try_send (ln_slot loan) in
               if \<not> sent then None
               else let loan = applyLimit (loan\<lparr>ln_slot := c\<rparr>) (ln_base loan); fail = fail_loan loan (ae_pressure env) in
                 (case ae_ctx_base env of
                    Some err \<Rightarrow> fail (LoanContext err)
                  | None \<Rightarrow>
                      (case ae_first env of
                         None \<Rightarrow> fail LoanNoCounter
                       | Some used \<Rightarrow> do {
                           waited \<leftarrow> (if used \<le> headroom loan then Some None else await_headroom loan (ae_rounds env));
                           case waited of
                             Some err \<Rightarrow> fail err
                           | None \<Rightarrow>
                               (case ae_ctx_last env of
                                  Some err \<Rightarrow> fail (LoanContext err)
                                | None \<Rightarrow> Some (loan, None))
                         }))))"

section \<open>Interleaving\<close>

text \<open>
  The goroutines that call \<open>acquire\<close>: waiting for the slot, holding it, with the limit lowered, with an
  admitted worker, inside the release with the mutex held, and finished.
\<close>

datatype acquirer = Waiting | HasSlot | Lowered | Admitted | Releasing | Finished

record loan_state =
  ls_loan :: acmeLoan
  ls_locked :: bool
  ls_procs :: "acquirer list"

inductive loan_step :: "loan_state \<Rightarrow> loan_state \<Rightarrow> bool" where
  loan_call: "loan_step s (s\<lparr>ls_procs := Waiting # ls_procs s\<rparr>)"
| loan_giveup: "ls_procs s = xs @ Waiting # ys \<Longrightarrow> loan_step s (s\<lparr>ls_procs := xs @ Finished # ys\<rparr>)"
| loan_slot: "ls_procs s = xs @ Waiting # ys \<Longrightarrow> chan_try_send (ln_slot (ls_loan s)) = (c, True) \<Longrightarrow>
    loan_step s (s\<lparr>ls_loan := (ls_loan s)\<lparr>ln_slot := c\<rparr>, ls_procs := xs @ HasSlot # ys\<rparr>)"
| loan_lower: "ls_procs s = xs @ HasSlot # ys \<Longrightarrow> \<not> ls_locked s \<Longrightarrow>
    loan_step s (s\<lparr>ls_loan := applyLimit (ls_loan s) (ln_base (ls_loan s)), ls_procs := xs @ Lowered # ys\<rparr>)"
| loan_admit: "ls_procs s = xs @ Lowered # ys \<Longrightarrow> used \<le> headroom (ls_loan s) \<Longrightarrow>
    loan_step s (s\<lparr>ls_procs := xs @ Admitted # ys\<rparr>)"
| loan_receive: "ls_procs s = xs @ p # ys \<Longrightarrow> p = Lowered \<or> p = Admitted \<Longrightarrow> \<not> ls_locked s \<Longrightarrow>
    chan_recv (ln_slot (ls_loan s)) = Some c \<Longrightarrow>
    loan_step s \<lparr>ls_loan = (ls_loan s)\<lparr>ln_slot := c\<rparr>, ls_locked = True, ls_procs = xs @ Releasing # ys\<rparr>"
| loan_restore: "ls_procs s = xs @ Releasing # ys \<Longrightarrow>
    loan_step s \<lparr>ls_loan = applyLimit (ls_loan s) (idleLimit (ls_loan s) pressure), ls_locked = False,
      ls_procs = xs @ Finished # ys\<rparr>"
| loan_adjust: "\<not> ls_locked s \<Longrightarrow> loan_step s (s\<lparr>ls_loan := adjustPressure (ls_loan s) pressure\<rparr>)"

inductive loan_reach :: "acmeLoan \<Rightarrow> loan_state \<Rightarrow> bool" for loan where
  loan_start: "loan_reach loan \<lparr>ls_loan = loan, ls_locked = False, ls_procs = []\<rparr>"
| loan_next: "loan_reach loan s \<Longrightarrow> loan_step s s' \<Longrightarrow> loan_reach loan s'"

section \<open>Invariant\<close>

definition holding :: "acquirer \<Rightarrow> bool" where
  "holding p \<longleftrightarrow> p \<in> {HasSlot, Lowered, Admitted}"

definition terms :: "acmeLoan \<Rightarrow> int \<times> int \<times> int \<times> int" where
  "terms loan = (ln_base loan, ln_idle loan, ln_worker loan, ln_limit loan)"

definition loan_ok :: "acmeLoan \<Rightarrow> bool" where
  "loan_ok loan \<longleftrightarrow> 0 < ln_base loan \<and> ln_base loan \<le> ln_current loan \<and> ln_current loan \<le> ln_idle loan \<and>
     ln_set loan = ln_current loan \<and> ch_cap (ln_slot loan) = 1"

definition loan_inv :: "acmeLoan \<Rightarrow> loan_state \<Rightarrow> bool" where
  "loan_inv loan0 s \<longleftrightarrow> loan_ok (ls_loan s) \<and> terms (ls_loan s) = terms loan0 \<and>
     ch_len (ln_slot (ls_loan s)) = length (filter holding (ls_procs s)) \<and>
     length (filter (\<lambda>p. p = Releasing) (ls_procs s)) = (if ls_locked s then 1 else 0) \<and>
     (Lowered \<in> set (ls_procs s) \<or> Admitted \<in> set (ls_procs s) \<longrightarrow>
        \<not> ls_locked s \<and> ln_current (ls_loan s) = ln_base (ls_loan s)) \<and>
     ch_len (ln_slot (ls_loan s)) \<le> 1"

lemma idleLimit_bounds:
  assumes "ln_base loan \<le> ln_idle loan"
  shows "ln_base loan \<le> idleLimit loan pressure \<and> idleLimit loan pressure \<le> ln_idle loan"
  using assms by (auto simp: idleLimit_def Let_def le_max_iff_disj split: option.splits)

lemma idleLimit_held: "ch_len (ln_slot loan) \<noteq> 0 \<Longrightarrow> idleLimit loan pressure = ln_base loan"
  by (simp add: idleLimit_def split: option.split)

lemma applyLimit_simps [simp]:
  "ln_slot (applyLimit loan v) = ln_slot loan" "terms (applyLimit loan v) = terms loan"
  "ln_current (applyLimit loan v) = v" "ln_set (applyLimit loan v) = v" "ln_base (applyLimit loan v) = ln_base loan"
  "ln_idle (applyLimit loan v) = ln_idle loan" "ln_worker (applyLimit loan v) = ln_worker loan"
  "ln_limit (applyLimit loan v) = ln_limit loan"
  by (simp_all add: applyLimit_def terms_def)

lemma adjustPressure_ok:
  assumes "loan_ok loan"
  shows "loan_ok (adjustPressure loan pressure)" "terms (adjustPressure loan pressure) = terms loan"
    "ln_slot (adjustPressure loan pressure) = ln_slot loan"
    "ln_current (adjustPressure loan pressure) \<le> ln_current loan + 4 * MiB"
    "ch_len (ln_slot loan) \<noteq> 0 \<Longrightarrow> ln_current (adjustPressure loan pressure) = ln_base loan"
proof -
  have cur: "ln_current loan \<noteq> 0" using assms by (simp add: loan_ok_def)
  have bounds: "ln_base loan \<le> idleLimit loan pressure \<and> idleLimit loan pressure \<le> ln_idle loan"
    using assms by (intro idleLimit_bounds) (simp add: loan_ok_def)
  show "loan_ok (adjustPressure loan pressure)" "ln_slot (adjustPressure loan pressure) = ln_slot loan"
    using assms bounds cur by (auto simp: adjustPressure_def loan_ok_def Let_def)
  show "terms (adjustPressure loan pressure) = terms loan"
    using cur by (simp add: adjustPressure_def Let_def)
  show "ln_current (adjustPressure loan pressure) \<le> ln_current loan + 4 * MiB"
    using cur by (auto simp: adjustPressure_def Let_def)
  show "ln_current (adjustPressure loan pressure) = ln_base loan" if "ch_len (ln_slot loan) \<noteq> 0"
    using assms cur idleLimit_held [OF that] by (auto simp: adjustPressure_def loan_ok_def Let_def)
qed

lemma holding_simps [simp]:
  "holding HasSlot" "holding Lowered" "holding Admitted" "\<not> holding Waiting" "\<not> holding Releasing" "\<not> holding Finished"
  by (simp_all add: holding_def)

lemma none_holding:
  assumes "length (filter holding ps) = 0"
  shows "Lowered \<notin> set ps" "Admitted \<notin> set ps" "HasSlot \<notin> set ps"
  using assms by (force simp: filter_empty_conv)+

lemma slot_ops:
  "chan_try_send ch = (c, True) \<Longrightarrow> ch_len c = Suc (ch_len ch) \<and> ch_cap c = ch_cap ch \<and> ch_len ch < ch_cap ch"
  "chan_recv ch = Some c \<Longrightarrow> Suc (ch_len c) = ch_len ch \<and> ch_cap c = ch_cap ch"
  by (auto simp: chan_try_send_def chan_recv_def split: if_splits)

lemma terms_slot [simp]: "terms (loan\<lparr>ln_slot := c\<rparr>) = terms loan"
  by (simp add: terms_def)

lemma loan_step_inv:
  assumes "loan_step s s'" and "loan_inv loan0 s" shows "loan_inv loan0 s'"
  using assms(1)
proof cases
  case (loan_call)
  then show ?thesis using assms(2) by (auto simp: loan_inv_def)
next
  case (loan_giveup xs ys)
  then show ?thesis using assms(2) by (auto simp: loan_inv_def)
next
  case (loan_slot xs ys c)
  have "length (filter holding (xs @ ys)) = 0"
    using assms(2) loan_slot slot_ops(1) [OF loan_slot(3)] by (simp add: loan_inv_def loan_ok_def)
  from none_holding [OF this] show ?thesis
    using assms(2) loan_slot slot_ops(1) [OF loan_slot(3)] by (auto simp: loan_inv_def loan_ok_def)
next
  case (loan_lower xs ys)
  then show ?thesis using assms(2) by (auto simp: loan_inv_def loan_ok_def)
next
  case (loan_admit xs ys used)
  then show ?thesis using assms(2) by (auto simp: loan_inv_def)
next
  case (loan_receive xs p ys c)
  have p: "holding p" "p \<noteq> Releasing" using loan_receive(3) by auto
  have "ch_len (ln_slot (ls_loan s)) = Suc (length (filter holding (xs @ ys)))" "ch_len (ln_slot (ls_loan s)) \<le> 1"
    using assms(2) loan_receive(2) p unfolding loan_inv_def by auto
  then have "length (filter holding (xs @ ys)) = 0" by simp
  from none_holding [OF this] show ?thesis
    using assms(2) loan_receive p slot_ops(2) [OF loan_receive(5)] by (auto simp: loan_inv_def loan_ok_def)
next
  case (loan_restore xs ys pressure)
  have "ls_locked s" using assms(2) loan_restore(2) by (auto simp: loan_inv_def split: if_splits)
  then show ?thesis
    using assms(2) loan_restore idleLimit_bounds [of "ls_loan s" pressure]
    by (auto simp: loan_inv_def loan_ok_def)
next
  case (loan_adjust pressure)
  have ok: "loan_ok (ls_loan s)" using assms(2) by (simp add: loan_inv_def)
  have "ln_base (adjustPressure (ls_loan s) pressure) = ln_base (ls_loan s)"
    using adjustPressure_ok(2) [OF ok] by (simp add: terms_def)
  moreover have "ch_len (ln_slot (ls_loan s)) \<noteq> 0" if "Lowered \<in> set (ls_procs s) \<or> Admitted \<in> set (ls_procs s)"
    using that assms(2) none_holding(1,2) [of "ls_procs s"] by (auto simp: loan_inv_def)
  ultimately show ?thesis
    using assms(2) loan_adjust adjustPressure_ok [OF ok, of pressure] by (auto simp: loan_inv_def)
qed

lemma loan_reach_inv:
  assumes "loan_reach loan s" and "loan_ok loan" and "ch_len (ln_slot loan) = 0"
  shows "loan_inv loan s"
  using assms
proof (induction rule: loan_reach.induct)
  case (loan_next s s')
  then show ?case using loan_step_inv by blast
qed (simp add: loan_inv_def)

text \<open>What \<open>configureACMELoan\<close> sets up fits the plan.\<close>

lemma configured_loan:
  assumes "configureACMELoan (Derive limits) requested lend usage detected monitored pressure = (v, Some loan)"
  shows "loan_ok loan" "ch_len (ln_slot loan) = 0" "ln_worker loan = pn_Worker (Derive limits)"
    "ln_base loan \<le> pn_Gateway (Derive limits)" "ln_idle loan \<le> pn_Gateway (Derive limits) + pn_Worker (Derive limits)"
    "v = ln_set loan" "ln_limit loan = pn_Ceiling (Derive limits)"
proof -
  let ?p = "Derive limits"
  obtain N where N: "pn_Xray ?p = N * 65 div 100" "pn_Gateway ?p = N - pn_Xray ?p" "0 \<le> pn_Worker ?p"
      "budget_ceiling limits \<le> 2 * N"
    using Derive_parts [of ?p limits] by metis
  have "N * 65 div 100 < N" using N(4) budget_ceiling_bounds(1) [of limits] by (simp add: div_less_iff_less_mult)
  then have g: "0 < pn_Gateway ?p" using N by simp
  have base: "0 < Cap (pn_Gateway ?p) requested \<and> Cap (pn_Gateway ?p) requested \<le> pn_Gateway ?p"
    by (rule Cap_bounded [OF g])
  have idle: "Cap (pn_Gateway ?p + pn_Worker ?p) requested \<le> pn_Gateway ?p + pn_Worker ?p"
    using Cap_bounded [of "pn_Gateway ?p + pn_Worker ?p" requested] g N(3) by simp
  have "loan = \<lparr>ln_slot = make_chan 1, ln_base = Cap (pn_Gateway ?p) requested,
      ln_idle = Cap (pn_Gateway ?p + pn_Worker ?p) requested, ln_worker = pn_Worker ?p, ln_limit = pn_Ceiling ?p,
      ln_current = Cap (pn_Gateway ?p + pn_Worker ?p) requested, ln_set = Cap (pn_Gateway ?p + pn_Worker ?p) requested\<rparr> \<and>
      Cap (pn_Gateway ?p) requested < Cap (pn_Gateway ?p + pn_Worker ?p) requested \<and>
      v = Cap (pn_Gateway ?p + pn_Worker ?p) requested"
    using assms unfolding configureACMELoan_def Let_def by (auto split: if_splits)
  then show "loan_ok loan" "ch_len (ln_slot loan) = 0" "ln_worker loan = pn_Worker ?p" "v = ln_set loan"
    "ln_base loan \<le> pn_Gateway ?p" "ln_idle loan \<le> pn_Gateway ?p + pn_Worker ?p" "ln_limit loan = pn_Ceiling ?p"
    using base idle by (simp_all add: loan_ok_def)
qed

section \<open>Properties\<close>

text \<open>The budgets divide the ceiling: for any limits of the cgroup the derived ceiling is positive, below
  \<open>memory.high\<close> and an eighth below \<open>memory.max\<close> where these are set; controller, Xray, the two helper
  budgets and the reserve are not negative and add up to exactly the ceiling; the controller and Xray
  together get at least half, Xray 65 per cent of that; and a requested limit can only lower the
  budget of a role.\<close>

theorem budgets_divide_ceiling:
  fixes limits
  defines "p \<equiv> Derive limits"
  assumes "0 < budget"
  shows "pn_Gateway p + pn_Xray p + 2 * pn_Worker p + pn_Reserve p = pn_Ceiling p \<and> 0 < pn_Ceiling p \<and>
    0 \<le> pn_Gateway p \<and> 0 \<le> pn_Xray p \<and> 0 \<le> pn_Worker p \<and> 0 \<le> pn_Reserve p \<and>
    pn_Ceiling p \<le> 2 * (pn_Gateway p + pn_Xray p) \<and> pn_Xray p = (pn_Gateway p + pn_Xray p) * 65 div 100 \<and>
    (0 < li_High limits \<longrightarrow> pn_Ceiling p \<le> li_High limits) \<and>
    (0 < li_Max limits \<longrightarrow> pn_Ceiling p \<le> li_Max limits - li_Max limits div 8) \<and>
    0 < Cap budget requested \<and> Cap budget requested \<le> budget"
proof -
  obtain N where "budget_ceiling limits = N + 2 * pn_Worker p + pn_Reserve p" "pn_Xray p = N * 65 div 100"
      "pn_Gateway p = N - pn_Xray p" "pn_Ceiling p = budget_ceiling limits" "0 \<le> pn_Worker p" "0 \<le> pn_Reserve p"
      "budget_ceiling limits \<le> 2 * N" "0 \<le> pn_Xray p" "pn_Xray p \<le> N"
    using Derive_parts [OF p_def [THEN meta_eq_to_obj_eq] refl] by metis
  then show ?thesis
    using budget_ceiling_bounds [of limits] Cap_bounded [OF assms(2), of requested] by simp
qed

theorem budgets_divide_ceiling_witness:
  "pn_Ceiling (Derive \<lparr>li_High = 0, li_Max = 256 * MiB\<rparr>) = 224 * MiB \<and>
   pn_Gateway (Derive \<lparr>li_High = 0, li_Max = 256 * MiB\<rparr>) + pn_Xray (Derive \<lparr>li_High = 0, li_Max = 256 * MiB\<rparr>) +
     2 * pn_Worker (Derive \<lparr>li_High = 0, li_Max = 256 * MiB\<rparr>) + pn_Reserve (Derive \<lparr>li_High = 0, li_Max = 256 * MiB\<rparr>) =
   224 * MiB"
proof -
  have "pn_Ceiling (Derive \<lparr>li_High = 0, li_Max = 256 * MiB\<rparr>) = 224 * MiB"
    by (simp add: Derive_def budget_ceiling_def Let_def)
  then show ?thesis
    using budgets_divide_ceiling [of 1 "\<lparr>li_High = 0, li_Max = 256 * MiB\<rparr>" "''off''"] by simp
qed

text \<open>C18: The loan never overcommits: in every interleaving of \<open>acquire\<close>, release and the pressure
  monitor, the soft limit in force for the controller, plus the budget of an admitted ACME worker,
  plus the budgets of Xray, of the validation helper and the reserve, is at most the ceiling; at
  most one worker is admitted; and the limit stays between the base and the idle limit. The slot is
  held exactly while a goroutine is between taking and giving it back, so none is lost.\<close>

theorem loan_never_overcommits:
  assumes "configureACMELoan (Derive limits) requested lend usage detected monitored pressure = (v, Some loan)"
    and "loan_reach loan s"
  shows "ln_set (ls_loan s) + (if Admitted \<in> set (ls_procs s) then ln_worker loan else 0) +
      pn_Xray (Derive limits) + pn_Worker (Derive limits) + pn_Reserve (Derive limits) \<le> pn_Ceiling (Derive limits) \<and>
    length (filter (\<lambda>p. p = Admitted) (ls_procs s)) \<le> 1 \<and>
    ln_base loan \<le> ln_set (ls_loan s) \<and> ln_set (ls_loan s) \<le> ln_idle loan \<and>
    ch_len (ln_slot (ls_loan s)) = length (filter holding (ls_procs s))"
proof -
  note c = configured_loan [OF assms(1)]
  have inv: "loan_inv loan s" by (rule loan_reach_inv [OF assms(2) c(1,2)])
  have terms: "ln_base (ls_loan s) = ln_base loan" "ln_idle (ls_loan s) = ln_idle loan"
    using inv by (simp_all add: loan_inv_def terms_def)
  have set: "ln_set (ls_loan s) = ln_current (ls_loan s)" "ln_base loan \<le> ln_current (ls_loan s)"
      "ln_current (ls_loan s) \<le> ln_idle loan"
    using inv terms by (simp_all add: loan_inv_def loan_ok_def)
  have "length (filter (\<lambda>p. p = Admitted) ps) \<le> length (filter holding ps)" for ps
    by (induction ps) auto
  then have one: "length (filter (\<lambda>p. p = Admitted) (ls_procs s)) \<le> 1"
    using inv unfolding loan_inv_def by (metis le_trans)
  have admitted: "ln_current (ls_loan s) = ln_base loan" if "Admitted \<in> set (ls_procs s)"
    using inv that terms by (simp add: loan_inv_def)
  obtain N where "budget_ceiling limits = N + 2 * pn_Worker (Derive limits) + pn_Reserve (Derive limits)"
      "pn_Gateway (Derive limits) = N - pn_Xray (Derive limits)" "pn_Ceiling (Derive limits) = budget_ceiling limits"
    using Derive_parts [OF refl refl] by metis
  with c set admitted one inv show ?thesis
    by (auto simp: loan_inv_def)
qed

definition small_limits :: Limits where
  "small_limits = \<lparr>li_High = 0, li_Max = 256 * MiB\<rparr>"

lemma small_loan:
  "\<exists>loan. configureACMELoan (Derive small_limits) ''off'' True (Some 0) small_limits False None = (ln_idle loan, Some loan) \<and>
     ln_worker loan = 28 * MiB"
proof -
  have off: "trimSpace ''off'' = ''off''" by (simp add: trimSpace_def is_space_def)
  have "Derive small_limits = \<lparr>pn_Ceiling = 234881024, pn_Gateway = 46976205, pn_Xray = 87241523, pn_Worker = 29360128,
      pn_Reserve = 41943040\<rparr>"
    by (simp add: Derive_def budget_ceiling_def small_limits_def Let_def)
  then show ?thesis
    by (simp add: configureACMELoan_def canLendACME_def Cap_def off Let_def) (simp add: small_limits_def)
qed

theorem loan_never_overcommits_witness:
  "\<exists>loan s. loan_reach loan s \<and> ls_procs s = [Waiting] \<and> ln_worker loan = 28 * MiB \<and>
     ln_set (ls_loan s) + pn_Xray (Derive small_limits) + pn_Worker (Derive small_limits) +
       pn_Reserve (Derive small_limits) \<le> pn_Ceiling (Derive small_limits)"
proof -
  obtain loan where l: "configureACMELoan (Derive small_limits) ''off'' True (Some 0) small_limits False None =
      (ln_idle loan, Some loan)" "ln_worker loan = 28 * MiB"
    using small_loan by blast
  let ?s = "\<lparr>ls_loan = loan, ls_locked = False, ls_procs = [Waiting]\<rparr>"
  have "loan_reach loan ?s" using loan_next [OF loan_start loan_call] by simp
  with loan_never_overcommits [OF l(1) this] l(2) show ?thesis by (intro exI [of _ loan] exI [of _ ?s]) simp
qed

lemma idleLimit_applied: "idleLimit (applyLimit loan v) pressure = idleLimit loan pressure"
  by (simp add: idleLimit_def split: option.split)

lemma release_loan_ok:
  assumes "loan_ok loan" and "ch_len (ln_slot loan) = 1"
  shows "\<exists>loan'. release_loan loan pressure = Some loan' \<and> loan_ok loan' \<and> terms loan' = terms loan \<and>
    ch_len (ln_slot loan') = 0 \<and> ln_set loan' = idleLimit loan' pressure"
  using assms idleLimit_bounds [of "loan\<lparr>ln_slot := (ln_slot loan)\<lparr>ch_len := 0\<rparr>\<rparr>" pressure]
  by (simp add: release_loan_def chan_recv_def loan_ok_def Let_def idleLimit_applied)

text \<open>The loop ends without an error at the first sample that fits.\<close>

lemma await_headroom_verified:
  "await_headroom loan rounds = Some None \<Longrightarrow> \<exists>early used late. map fst rounds = early @ Some used # late \<and> used \<le> headroom loan \<and>
     list_all (\<lambda>u. \<exists>v > headroom loan. u = Some v) early"
proof (induction loan rounds rule: await_headroom.induct)
  case (2 loan usage wake rounds)
  obtain used where used: "usage = Some used" using "2.prems" by (cases usage) auto
  show ?case
  proof (cases "used \<le> headroom loan")
    case True
    then show ?thesis using used by (intro exI [of _ "[]"] exI [of _ used] exI [of _ "map fst rounds"]) simp
  next
    case False
    then obtain early v late where ih: "map fst rounds = early @ Some v # late" "v \<le> headroom loan" "list_all (\<lambda>u. \<exists>v > headroom loan. u = Some v) early"
      using "2.IH" [OF used False] "2.prems" used by (cases wake) auto
    then show ?thesis using used False by (intro exI [of _ "Some used # early"] exI [of _ v] exI [of _ late]) simp
  qed
qed simp

lemma fail_loan_ok:
  assumes "loan_ok loan" "ch_len (ln_slot loan) = 1" "fail_loan loan pressure err = Some (loan', result)"
  shows "loan_ok loan' \<and> terms loan' = terms loan \<and> ch_len (ln_slot loan') = 0 \<and> ln_set loan' = idleLimit loan' pressure \<and> result = Some err"
  using release_loan_ok [OF assms(1,2), of pressure] assms(3) by (auto simp: fail_loan_def)

text \<open>The limit of a free slot, written out.\<close>

lemma idleLimit_free:
  assumes "ch_len (ln_slot loan') = 0" "terms loan' = terms loan"
  shows "idleLimit loan' pressure = (case pressure of
      None \<Rightarrow> ln_idle loan
    | Some None \<Rightarrow> ln_base loan
    | Some (Some p) \<Rightarrow> max (min (ln_idle loan) (max (ln_base loan) (lp_live p + lp_nonHeap p + 8 * MiB)))
        (min (ln_idle loan) (ln_limit loan - min (24 * MiB) (ln_limit loan div 8) - max 0 (lp_used p - lp_managed p - lp_cleanFile p))))"
  using assms by (simp add: idleLimit_def terms_def Let_def split: option.split)



end
