(* ===== verification/Health_State.thy ===== *)
theory Health_State
  imports Go_Strings "HOL-Library.Product_Lexorder" "HOL-Library.Multiset"
begin

text \<open>
  The state of a routing policy in the health agent, \<^verbatim>\<open>internal/agent/health.go\<close>, its settings, and the
  sample histories and statistics of \<^verbatim>\<open>internal/agent/health_logic.go\<close> and
  \<^verbatim>\<open>internal/agent/health_history_stats.go\<close>.

  \<^item> A Go map that is only looked up is a total function with the zero value for missing keys;
    a map that is iterated or whose size matters is an association list.
  \<^item> A nil pointer to an integer is \<open>None\<close>.
  \<^item> Times are nanoseconds. Seconds that the code keeps as \<^verbatim>\<open>float64\<close> are \<open>rat\<close>, without the
    rounding of floating point.
  \<^item> A time that the code keeps as a formatted UTC string is the instant it denotes, and a day
    (\<^verbatim>\<open>2006-01-02\<close>) the number of days since the epoch, which has the same order.
\<close>

section \<open>Data\<close>

datatype probeFailureClass =
  FailureNone | FailureTimeout | FailureFatal | FailureTLS | FailureDNS | FailureTransient

record healthSample =
  hs_At :: rat
  hs_ObservedAt :: rat
  hs_OK :: bool
  hs_DelayMS :: "int option"

record probeEvidence =
  pe_QualityUnmeasured :: bool
  pe_PrimaryQualityFailed :: bool
  pe_ObservedAt :: "nanos option"
  pe_Deferred :: bool
  pe_LocalFailure :: bool
  pe_OK :: bool
  pe_ResponseDelayMS :: "int option"
  pe_DelayMS :: "int option"
  pe_Failure :: probeFailureClass

record dayBucket =
  db_Samples :: int
  db_Successes :: int
  db_Failures :: int
  db_LatencySamples :: "int list"

record healthStats =
  st_Samples :: int
  st_Successes :: int
  st_Failures :: int
  st_LossPercent :: "rat option"
  st_AvailabilityPercent :: "rat option"
  st_MedianMS :: "int option"
  st_P95MS :: "int option"
  st_Days :: int
  st_LatencySampleCount :: int
  st_PercentilesApproximate :: bool

record optimizationComparison =
  oc_ActiveSampleAt :: rat
  oc_CandidateSampleAt :: rat
  oc_ActiveResponseMS :: "int option"
  oc_CandidateResponseMS :: "int option"
  oc_Measurement :: string
  oc_ImprovementMS :: int
  oc_At :: nanos
  oc_Candidate :: string
  oc_Result :: string
  oc_Reason :: string
  oc_ActiveDelayMS :: "int option"
  oc_CandidateDelayMS :: "int option"

record workingSelection =
  ws_Selected :: string
  ws_Mode :: string
  ws_CandidateSignature :: string

record probeLimits =
  pl_Batch :: int
  pl_Shortlist :: int
  pl_ActiveSeconds :: int
  pl_BackupSeconds :: int
  pl_LivenessSeconds :: int
  pl_FailureRetrySeconds :: int
  pl_BlockRecoverySeconds :: int

record historyStatistics =
  hy_day :: int
  hy_daily :: "string \<rightharpoonup> healthStats"
  hy_week :: "string \<rightharpoonup> healthStats"
  hy_month :: "string \<rightharpoonup> healthStats"

text \<open>The state of a policy, without the labels, targets and counts that are only published.\<close>

record policyHealthState =
  ph_Selected :: string
  ph_Failures :: "string \<Rightarrow> int"
  ph_AvailabilityFailures :: "string \<Rightarrow> int"
  ph_Recoveries :: "string \<Rightarrow> int"
  ph_Samples :: "string \<Rightarrow> healthSample list"
  ph_DailySamples :: "string \<rightharpoonup> healthSample list"
  ph_HistoryDays :: "string \<rightharpoonup> (int \<times> dayBucket) list"
  ph_LastProbeAt :: "string \<Rightarrow> rat"
  ph_LastGoodAt :: "(string \<times> rat) list"
  ph_CandidateSignature :: string
  ph_ScanQueue :: "string list"
  ph_LastSwitchAt :: "nanos option"
  ph_LastSwitchReason :: string
  ph_OptimizationBaseline :: string
  ph_OptimizationCandidate :: string
  ph_OptimizationChecks :: int
  ph_OptimizationLastResult :: "optimizationComparison option"
  ph_MedianDelayMS :: "string \<Rightarrow> int option"
  ph_QualityOK :: "string \<Rightarrow> bool"
  ph_AvailabilityOK :: "string \<Rightarrow> bool"
  ph_FailureClass :: "string \<Rightarrow> probeFailureClass"
  ph_Shortlist :: "string list"
  ph_Mode :: string
  ph_ProbeLimits :: probeLimits
  ph_RuntimeSelected :: string
  ph_RuntimeConfirmed :: bool
  ph_RuntimeError :: string
  ph_LastWorkingSelection :: "workingSelection option"
  ph_UnderlayFailure :: string
  ph_UnderlayCheckedAt :: "nanos option"
  ph_OutageProbePending :: bool
  ph_OutageBatchStartedAt :: "nanos option"
  ph_PreflightClosed :: "string list"
  ph_historyStatsCache :: "historyStatistics option"

text \<open>\<open>now.Unix()\<close> as the code converts it, and seconds with a fraction.\<close>

definition unix :: "nanos \<Rightarrow> rat" where
  "unix now = of_int (now div second)"

definition unix_fraction :: "nanos \<Rightarrow> rat" where
  "unix_fraction now = of_int now / 1000000000"

definition last_good_at :: "policyHealthState \<Rightarrow> string \<Rightarrow> rat" where
  "last_good_at item c = (case map_of (ph_LastGoodAt item) c of None \<Rightarrow> 0 | Some t \<Rightarrow> t)"

section \<open>Settings\<close>

text \<open>The numbers of a policy that the controller reads.\<close>

record healthPolicy =
  hp_SwitchImprovementMS :: int
  hp_ActiveCheckSeconds :: int
  hp_ProbeBatchSize :: int
  hp_ActiveLivenessSeconds :: int
  hp_CandidateServiceIDs :: "string list"
  hp_CandidateServiceAccess :: "string \<Rightarrow> string list"

record effectivePolicySettings =
  ep_mode :: string
  ep_failureThreshold :: int
  ep_recoveryThreshold :: int
  ep_improvement :: int
  ep_active :: int
  ep_backup :: int
  ep_shortlist :: int
  ep_batch :: int
  ep_liveness :: int
  ep_failureRetry :: int
  ep_blockRecovery :: int

definition defaultInt :: "int \<Rightarrow> int \<Rightarrow> int \<Rightarrow> int \<Rightarrow> int" where
  "defaultInt v fallback minimum maximum = (if v < minimum \<or> maximum < v then fallback else v)"

definition policySettings :: "healthPolicy \<Rightarrow> string \<Rightarrow> effectivePolicySettings" where
  "policySettings policy mode =
     \<lparr>ep_mode = mode, ep_failureThreshold = 3, ep_recoveryThreshold = 3,
      ep_improvement = defaultInt (hp_SwitchImprovementMS policy) 50 0 30000,
      ep_active = defaultInt (hp_ActiveCheckSeconds policy) 60 1 3600,
      ep_backup = max (defaultInt (hp_ActiveCheckSeconds policy) 60 1 3600 * 2) 120,
      ep_shortlist = defaultInt (hp_ProbeBatchSize policy) 10 1 64,
      ep_batch = defaultInt (hp_ProbeBatchSize policy) 10 1 64,
      ep_liveness = defaultInt (hp_ActiveLivenessSeconds policy) 3 2 30,
      ep_failureRetry = min 2 (defaultInt (hp_ActiveLivenessSeconds policy) 3 2 30),
      ep_blockRecovery = 15\<rparr>"

definition ProbeBudget :: "int option \<Rightarrow> int" where
  "ProbeBudget batch = (case batch of None \<Rightarrow> 10 | Some n \<Rightarrow> if n \<le> 0 then 10 else min n 64)"

section \<open>Lists of candidates\<close>

abbreviation contains :: "string list \<Rightarrow> string \<Rightarrow> bool" where
  "contains values needle \<equiv> needle \<in> set values"

fun unique_loop :: "string list \<Rightarrow> string list \<Rightarrow> string list" where
  "unique_loop seen [] = []"
| "unique_loop seen (v # vs) =
     (if v \<noteq> [] \<and> v \<noteq> ''block'' \<and> v \<notin> set seen then v # unique_loop (v # seen) vs else unique_loop seen vs)"

definition uniqueCandidates :: "string list \<Rightarrow> string list" where
  "uniqueCandidates values = unique_loop [] values"

definition without :: "string list \<Rightarrow> string list \<Rightarrow> string list" where
  "without values removed = filter (\<lambda>v. \<not> contains removed v) values"

fun candidateIndex :: "string list \<Rightarrow> string \<Rightarrow> nat" where
  "candidateIndex [] v = 0"
| "candidateIndex (c # cs) v = (if c = v then 0 else Suc (candidateIndex cs v))"

definition withoutClosedCandidates :: "string list \<Rightarrow> string list \<Rightarrow> string list" where
  "withoutClosedCandidates candidates shut = filter (\<lambda>c. c \<notin> set shut) candidates"

section \<open>Statistics\<close>

text \<open>Integer division by two, truncated as in Go.\<close>

definition half :: "int \<Rightarrow> int" where
  "half x = (if x < 0 then - (- x div 2) else x div 2)"

definition sorted_median :: "int list \<Rightarrow> int" where
  "sorted_median ds =
     (let n = length ds in
      if n mod 2 = 0 then half (ds ! (n div 2 - 1) + ds ! (n div 2)) else ds ! (n div 2))"

definition medianInt :: "int list \<Rightarrow> int go" where
  "medianInt values = (if values = [] then None else Some (sorted_median (sort values)))"

definition good_delays :: "healthSample list \<Rightarrow> int list" where
  "good_delays samples = List.map_filter (\<lambda>s. if hs_OK s then hs_DelayMS s else None) samples"

definition sampleMedians :: "(string \<Rightarrow> healthSample list) \<Rightarrow> string list \<Rightarrow> string \<Rightarrow> int option" where
  "sampleMedians samples candidates c =
     (if contains candidates c \<and> good_delays (samples c) \<noteq> [] then medianInt (good_delays (samples c)) else None)"

definition roundOne :: "rat \<Rightarrow> rat" where
  "roundOne v = of_int (if v < 0 then - \<lfloor>- v * 10 + 1 / 2\<rfloor> else \<lfloor>v * 10 + 1 / 2\<rfloor>) / 10"

definition p95_index :: "nat \<Rightarrow> nat" where
  "p95_index n = nat \<lfloor>(of_int (int n - 1) :: rat) * 95 / 100 + 999999 / 1000000\<rfloor>"

text \<open>Reading the 95th percentile is an index expression and panics out of range.\<close>

definition buildStats :: "int \<Rightarrow> int \<Rightarrow> int \<Rightarrow> int list \<Rightarrow> int \<Rightarrow> healthStats go" where
  "buildStats samples successes failures delays days = do {
     let base = \<lparr>st_Samples = samples, st_Successes = successes, st_Failures = failures,
        st_LossPercent = (if 0 < samples then Some (roundOne (of_int failures * 100 / of_int samples)) else None),
        st_AvailabilityPercent = (if 0 < samples then Some (roundOne (of_int successes * 100 / of_int samples)) else None),
        st_MedianMS = None, st_P95MS = None, st_Days = days, st_LatencySampleCount = 0,
        st_PercentilesApproximate = False\<rparr>;
     if delays = [] then Some base
     else let ds = sort delays; k = p95_index (length ds) in
       if length ds \<le> k then None
       else Some (base\<lparr>st_MedianMS := Some (sorted_median ds), st_P95MS := Some (ds ! k)\<rparr>)
   }"

definition summarizeSamples :: "healthSample list \<Rightarrow> healthStats go" where
  "summarizeSamples samples =
     (let failures = int (length (filter (\<lambda>s. \<not> hs_OK s) samples)) in
      buildStats (int (length samples)) (int (length samples) - failures) failures (good_delays samples) 0)"

definition summarizeDays :: "(int \<times> dayBucket) list \<Rightarrow> int \<Rightarrow> int \<Rightarrow> healthStats go" where
  "summarizeDays days number today =
     (if number \<le> 0 then
        Some \<lparr>st_Samples = 0, st_Successes = 0, st_Failures = 0, st_LossPercent = None, st_AvailabilityPercent = None,
          st_MedianMS = None, st_P95MS = None, st_Days = 0, st_LatencySampleCount = 0, st_PercentilesApproximate = False\<rparr>
      else do {
        let buckets = map snd (filter (\<lambda>(d, _). today - (number - 1) \<le> d \<and> d \<le> today) days);
        let delays = concat (map db_LatencySamples buckets);
        let successes = sum_list (map db_Successes buckets);
        stats \<leftarrow> buildStats (sum_list (map db_Samples buckets)) successes (sum_list (map db_Failures buckets))
                  delays (int (length buckets));
        Some (stats\<lparr>st_LatencySampleCount := int (length delays),
                    st_PercentilesApproximate := int (length delays) < successes\<rparr>)
      })"

section \<open>Histories\<close>

abbreviation historyReservoir :: nat where "historyReservoir \<equiv> 256"
abbreviation historyRetentionDays :: int where "historyRetentionDays \<equiv> 30"

definition day_of :: "rat \<Rightarrow> int" where
  "day_of t = (if t < 0 then - \<lfloor>- t\<rfloor> else \<lfloor>t\<rfloor>) div 86400"

definition empty_bucket :: dayBucket where
  "empty_bucket = \<lparr>db_Samples = 0, db_Successes = 0, db_Failures = 0, db_LatencySamples = []\<rparr>"

definition reservoir_slot :: "int \<Rightarrow> int" where
  "reservoir_slot successes = (successes * 1103515245 + 12345) mod successes"

definition append_sample :: "dayBucket \<Rightarrow> healthSample \<Rightarrow> dayBucket" where
  "append_sample bucket sample =
     (let bucket = bucket\<lparr>db_Samples := db_Samples bucket + 1\<rparr> in
      if hs_OK sample then
        (let bucket = bucket\<lparr>db_Successes := db_Successes bucket + 1\<rparr> in
         case hs_DelayMS sample of
           None \<Rightarrow> bucket
         | Some d \<Rightarrow>
             if length (db_LatencySamples bucket) < historyReservoir
             then bucket\<lparr>db_LatencySamples := db_LatencySamples bucket @ [d]\<rparr>
             else (let slot = reservoir_slot (db_Successes bucket) in
               if slot < int historyReservoir
               then bucket\<lparr>db_LatencySamples := (db_LatencySamples bucket)[nat slot := d]\<rparr>
               else bucket))
      else bucket\<lparr>db_Failures := db_Failures bucket + 1\<rparr>)"

definition appendHistoryDay :: "(int \<times> dayBucket) list \<Rightarrow> healthSample \<Rightarrow> (int \<times> dayBucket) list" where
  "appendHistoryDay days sample =
     (let day = day_of (hs_At sample);
          bucket = (case map_of days day of None \<Rightarrow> empty_bucket | Some b \<Rightarrow> b)
      in (day, append_sample bucket sample) # filter (\<lambda>(d, _). d \<noteq> day) days)"

definition probeObservationTime :: "nanos \<Rightarrow> probeEvidence \<Rightarrow> nanos" where
  "probeObservationTime now evidence = (case pe_ObservedAt evidence of None \<Rightarrow> now | Some t \<Rightarrow> t)"

definition qualityObservationAt :: "nanos \<Rightarrow> probeEvidence \<Rightarrow> rat" where
  "qualityObservationAt now evidence = unix_fraction (probeObservationTime now evidence)"

definition latestQualityObservation :: "policyHealthState \<Rightarrow> string \<Rightarrow> healthSample \<times> rat" where
  "latestQualityObservation item node =
     (let samples = ph_Samples item node in
      if samples = [] then (\<lparr>hs_At = 0, hs_ObservedAt = 0, hs_OK = False, hs_DelayMS = None\<rparr>, 0)
      else let s = last samples in (s, if 0 < hs_ObservedAt s then hs_ObservedAt s else hs_At s))"

record historyChange =
  hc_daily :: bool
  hc_period :: bool

definition keep_last :: "nat \<Rightarrow> 'a list \<Rightarrow> 'a list" where
  "keep_last n xs = drop (length xs - n) xs"

text \<open>The body of the loop of \<open>updateHistories\<close> for one candidate; \<open>today\<close> is the day of \<open>now\<close>.\<close>

definition update_history ::
  "nanos \<Rightarrow> probeEvidence option \<Rightarrow> healthSample list option \<Rightarrow> (int \<times> dayBucket) list option \<Rightarrow>
   healthSample list \<times> (int \<times> dayBucket) list \<times> historyChange" where
  "update_history now evidence daily days =
     (let previous = (case daily of None \<Rightarrow> [] | Some xs \<Rightarrow> xs);
          cutoff = unix (now - 24 * hour);
          kept = filter (\<lambda>s. cutoff \<le> hs_At s) previous;
          added = (case evidence of
              None \<Rightarrow> kept
            | Some e \<Rightarrow> kept @ [\<lparr>hs_At = unix (probeObservationTime now e), hs_ObservedAt = 0, hs_OK = pe_OK e, hs_DelayMS = pe_DelayMS e\<rparr>]);
          history = keep_last 1440 added;
          buckets = (case days of
              None \<Rightarrow> foldl appendHistoryDay [] history
            | Some ds \<Rightarrow> if evidence \<noteq> None then appendHistoryDay ds (last history) else ds);
          oldestDay = day_of (unix now) - (historyRetentionDays - 1);
          recent = filter (\<lambda>(d, _). oldestDay \<le> d) buckets
      in (history, recent,
          \<lparr>hc_daily = (daily = None \<or> evidence \<noteq> None \<or> length history \<noteq> length previous),
           hc_period = (evidence \<noteq> None \<or> days = None \<or> length recent \<noteq> length buckets)\<rparr>))"

fun updateHistories ::
  "policyHealthState \<Rightarrow> string list \<Rightarrow> (string \<Rightarrow> probeEvidence option) \<Rightarrow> nanos \<Rightarrow>
   policyHealthState \<times> (string \<rightharpoonup> historyChange)" where
  "updateHistories item [] measured now = (item, Map.empty)"
| "updateHistories item (c # cs) measured now =
     (let (history, days, change) = update_history now (measured c) (ph_DailySamples item c) (ph_HistoryDays item c);
          item = item\<lparr>ph_DailySamples := (ph_DailySamples item)(c \<mapsto> history),
                      ph_HistoryDays := (ph_HistoryDays item)(c \<mapsto> days)\<rparr>;
          (item, changes) = updateHistories item cs measured now
      in (item, if (hc_daily change \<or> hc_period change) \<and> changes c = None then changes(c \<mapsto> change) else changes))"

definition recentQualitySamples :: "nanos \<Rightarrow> healthSample list \<Rightarrow> effectivePolicySettings \<Rightarrow> healthSample list" where
  "recentQualitySamples now samples p =
     (let window = of_int (max (max (ep_backup p * 2) (ep_active p * 2)) 120) in
      keep_last 3 (filter (\<lambda>s. 0 < hs_At s \<and> 0 \<le> unix now - hs_At s \<and> unix now - hs_At s \<le> window) samples))"

text \<open>\<open>refreshHistoryStatistics\<close>: cached statistics are reused unless the candidate changed or the day did.\<close>

fun refresh_stats ::
  "policyHealthState \<Rightarrow> (string \<rightharpoonup> historyChange) \<Rightarrow> historyStatistics option \<Rightarrow> int \<Rightarrow> string list \<Rightarrow>
   historyStatistics \<Rightarrow> historyStatistics go" where
  "refresh_stats item changes previous today [] next = Some next"
| "refresh_stats item changes previous today (c # cs) next = do {
     let change = (case changes c of None \<Rightarrow> \<lparr>hc_daily = False, hc_period = False\<rparr> | Some ch \<Rightarrow> ch);
     let dayChanged = (case previous of None \<Rightarrow> True | Some prev \<Rightarrow> hy_day prev \<noteq> today);
     let cached = (\<lambda>field. case previous of None \<Rightarrow> None | Some prev \<Rightarrow> field prev c);
     let days = (case ph_HistoryDays item c of None \<Rightarrow> [] | Some ds \<Rightarrow> ds);
     daily \<leftarrow> (case cached hy_daily of
         Some s \<Rightarrow> if hc_daily change then summarizeSamples (case ph_DailySamples item c of None \<Rightarrow> [] | Some xs \<Rightarrow> xs) else Some s
       | None \<Rightarrow> summarizeSamples (case ph_DailySamples item c of None \<Rightarrow> [] | Some xs \<Rightarrow> xs));
     week \<leftarrow> (case cached hy_week of
         Some s \<Rightarrow> if hc_period change \<or> dayChanged then summarizeDays days 7 today else Some s
       | None \<Rightarrow> summarizeDays days 7 today);
     month \<leftarrow> (case cached hy_month of
         Some s \<Rightarrow> if hc_period change \<or> dayChanged then summarizeDays days historyRetentionDays today else Some s
       | None \<Rightarrow> summarizeDays days historyRetentionDays today);
     refresh_stats item changes previous today cs
       (next\<lparr>hy_daily := (hy_daily next)(c \<mapsto> daily), hy_week := (hy_week next)(c \<mapsto> week),
             hy_month := (hy_month next)(c \<mapsto> month)\<rparr>)
   }"

definition refreshHistoryStatistics ::
  "policyHealthState \<Rightarrow> string list \<Rightarrow> (string \<Rightarrow> probeEvidence option) \<Rightarrow> nanos \<Rightarrow> (policyHealthState \<times> historyStatistics) go" where
  "refreshHistoryStatistics item candidates measured now = do {
     let (item, changes) = updateHistories item candidates measured now;
     let today = day_of (unix now);
     next \<leftarrow> refresh_stats item changes (ph_historyStatsCache item) today candidates
       \<lparr>hy_day = today, hy_daily = Map.empty, hy_week = Map.empty, hy_month = Map.empty\<rparr>;
     Some (item\<lparr>ph_historyStatsCache := Some next\<rparr>, next)
   }"

section \<open>Bounds\<close>

lemma p95_index_less: "0 < n \<Longrightarrow> p95_index n < n"
proof -
  assume n: "0 < n"
  have "(of_int (int n - 1) :: rat) * 95 / 100 + 999999 / 1000000 < of_int (int n)"
  proof -
    have "1 \<le> (of_nat n :: rat)" using n by simp
    then show ?thesis by (simp add: field_simps)
  qed
  then have "\<lfloor>(of_int (int n - 1) :: rat) * 95 / 100 + 999999 / 1000000\<rfloor> < int n"
    by (simp only: floor_less_iff)
  then show ?thesis unfolding p95_index_def using n by linarith
qed

lemma half_between: "a \<le> b \<Longrightarrow> a \<le> half (a + b) \<and> half (a + b) \<le> b"
  by (auto simp: half_def)

lemma sorted_nth_bounds:
  "sorted ds \<Longrightarrow> i < length ds \<Longrightarrow> ds ! 0 \<le> ds ! i \<and> ds ! i \<le> ds ! (length ds - 1)"
  by (auto intro!: sorted_nth_mono)

lemma sorted_median_bounds:
  assumes "sorted ds" and "ds \<noteq> []"
  shows "ds ! 0 \<le> sorted_median ds \<and> sorted_median ds \<le> ds ! (length ds - 1)"
proof -
  let ?n = "length ds"
  have n: "0 < ?n" using assms(2) by simp
  show ?thesis
  proof (cases "?n mod 2 = 0")
    case True
    then have k: "?n div 2 - 1 < ?n" "?n div 2 < ?n" "?n div 2 - 1 \<le> ?n div 2" using n by (presburger, presburger, simp)
    have "half (ds ! (?n div 2 - 1) + ds ! (?n div 2)) \<le> ds ! (?n div 2)"
        "ds ! (?n div 2 - 1) \<le> half (ds ! (?n div 2 - 1) + ds ! (?n div 2))"
      using half_between [OF sorted_nth_mono [OF assms(1) k(3,2)]] by simp_all
    then show ?thesis
      using True sorted_nth_bounds [OF assms(1) k(1)] sorted_nth_bounds [OF assms(1) k(2)]
      by (simp add: sorted_median_def Let_def)
  next
    case False
    then show ?thesis
      using sorted_nth_bounds [OF assms(1), of "?n div 2"] n by (simp add: sorted_median_def Let_def)
  qed
qed

lemma nth_sort_in: "i < length ds \<Longrightarrow> sort ds ! i \<in> set (ds :: int list)"
  by (metis length_sort nth_mem set_sort)

lemma buildStats_returns:
  "\<exists>stats. buildStats samples successes failures delays days = Some stats \<and>
     st_Samples stats = samples \<and> st_Successes stats = successes \<and> st_Failures stats = failures \<and>
     (case st_MedianMS stats of None \<Rightarrow> delays = [] | Some m \<Rightarrow> Min (set delays) \<le> m \<and> m \<le> Max (set delays)) \<and>
     (case st_P95MS stats of None \<Rightarrow> delays = [] | Some p \<Rightarrow> p \<in> set delays)"
proof (cases "delays = []")
  case False
  let ?ds = "sort delays"
  have ne: "?ds \<noteq> []" "0 < length delays" using False by (metis set_empty set_sort, simp)
  have k: "p95_index (length ?ds) < length ?ds" using p95_index_less [of "length ?ds"] ne by simp
  have ends: "?ds ! 0 \<in> set delays" "?ds ! (length ?ds - 1) \<in> set delays" "?ds ! p95_index (length ?ds) \<in> set delays"
    using nth_sort_in [of 0 delays] nth_sort_in [of "length delays - 1" delays]
      nth_sort_in [of "p95_index (length ?ds)" delays] ne k by simp_all
  have "Min (set delays) \<le> sorted_median ?ds" "sorted_median ?ds \<le> Max (set delays)"
    using sorted_median_bounds [OF sorted_sort ne(1)] Min_le [OF _ ends(1)] Max_ge [OF _ ends(2)] by simp_all
  with False k ends(3) show ?thesis by (simp add: buildStats_def Let_def)
qed (simp add: buildStats_def)

lemma append_sample_bounds:
  assumes "length (db_LatencySamples b) \<le> historyReservoir" and "db_Samples b = db_Successes b + db_Failures b"
  shows "length (db_LatencySamples (append_sample b s)) \<le> historyReservoir"
    "db_Samples (append_sample b s) = db_Successes (append_sample b s) + db_Failures (append_sample b s)"
    "db_Samples (append_sample b s) = db_Samples b + 1"
  using assms by (auto simp: append_sample_def Let_def split: option.splits)

text \<open>The multiplier cancels: the replaced slot does not spread over the reservoir.\<close>

lemma reservoir_slot_eq: "reservoir_slot n = 12345 mod n"
  by (simp add: reservoir_slot_def mult.commute)

section \<open>The statistics cache\<close>

lemma keep_last_full: "length (keep_last n xs) = length xs \<Longrightarrow> keep_last n xs = xs"
  by (simp add: keep_last_def)

lemma length_keep_last: "length (keep_last n xs) \<le> length xs" "length (keep_last n xs) \<le> n"
  by (simp_all add: keep_last_def)

lemma filter_full: "length (filter P xs) = length xs \<Longrightarrow> filter P xs = xs"
  by (metis filter_id_conv length_filter_less nat_less_le)

text \<open>The change flags are exact: an unset flag means that nothing changed.\<close>

lemma update_history_flags:
  assumes "update_history now evidence daily days = (history, recent, change)"
  shows "hc_daily change \<longleftrightarrow> daily = None \<or> evidence \<noteq> None \<or>
      length history \<noteq> length (case daily of None \<Rightarrow> [] | Some xs \<Rightarrow> xs)"
    "\<not> hc_period change \<Longrightarrow> evidence = None \<and> days \<noteq> None"
proof -
  have parts: "fst (update_history now evidence daily days) = history"
      "snd (snd (update_history now evidence daily days)) = change"
    using assms by simp_all
  show "hc_daily change \<longleftrightarrow> daily = None \<or> evidence \<noteq> None \<or>
      length history \<noteq> length (case daily of None \<Rightarrow> [] | Some xs \<Rightarrow> xs)"
    unfolding parts [symmetric] by (simp only: update_history_def Let_def fst_conv snd_conv historyChange.simps)
  show "\<not> hc_period change \<Longrightarrow> evidence = None \<and> days \<noteq> None"
    unfolding parts(2) [symmetric] update_history_def Let_def snd_conv historyChange.simps de_Morgan_disj not_not
    by (rule conjI) (erule conjunct1, drule conjunct2, erule conjunct1)
qed

lemma update_history_unchanged:
  assumes "update_history now evidence daily days = (history, recent, change)"
  shows "\<not> hc_daily change \<Longrightarrow> daily = Some history" "\<not> hc_period change \<Longrightarrow> days = Some recent"
proof -
  show "daily = Some history" if unset: "\<not> hc_daily change"
  proof -
    obtain xs where d: "daily = Some xs" "evidence = None" and len: "length history = length xs"
      using update_history_flags(1) [OF assms] unset by (cases daily) auto
    let ?kept = "filter (\<lambda>s. unix (now - 24 * hour) \<le> hs_At s) xs"
    have history: "history = keep_last 1440 ?kept"
      using assms unfolding d update_history_def Let_def by simp
    have "length ?kept = length xs"
      by (metis len history le_antisym length_filter_le length_keep_last(1))
    then have "?kept = xs" by (rule filter_full)
    then show ?thesis using d history len keep_last_full [of 1440 xs] by simp
  qed
  show "days = Some recent" if unset: "\<not> hc_period change"
  proof -
    obtain ds where d: "days = Some ds" "evidence = None" using update_history_flags(2) [OF assms unset] by auto
    let ?recent = "filter (\<lambda>(d, _). day_of (unix now) - (historyRetentionDays - 1) \<le> d) ds"
    have "recent = ?recent" "length ?recent = length ds"
      using assms unset unfolding d update_history_def Let_def by auto
    then show ?thesis using d filter_full by metis
  qed
qed

lemma updateHistories_other:
  "updateHistories item cs measured now = (item', changes) \<Longrightarrow> c \<notin> set cs \<Longrightarrow>
   ph_DailySamples item' c = ph_DailySamples item c \<and> ph_HistoryDays item' c = ph_HistoryDays item c \<and> changes c = None"
proof (induction item cs measured now arbitrary: item' changes rule: updateHistories.induct)
  case (2 item a cs measured now)
  obtain history days change where u: "update_history now (measured a) (ph_DailySamples item a) (ph_HistoryDays item a) =
      (history, days, change)" by (metis prod_cases3)
  let ?item = "item\<lparr>ph_DailySamples := (ph_DailySamples item)(a \<mapsto> history), ph_HistoryDays := (ph_HistoryDays item)(a \<mapsto> days)\<rparr>"
  obtain item1 changes1 where r: "updateHistories ?item cs measured now = (item1, changes1)" by fastforce
  have "ph_DailySamples item1 c = ph_DailySamples ?item c \<and> ph_HistoryDays item1 c = ph_HistoryDays ?item c \<and> changes1 c = None"
    using "2.IH" [OF u [symmetric] refl refl refl r] "2.prems"(2) by simp
  then show ?case using "2.prems" u r by (auto simp: Let_def split: if_splits)
qed simp

lemma updateHistories_at:
  assumes "updateHistories item cs measured now = (item', changes)" and "distinct cs" and "c \<in> set cs"
    and "update_history now (measured c) (ph_DailySamples item c) (ph_HistoryDays item c) = (history, days, change)"
  shows "ph_DailySamples item' c = Some history \<and> ph_HistoryDays item' c = Some days \<and>
    changes c = (if hc_daily change \<or> hc_period change then Some change else None)"
  using assms
proof (induction item cs measured now arbitrary: item' changes rule: updateHistories.induct)
  case (2 item a cs measured now)
  obtain h d ch where u: "update_history now (measured a) (ph_DailySamples item a) (ph_HistoryDays item a) = (h, d, ch)"
    by (metis prod_cases3)
  let ?item = "item\<lparr>ph_DailySamples := (ph_DailySamples item)(a \<mapsto> h), ph_HistoryDays := (ph_HistoryDays item)(a \<mapsto> d)\<rparr>"
  obtain item1 changes1 where r: "updateHistories ?item cs measured now = (item1, changes1)" by fastforce
  show ?case
  proof (cases "c = a")
    case True
    then have "ph_DailySamples item1 c = Some h \<and> ph_HistoryDays item1 c = Some d \<and> changes1 c = None"
      using updateHistories_other [OF r, of c] "2.prems"(2) by simp
    then show ?thesis using True "2.prems" u r by (auto simp: Let_def split: if_splits)
  next
    case False
    then have "ph_DailySamples item1 c = Some history \<and> ph_HistoryDays item1 c = Some days \<and>
        changes1 c = (if hc_daily change \<or> hc_period change then Some change else None)"
      using "2.IH" [OF u [symmetric] refl refl refl r] "2.prems" by simp
    then show ?thesis using False "2.prems"(1) u r by (auto simp: Let_def split: if_splits)
  qed
qed simp

lemma updateHistories_cache:
  "updateHistories item cs measured now = (item', changes) \<Longrightarrow> ph_historyStatsCache item' = ph_historyStatsCache item"
proof (induction item cs measured now arbitrary: item' changes rule: updateHistories.induct)
  case (2 item a cs measured now)
  obtain h d ch where u: "update_history now (measured a) (ph_DailySamples item a) (ph_HistoryDays item a) = (h, d, ch)"
    by (metis prod_cases3)
  show ?case
    using "2.prems" "2.IH" [OF u [symmetric] refl refl refl] u by (auto simp: Let_def split: prod.splits)
qed simp

text \<open>What a full computation gives for a candidate.\<close>

definition daily_of :: "policyHealthState \<Rightarrow> string \<Rightarrow> healthStats go" where
  "daily_of item c = summarizeSamples (case ph_DailySamples item c of None \<Rightarrow> [] | Some xs \<Rightarrow> xs)"

definition period_of :: "policyHealthState \<Rightarrow> int \<Rightarrow> int \<Rightarrow> string \<Rightarrow> healthStats go" where
  "period_of item number today c = summarizeDays (case ph_HistoryDays item c of None \<Rightarrow> [] | Some ds \<Rightarrow> ds) number today"

definition cache_coherent :: "policyHealthState \<Rightarrow> bool" where
  "cache_coherent item = (case ph_historyStatsCache item of
     None \<Rightarrow> True
   | Some h \<Rightarrow> (\<forall>c s. (hy_daily h c = Some s \<longrightarrow> daily_of item c = Some s) \<and>
       (hy_week h c = Some s \<longrightarrow> period_of item 7 (hy_day h) c = Some s) \<and>
       (hy_month h c = Some s \<longrightarrow> period_of item historyRetentionDays (hy_day h) c = Some s)))"

lemma summarize_total: "summarizeSamples xs \<noteq> None" "summarizeDays days number today \<noteq> None"
proof -
  have total: "buildStats a b c d e \<noteq> None" for a b c d e
    using buildStats_returns [of a b c d e] by auto
  show "summarizeSamples xs \<noteq> None" using total by (simp add: summarizeSamples_def Let_def del: not_None_eq)
  show "summarizeDays days number today \<noteq> None"
    using total [unfolded not_None_eq] by (auto simp: summarizeDays_def Let_def)
qed

lemma reuse_or_compute:
  assumes "full = Some d" and "\<And>s. cached = Some s \<Longrightarrow> \<not> changed \<Longrightarrow> full = Some s"
  shows "(case cached of Some s \<Rightarrow> if changed then full else Some s | None \<Rightarrow> full) = Some d"
  using assms by (cases cached) auto

lemma refresh_stats_fresh:
  assumes "\<And>c s. c \<in> set cs \<Longrightarrow> previous = Some prev \<Longrightarrow> hy_daily prev c = Some s \<Longrightarrow>
      (case changes c of None \<Rightarrow> True | Some ch \<Rightarrow> \<not> hc_daily ch) \<Longrightarrow> daily_of item c = Some s"
    and "\<And>c s. c \<in> set cs \<Longrightarrow> previous = Some prev \<Longrightarrow> hy_week prev c = Some s \<Longrightarrow> hy_day prev = today \<Longrightarrow>
      (case changes c of None \<Rightarrow> True | Some ch \<Rightarrow> \<not> hc_period ch) \<Longrightarrow> period_of item 7 today c = Some s"
    and "\<And>c s. c \<in> set cs \<Longrightarrow> previous = Some prev \<Longrightarrow> hy_month prev c = Some s \<Longrightarrow> hy_day prev = today \<Longrightarrow>
      (case changes c of None \<Rightarrow> True | Some ch \<Rightarrow> \<not> hc_period ch) \<Longrightarrow> period_of item historyRetentionDays today c = Some s"
    and "\<And>p. previous = Some p \<Longrightarrow> p = prev"
  shows "\<exists>next'. refresh_stats item changes previous today cs next = Some next' \<and> hy_day next' = hy_day next \<and>
    (\<forall>c. hy_daily next' c = (if c \<in> set cs then daily_of item c else hy_daily next c) \<and>
         hy_week next' c = (if c \<in> set cs then period_of item 7 today c else hy_week next c) \<and>
         hy_month next' c = (if c \<in> set cs then period_of item historyRetentionDays today c else hy_month next c))"
  using assms(1-3)
proof (induction cs arbitrary: "next")
  case (Cons a cs)
  obtain d w m where full: "daily_of item a = Some d" "period_of item 7 today a = Some w"
      "period_of item historyRetentionDays today a = Some m"
    using summarize_total unfolding daily_of_def period_of_def by fastforce
  let ?next = "next\<lparr>hy_daily := (hy_daily next)(a \<mapsto> d), hy_week := (hy_week next)(a \<mapsto> w), hy_month := (hy_month next)(a \<mapsto> m)\<rparr>"
  define ch where "ch = (case changes a of None \<Rightarrow> \<lparr>hc_daily = False, hc_period = False\<rparr> | Some ch \<Rightarrow> ch)"
  have unset: "(case changes a of None \<Rightarrow> True | Some ch \<Rightarrow> \<not> hc_daily ch) \<longleftrightarrow> \<not> hc_daily ch"
      "(case changes a of None \<Rightarrow> True | Some ch \<Rightarrow> \<not> hc_period ch) \<longleftrightarrow> \<not> hc_period ch"
    by (simp_all add: ch_def split: option.split)
  define dayChanged where "dayChanged = (case previous of None \<Rightarrow> True | Some prev \<Rightarrow> hy_day prev \<noteq> today)"
  have same: "\<not> dayChanged \<Longrightarrow> previous = Some prev \<and> hy_day prev = today"
    using assms(4) by (auto simp: dayChanged_def split: option.splits)
  have d: "(case (case previous of None \<Rightarrow> None | Some prev \<Rightarrow> hy_daily prev a) of
      Some s \<Rightarrow> if hc_daily ch then daily_of item a else Some s | None \<Rightarrow> daily_of item a) = Some d"
  proof (rule reuse_or_compute [OF full(1)])
    fix s assume "(case previous of None \<Rightarrow> None | Some prev \<Rightarrow> hy_daily prev a) = Some s" "\<not> hc_daily ch"
    then show "daily_of item a = Some s"
      using Cons.prems(1) [of a s] assms(4) unset(1) by (cases previous) simp_all
  qed
  have w: "(case (case previous of None \<Rightarrow> None | Some prev \<Rightarrow> hy_week prev a) of
      Some s \<Rightarrow> if hc_period ch \<or> dayChanged then period_of item 7 today a else Some s | None \<Rightarrow> period_of item 7 today a) = Some w"
  proof (rule reuse_or_compute [OF full(2)])
    fix s assume "(case previous of None \<Rightarrow> None | Some prev \<Rightarrow> hy_week prev a) = Some s" "\<not> (hc_period ch \<or> dayChanged)"
    then show "period_of item 7 today a = Some s"
      using Cons.prems(2) [of a s] same unset(2) by (cases previous) simp_all
  qed
  have m: "(case (case previous of None \<Rightarrow> None | Some prev \<Rightarrow> hy_month prev a) of
      Some s \<Rightarrow> if hc_period ch \<or> dayChanged then period_of item historyRetentionDays today a else Some s
    | None \<Rightarrow> period_of item historyRetentionDays today a) = Some m"
  proof (rule reuse_or_compute [OF full(3)])
    fix s assume "(case previous of None \<Rightarrow> None | Some prev \<Rightarrow> hy_month prev a) = Some s" "\<not> (hc_period ch \<or> dayChanged)"
    then show "period_of item historyRetentionDays today a = Some s"
      using Cons.prems(3) [of a s] same unset(2) by (cases previous) simp_all
  qed
  have "refresh_stats item changes previous today (a # cs) next = refresh_stats item changes previous today cs ?next"
    by (simp only: refresh_stats.simps Let_def ch_def [symmetric] dayChanged_def [symmetric] daily_of_def [symmetric]
        period_of_def [symmetric] d w m bind.bind_lunit)
  moreover obtain next' where "refresh_stats item changes previous today cs ?next = Some next'" "hy_day next' = hy_day ?next"
     "\<forall>c. hy_daily next' c = (if c \<in> set cs then daily_of item c else hy_daily ?next c) \<and>
         hy_week next' c = (if c \<in> set cs then period_of item 7 today c else hy_week ?next c) \<and>
         hy_month next' c = (if c \<in> set cs then period_of item historyRetentionDays today c else hy_month ?next c)"
    using Cons.IH [of ?next] Cons.prems by fastforce
  ultimately show ?case using full by simp
qed simp

text \<open>What the refresh leaves in the cache is what a full computation gives.\<close>

lemma refreshHistoryStatistics_fresh:
  assumes coherent: "cache_coherent item" and cs: "distinct cs"
  shows "\<exists>item' stats. refreshHistoryStatistics item cs measured now = Some (item', stats) \<and> cache_coherent item' \<and>
    (\<forall>c \<in> set cs. hy_daily stats c = daily_of item' c \<and> hy_week stats c = period_of item' 7 (day_of (unix now)) c \<and>
       hy_month stats c = period_of item' historyRetentionDays (day_of (unix now)) c)"
proof -
  let ?today = "day_of (unix now)"
  obtain item1 changes where u: "updateHistories item cs measured now = (item1, changes)" by fastforce
  have cache: "ph_historyStatsCache item1 = ph_historyStatsCache item" by (rule updateHistories_cache [OF u])
  obtain prev :: historyStatistics where prev: "\<And>p. ph_historyStatsCache item = Some p \<Longrightarrow> p = prev"
    by (cases "ph_historyStatsCache item") auto
  have unchanged: "(case changes c of None \<Rightarrow> True | Some ch \<Rightarrow> \<not> hc_daily ch) \<Longrightarrow> daily_of item1 c = daily_of item c"
      "(case changes c of None \<Rightarrow> True | Some ch \<Rightarrow> \<not> hc_period ch) \<Longrightarrow> period_of item1 k d c = period_of item k d c"
    if c: "c \<in> set cs" for c k d
  proof -
    obtain h ds ch where h: "update_history now (measured c) (ph_DailySamples item c) (ph_HistoryDays item c) = (h, ds, ch)"
      by (metis prod_cases3)
    note at = updateHistories_at [OF u cs c h] update_history_unchanged [OF h]
    show "daily_of item1 c = daily_of item c" if "case changes c of None \<Rightarrow> True | Some ch \<Rightarrow> \<not> hc_daily ch"
      using at that by (auto simp: daily_of_def split: if_splits)
    show "period_of item1 k d c = period_of item k d c" if "case changes c of None \<Rightarrow> True | Some ch \<Rightarrow> \<not> hc_period ch"
      using at that by (auto simp: period_of_def split: if_splits)
  qed
  let ?start = "\<lparr>hy_day = ?today, hy_daily = Map.empty, hy_week = Map.empty, hy_month = Map.empty\<rparr>"
  have old: "ph_historyStatsCache item = Some p \<Longrightarrow> (hy_daily p c = Some s \<longrightarrow> daily_of item c = Some s) \<and>
      (hy_week p c = Some s \<longrightarrow> period_of item 7 (hy_day p) c = Some s) \<and>
      (hy_month p c = Some s \<longrightarrow> period_of item historyRetentionDays (hy_day p) c = Some s)" for p c s
    using coherent by (simp add: cache_coherent_def)
  have "\<exists>stats. refresh_stats item1 changes (ph_historyStatsCache item) ?today cs ?start = Some stats \<and> hy_day stats = hy_day ?start \<and>
      (\<forall>c. hy_daily stats c = (if c \<in> set cs then daily_of item1 c else hy_daily ?start c) \<and>
         hy_week stats c = (if c \<in> set cs then period_of item1 7 ?today c else hy_week ?start c) \<and>
         hy_month stats c = (if c \<in> set cs then period_of item1 historyRetentionDays ?today c else hy_month ?start c))"
  proof (rule refresh_stats_fresh [where prev = prev])
    fix c s assume c: "c \<in> set cs" and p: "ph_historyStatsCache item = Some prev"
    show "daily_of item1 c = Some s" if "hy_daily prev c = Some s" "case changes c of None \<Rightarrow> True | Some ch \<Rightarrow> \<not> hc_daily ch"
      using old [OF p] unchanged(1) [OF c that(2)] that(1) by simp
    show "period_of item1 7 ?today c = Some s"
      if "hy_week prev c = Some s" "hy_day prev = ?today" "case changes c of None \<Rightarrow> True | Some ch \<Rightarrow> \<not> hc_period ch"
      using old [OF p, of c s] unchanged(2) [OF c that(3)] that(1,2) by simp
    show "period_of item1 historyRetentionDays ?today c = Some s"
      if "hy_month prev c = Some s" "hy_day prev = ?today" "case changes c of None \<Rightarrow> True | Some ch \<Rightarrow> \<not> hc_period ch"
      using old [OF p, of c s] unchanged(2) [OF c that(3)] that(1,2) by simp
  qed (rule prev)
  then obtain stats where r: "refresh_stats item1 changes (ph_historyStatsCache item) ?today cs ?start = Some stats"
      "hy_day stats = ?today"
      "\<forall>c. hy_daily stats c = (if c \<in> set cs then daily_of item1 c else None) \<and>
         hy_week stats c = (if c \<in> set cs then period_of item1 7 ?today c else None) \<and>
         hy_month stats c = (if c \<in> set cs then period_of item1 historyRetentionDays ?today c else None)"
    by auto
  have "refreshHistoryStatistics item cs measured now = Some (item1\<lparr>ph_historyStatsCache := Some stats\<rparr>, stats)"
    using u cache r(1) by (simp add: refreshHistoryStatistics_def Let_def)
  moreover have "cache_coherent (item1\<lparr>ph_historyStatsCache := Some stats\<rparr>)"
    using r(2,3) by (auto simp: cache_coherent_def daily_of_def period_of_def)
  ultimately show ?thesis using r(3) by (auto simp: daily_of_def period_of_def)
qed

section \<open>Bounded histories\<close>

definition bucket_ok :: "dayBucket \<Rightarrow> bool" where
  "bucket_ok b \<longleftrightarrow> length (db_LatencySamples b) \<le> historyReservoir \<and> db_Samples b = db_Successes b + db_Failures b \<and>
     0 \<le> db_Successes b \<and> 0 \<le> db_Failures b \<and> int (length (db_LatencySamples b)) \<le> db_Successes b"

definition days_ok :: "(int \<times> dayBucket) list \<Rightarrow> bool" where
  "days_ok days \<longleftrightarrow> distinct (map fst days) \<and> list_all (bucket_ok \<circ> snd) days"

definition histories_ok :: "policyHealthState \<Rightarrow> bool" where
  "histories_ok item \<longleftrightarrow> (\<forall>days \<in> ran (ph_HistoryDays item). days_ok days)"

lemma append_sample_ok: "bucket_ok b \<Longrightarrow> bucket_ok (append_sample b s)"
  by (auto simp: bucket_ok_def append_sample_def Let_def split: option.splits)

lemma appendHistoryDay_ok:
  assumes "days_ok days"
  shows "days_ok (appendHistoryDay days s)"
proof -
  have "bucket_ok b" if "map_of days d = Some b" for d b
    using assms map_of_SomeD [OF that] by (auto simp: days_ok_def list_all_iff)
  then have "bucket_ok (case map_of days d of None \<Rightarrow> empty_bucket | Some b \<Rightarrow> b)" for d
    by (auto simp: bucket_ok_def empty_bucket_def split: option.split)
  moreover have "distinct (map fst (filter P days))" for P
    using assms by (simp add: days_ok_def distinct_map_filter)
  ultimately show ?thesis
    using assms by (auto simp: days_ok_def appendHistoryDay_def Let_def list_all_iff intro!: append_sample_ok)
qed

lemma append_days_ok: "days_ok days \<Longrightarrow> days_ok (foldl appendHistoryDay days xs)"
  by (induction xs arbitrary: days) (simp_all add: appendHistoryDay_ok)

lemma update_history_bounds:
  assumes "update_history now evidence daily days = (history, recent, change)" and "\<And>ds. days = Some ds \<Longrightarrow> days_ok ds"
  shows "length history \<le> 1440" "days_ok recent" "\<forall>(d, _) \<in> set recent. day_of (unix now) - (historyRetentionDays - 1) \<le> d"
    "\<forall>s \<in> set history. unix (now - 24 * hour) \<le> hs_At s \<or> evidence \<noteq> None \<and> s = last history"
proof -
  define kept where "kept = filter (\<lambda>s. unix (now - 24 * hour) \<le> hs_At s) (case daily of None \<Rightarrow> [] | Some xs \<Rightarrow> xs)"
  define added where "added = (case evidence of None \<Rightarrow> kept
      | Some e \<Rightarrow> kept @ [\<lparr>hs_At = unix (probeObservationTime now e), hs_ObservedAt = 0, hs_OK = pe_OK e, hs_DelayMS = pe_DelayMS e\<rparr>])"
  define buckets where "buckets = (case days of None \<Rightarrow> foldl appendHistoryDay [] history
      | Some ds \<Rightarrow> if evidence \<noteq> None then appendHistoryDay ds (last history) else ds)"
  have h: "history = keep_last 1440 added"
    using assms(1) unfolding update_history_def Let_def kept_def [symmetric] added_def [symmetric] by simp
  have r: "recent = filter (\<lambda>(d, _). day_of (unix now) - (historyRetentionDays - 1) \<le> d) buckets"
    using assms(1) unfolding update_history_def Let_def kept_def [symmetric] added_def [symmetric] h buckets_def by simp
  have "days_ok []" by (simp add: days_ok_def)
  then have "days_ok buckets"
    using assms(2) by (auto simp: buckets_def append_days_ok appendHistoryDay_ok split: option.split)
  then show "days_ok recent" by (auto simp: r days_ok_def list_all_iff distinct_map_filter)
  show "length history \<le> 1440" by (simp add: h length_keep_last)
  show "\<forall>(d, _) \<in> set recent. day_of (unix now) - (historyRetentionDays - 1) \<le> d" by (auto simp: r)
  have "last (keep_last 1440 added) = last added" if "added \<noteq> []"
    using that by (simp add: keep_last_def last_drop)
  moreover have "set history \<subseteq> set added" by (simp add: h keep_last_def set_drop_subset)
  moreover have "\<forall>s \<in> set added. unix (now - 24 * hour) \<le> hs_At s \<or> evidence \<noteq> None \<and> s = last added"
    by (cases evidence) (auto simp: added_def kept_def)
  ultimately show "\<forall>s \<in> set history. unix (now - 24 * hour) \<le> hs_At s \<or> evidence \<noteq> None \<and> s = last history"
    unfolding h by fastforce
qed

definition history_within :: "nanos \<Rightarrow> probeEvidence option \<Rightarrow> policyHealthState \<Rightarrow> string \<Rightarrow> bool" where
  "history_within now evidence item c = (case (ph_DailySamples item c, ph_HistoryDays item c) of
     (Some xs, Some ds) \<Rightarrow> length xs \<le> 1440 \<and>
       list_all (\<lambda>s. unix (now - 24 * hour) \<le> hs_At s \<or> evidence \<noteq> None \<and> s = last xs) xs \<and>
       list_all (\<lambda>(d, _). day_of (unix now) - (historyRetentionDays - 1) \<le> d) ds
   | _ \<Rightarrow> False)"

lemma updateHistories_bounds:
  "updateHistories item cs measured now = (item', changes) \<Longrightarrow> histories_ok item \<Longrightarrow>
   histories_ok item' \<and> (\<forall>c \<in> set cs. history_within now (measured c) item' c)"
proof (induction item cs measured now arbitrary: item' changes rule: updateHistories.induct)
  case (2 item a cs measured now)
  obtain h d ch where u: "update_history now (measured a) (ph_DailySamples item a) (ph_HistoryDays item a) = (h, d, ch)"
    by (metis prod_cases3)
  let ?item = "item\<lparr>ph_DailySamples := (ph_DailySamples item)(a \<mapsto> h), ph_HistoryDays := (ph_HistoryDays item)(a \<mapsto> d)\<rparr>"
  obtain item1 changes1 where r: "updateHistories ?item cs measured now = (item1, changes1)" by fastforce
  have "\<And>ds. ph_HistoryDays item a = Some ds \<Longrightarrow> days_ok ds"
    using "2.prems"(2) by (auto simp: histories_ok_def ran_def)
  note b = update_history_bounds [OF u this]
  have ok: "histories_ok ?item"
    using "2.prems"(2) b(2) by (auto simp: histories_ok_def ran_def split: if_splits)
  have here: "history_within now (measured a) ?item a" using b by (auto simp: history_within_def list_all_iff)
  have "item' = item1" using "2.prems"(1) u r by (simp add: Let_def)
  moreover have "histories_ok item1 \<and> (\<forall>c \<in> set cs. history_within now (measured c) item1 c)"
    using "2.IH" [OF u [symmetric] refl refl refl r] ok by simp
  moreover have "history_within now (measured a) item1 a" if "a \<notin> set cs"
    using updateHistories_other [OF r that] here by (simp add: history_within_def)
  ultimately show ?case by auto
qed simp

lemma roundOne_percent: "0 \<le> v \<Longrightarrow> v \<le> 100 \<Longrightarrow> 0 \<le> roundOne v \<and> roundOne v \<le> 100"
proof -
  assume v: "0 \<le> v" "v \<le> 100"
  have "0 \<le> \<lfloor>v * 10 + 1 / 2\<rfloor>" "\<lfloor>v * 10 + 1 / 2\<rfloor> \<le> 1000"
    using v by (simp, simp add: floor_le_iff)
  then show ?thesis using v by (simp add: roundOne_def)
qed

lemma summarizeSamples_percent:
  assumes "summarizeSamples xs = Some stats"
  shows "case (st_LossPercent stats, st_AvailabilityPercent stats) of
     (Some l, Some a) \<Rightarrow> 0 \<le> l \<and> l \<le> 100 \<and> 0 \<le> a \<and> a \<le> 100 | _ \<Rightarrow> xs = []"
proof (cases "xs = []")
  case False
  let ?n = "length xs" and ?f = "length (filter (\<lambda>s. \<not> hs_OK s) xs)"
  have "?f \<le> ?n" "0 < ?n" using False by simp_all
  then have "of_nat ?f * 100 / (of_nat ?n :: rat) \<le> 100" "(of_nat ?n - of_nat ?f) * 100 / (of_nat ?n :: rat) \<le> 100"
      "0 \<le> (of_nat ?n - of_nat ?f) * 100 / (of_nat ?n :: rat)"
    by (simp_all add: field_simps)
  then have "0 \<le> roundOne (of_nat ?f * 100 / of_nat ?n) \<and> roundOne (of_nat ?f * 100 / of_nat ?n) \<le> 100"
      "0 \<le> roundOne ((of_nat ?n - of_nat ?f) * 100 / of_nat ?n) \<and> roundOne ((of_nat ?n - of_nat ?f) * 100 / of_nat ?n) \<le> 100"
    by (simp_all only: roundOne_percent) (simp_all add: roundOne_percent)
  then show ?thesis
    using assms False by (auto simp: summarizeSamples_def buildStats_def Let_def split: if_splits)
qed (use assms in \<open>auto simp: summarizeSamples_def buildStats_def good_delays_def Let_def split: option.split\<close>)

section \<open>Properties\<close>

text \<open>A new policy has empty maps everywhere.\<close>

definition newPolicyHealthState :: policyHealthState where
  "newPolicyHealthState = \<lparr>ph_Selected = [], ph_Failures = (\<lambda>_. 0), ph_AvailabilityFailures = (\<lambda>_. 0), ph_Recoveries = (\<lambda>_. 0),
     ph_Samples = (\<lambda>_. []), ph_DailySamples = Map.empty, ph_HistoryDays = Map.empty, ph_LastProbeAt = (\<lambda>_. 0),
     ph_LastGoodAt = [], ph_CandidateSignature = [], ph_ScanQueue = [], ph_LastSwitchAt = None, ph_LastSwitchReason = [], ph_OptimizationBaseline = [],
     ph_OptimizationCandidate = [], ph_OptimizationChecks = 0, ph_OptimizationLastResult = None,
     ph_MedianDelayMS = (\<lambda>_. None), ph_QualityOK = (\<lambda>_. False), ph_AvailabilityOK = (\<lambda>_. False),
     ph_FailureClass = (\<lambda>_. FailureNone), ph_Shortlist = [], ph_Mode = [],
     ph_ProbeLimits = \<lparr>pl_Batch = 0, pl_Shortlist = 0, pl_ActiveSeconds = 0, pl_BackupSeconds = 0, pl_LivenessSeconds = 0, pl_FailureRetrySeconds = 0, pl_BlockRecoverySeconds = 0\<rparr>,
     ph_RuntimeSelected = [], ph_RuntimeConfirmed = False, ph_RuntimeError = [], ph_LastWorkingSelection = None, ph_UnderlayFailure = [],
     ph_UnderlayCheckedAt = None, ph_OutageProbePending = False, ph_OutageBatchStartedAt = None,
     ph_PreflightClosed = [], ph_historyStatsCache = None\<rparr>"

definition two_samples :: policyHealthState where
  "two_samples = newPolicyHealthState\<lparr>ph_DailySamples := [''A'' \<mapsto>
      [\<lparr>hs_At = 10, hs_ObservedAt = 0, hs_OK = True, hs_DelayMS = Some 40\<rparr>,
       \<lparr>hs_At = 90000, hs_ObservedAt = 0, hs_OK = True, hs_DelayMS = Some 60\<rparr>]]\<rparr>"

text \<open>C38: The statistics cache is transparent. Starting from a coherent cache, a refresh returns, leaves a
  coherent cache, and for every candidate its daily, weekly and monthly statistics are those that a full
  computation over the updated histories gives, although entries whose change flag is unset are reused.
\<close>

theorem statistics_cache_coherent:
  assumes "cache_coherent item" and "distinct candidates"
  shows "\<exists>item' stats. refreshHistoryStatistics item candidates measured now = Some (item', stats) \<and> cache_coherent item' \<and>
    (\<forall>c \<in> set candidates. hy_daily stats c = daily_of item' c \<and> hy_week stats c = period_of item' 7 (day_of (unix now)) c \<and>
       hy_month stats c = period_of item' historyRetentionDays (day_of (unix now)) c)"
  using refreshHistoryStatistics_fresh [OF assms] .

theorem statistics_cache_coherent_witness:
  "\<exists>item' stats. refreshHistoryStatistics newPolicyHealthState [''A'', ''B''] (\<lambda>_. None) 0 = Some (item', stats) \<and>
     hy_daily stats ''A'' = daily_of item' ''A''"
proof -
  have "cache_coherent newPolicyHealthState" by (simp add: cache_coherent_def newPolicyHealthState_def)
  then show ?thesis using statistics_cache_coherent [of newPolicyHealthState "[''A'', ''B'']" "\<lambda>_. None" 0] by fastforce
qed

text \<open>Histories stay bounded. Whatever was stored before, after an update every candidate keeps at most 1440
  samples, all from the last 24 hours except the one just observed, and only day buckets of the last 30 days;
  the day buckets keep at most 256 latency samples with consistent counters; and the statistics of the samples
  exist, with percentages between 0 and 100, a median between the least and the greatest successful delay and
  a 95th percentile that is one of them.
\<close>

theorem histories_bounded:
  assumes "histories_ok item" and "updateHistories item candidates measured now = (item', changes)"
    and "c \<in> set candidates"
  shows "histories_ok item' \<and> history_within now (measured c) item' c \<and>
    (\<exists>xs stats. ph_DailySamples item' c = Some xs \<and> summarizeSamples xs = Some stats \<and> st_Samples stats = int (length xs) \<and>
       (case (st_LossPercent stats, st_AvailabilityPercent stats) of
          (Some l, Some a) \<Rightarrow> 0 \<le> l \<and> l \<le> 100 \<and> 0 \<le> a \<and> a \<le> 100 | _ \<Rightarrow> xs = []) \<and>
       (case st_MedianMS stats of None \<Rightarrow> good_delays xs = []
        | Some m \<Rightarrow> Min (set (good_delays xs)) \<le> m \<and> m \<le> Max (set (good_delays xs))) \<and>
       (case st_P95MS stats of None \<Rightarrow> good_delays xs = [] | Some p \<Rightarrow> p \<in> set (good_delays xs)))"
proof -
  have b: "histories_ok item' \<and> history_within now (measured c) item' c"
    using updateHistories_bounds [OF assms(2,1)] assms(3) by blast
  then obtain xs where xs: "ph_DailySamples item' c = Some xs"
    by (auto simp: history_within_def split: option.splits)
  obtain stats where st: "summarizeSamples xs = Some stats" using summarize_total(1) [of xs] by blast
  show ?thesis
    using b xs st summarizeSamples_percent [OF st]
      buildStats_returns [of "int (length xs)" "int (length xs) - int (length (filter (\<lambda>s. \<not> hs_OK s) xs))"
        "int (length (filter (\<lambda>s. \<not> hs_OK s) xs))" "good_delays xs" 0]
    by (auto simp: summarizeSamples_def Let_def)
qed

theorem histories_bounded_witness:
  "map_option (map hs_At) (ph_DailySamples (fst (updateHistories two_samples [''A''] (\<lambda>_. None) (100000 * second))) ''A'') = Some [90000] \<and>
    history_within (100000 * second) None (fst (updateHistories two_samples [''A''] (\<lambda>_. None) (100000 * second))) ''A''"
proof -
  have "histories_ok two_samples" by (simp add: histories_ok_def two_samples_def newPolicyHealthState_def)
  from histories_bounded [OF this surjective_pairing, of "''A''" "[''A'']" "\<lambda>_. None" "100000 * second"]
  have "history_within (100000 * second) None (fst (updateHistories two_samples [''A''] (\<lambda>_. None) (100000 * second))) ''A''" by simp
  then show ?thesis
    by (simp add: two_samples_def newPolicyHealthState_def update_history_def Let_def unix_def keep_last_def)
qed

end
