(* ===== verification/Health_Selection.thy ===== *)
theory Health_Selection
  imports Health_State
begin

text \<open>
  The choice of a path in \<^verbatim>\<open>internal/agent/health_logic.go\<close>: the ranking of candidates, the working
  pool, the desired selection after a round of probes, and the confirmation of a planned switch to a
  faster path. The daily statistics that \<^verbatim>\<open>rankCandidates\<close> takes and ignores are left out.
\<close>

section \<open>Stable sorting\<close>

text \<open>\<open>sort.SliceStable\<close> with a comparison \<open>lt\<close>, as insertion that never passes an equal element.\<close>

fun insert_by :: "('a \<Rightarrow> 'a \<Rightarrow> bool) \<Rightarrow> 'a \<Rightarrow> 'a list \<Rightarrow> 'a list" where
  "insert_by lt x [] = [x]"
| "insert_by lt x (y # ys) = (if lt y x then y # insert_by lt x ys else x # y # ys)"

definition stable_sort :: "('a \<Rightarrow> 'a \<Rightarrow> bool) \<Rightarrow> 'a list \<Rightarrow> 'a list" where
  "stable_sort lt xs = foldr (insert_by lt) xs []"

lemma stable_sort_key:
  fixes key :: "'a \<Rightarrow> 'b::linorder"
  assumes "\<And>x y. lt x y \<longleftrightarrow> key x < key y"
  shows "stable_sort lt xs = sort_key key xs"
proof -
  have "insert_by lt x ys = insort_key key x ys" for x ys
    by (induction ys) (auto simp: assms not_less)
  then have "insert_by lt = insort_key key" by (intro ext)
  then show ?thesis by (simp add: stable_sort_def sort_key_def)
qed

section \<open>Ranking\<close>

definition candidateDelay :: "string \<Rightarrow> (string \<Rightarrow> int option) \<Rightarrow> int" where
  "candidateDelay candidate medians = (case medians candidate of Some d \<Rightarrow> if 0 < d then d else 0 | None \<Rightarrow> 0)"

text \<open>The map of positions, in which a later occurrence replaces an earlier one.\<close>

definition positions :: "string list \<Rightarrow> string \<Rightarrow> nat" where
  "positions values v = (case map_of (rev (zip values [0..<length values])) v of None \<Rightarrow> 0 | Some i \<Rightarrow> i)"

definition rank_less ::
  "string \<Rightarrow> (string \<Rightarrow> int) \<Rightarrow> (string \<Rightarrow> int option) \<Rightarrow> (string \<Rightarrow> nat) \<Rightarrow> string \<Rightarrow> string \<Rightarrow> bool" where
  "rank_less mode groups medians pos left right =
     (if mode = ''priority'' then
        if groups left \<noteq> groups right then groups left < groups right else pos left < pos right
      else
        let leftDelay = candidateDelay left medians; rightDelay = candidateDelay right medians in
        if (0 < leftDelay) \<noteq> (0 < rightDelay) then 0 < leftDelay
        else if 0 < leftDelay \<and> leftDelay \<noteq> rightDelay then leftDelay < rightDelay
        else pos left < pos right)"

definition rankCandidates ::
  "string list \<Rightarrow> string \<Rightarrow> (string \<Rightarrow> int) \<Rightarrow> (string \<Rightarrow> int option) \<Rightarrow> string list" where
  "rankCandidates values mode groups medians = stable_sort (rank_less mode groups medians (positions values)) values"

text \<open>The order as a key: by group in priority mode, otherwise measured before unmeasured and then by delay.\<close>

definition rank_key ::
  "string \<Rightarrow> (string \<Rightarrow> int) \<Rightarrow> (string \<Rightarrow> int option) \<Rightarrow> (string \<Rightarrow> nat) \<Rightarrow> string \<Rightarrow> int \<times> int \<times> nat" where
  "rank_key mode groups medians pos v =
     (if mode = ''priority'' then (groups v, 0, pos v)
      else (if 0 < candidateDelay v medians then 0 else 1, candidateDelay v medians, pos v))"

lemma candidateDelay_nonneg: "0 \<le> candidateDelay c medians"
  by (simp add: candidateDelay_def split: option.split)

lemma rank_less_key:
  "rank_less mode groups medians pos left right \<longleftrightarrow>
   rank_key mode groups medians pos left < rank_key mode groups medians pos right"
  using candidateDelay_nonneg [of left medians] candidateDelay_nonneg [of right medians]
  by (auto simp: rank_less_def rank_key_def Let_def less_prod_def)

lemma rankCandidates_key:
  "rankCandidates values mode groups medians = sort_key (rank_key mode groups medians (positions values)) values"
  unfolding rankCandidates_def by (rule stable_sort_key) (rule rank_less_key)

lemma set_rankCandidates [simp]: "set (rankCandidates values mode groups medians) = set values"
  by (simp add: rankCandidates_key)

lemma length_rankCandidates [simp]: "length (rankCandidates values mode groups medians) = length values"
  by (simp add: rankCandidates_key)

lemma rankCandidates_Nil [simp]: "rankCandidates values mode groups medians = [] \<longleftrightarrow> values = []"
  by (metis length_0_conv length_rankCandidates)

lemma distinct_rankCandidates [simp]: "distinct (rankCandidates values mode groups medians) = distinct values"
  by (simp add: rankCandidates_key)

text \<open>For lists without repetitions the position is the index.\<close>

lemma positions_nth: "distinct values \<Longrightarrow> i < length values \<Longrightarrow> positions values (values ! i) = i"
proof -
  assume d: "distinct values" and i: "i < length values"
  let ?zs = "rev (zip values [0..<length values])"
  have "distinct (map fst ?zs)" using d by (simp add: rev_map [symmetric])
  moreover have "(values ! i, i) \<in> set ?zs" using i by (auto simp: set_zip)
  ultimately have "map_of ?zs (values ! i) = Some i" by (rule map_of_is_SomeI)
  then show ?thesis by (simp add: positions_def)
qed

lemma positions_inj: "distinct values \<Longrightarrow> inj_on (positions values) (set values)"
  by (rule inj_onI) (metis in_set_conv_nth positions_nth)

text \<open>The first of the ranking is a minimum.\<close>

lemma hd_rankCandidates_min:
  assumes "values \<noteq> []" and "c \<in> set values"
  shows "rank_key mode groups medians (positions values) (rankCandidates values mode groups medians ! 0) \<le>
    rank_key mode groups medians (positions values) c"
proof -
  let ?k = "rank_key mode groups medians (positions values)"
  let ?r = "rankCandidates values mode groups medians"
  have s: "sorted (map ?k ?r)" by (simp add: rankCandidates_key)
  obtain i where i: "i < length ?r" "?r ! i = c" using assms(2) by (metis in_set_conv_nth set_rankCandidates)
  then show ?thesis using sorted_nth_mono [OF s, of 0 i] assms(1) by simp
qed

lemma hd_rankCandidates_mem: "values \<noteq> [] \<Longrightarrow> rankCandidates values mode groups medians ! 0 \<in> set values"
  by (metis length_greater_0_conv length_rankCandidates nth_mem set_rankCandidates)

section \<open>Working pool and replacements\<close>

fun shortlist_loop :: "int \<Rightarrow> string \<Rightarrow> string list \<Rightarrow> string list \<Rightarrow> string list" where
  "shortlist_loop limit selected result [] = result"
| "shortlist_loop limit selected result (c # cs) =
     (if int (length result) = limit then result
      else if c \<noteq> selected then shortlist_loop limit selected (result @ [c]) cs
      else shortlist_loop limit selected result cs)"

definition pool_eligible :: "policyHealthState \<Rightarrow> effectivePolicySettings \<Rightarrow> string \<Rightarrow> bool" where
  "pool_eligible item p c \<longleftrightarrow> ph_AvailabilityOK item c \<and> ph_QualityOK item c \<and>
     ph_AvailabilityFailures item c = 0 \<and> ep_recoveryThreshold p \<le> ph_Recoveries item c"

text \<open>Allocating the result panics for a negative size.\<close>

definition workingShortlist ::
  "string \<Rightarrow> string list \<Rightarrow> string \<Rightarrow> (string \<Rightarrow> int) \<Rightarrow> policyHealthState \<Rightarrow> effectivePolicySettings \<Rightarrow> string list go" where
  "workingShortlist selected candidates mode groups item p =
     (if ep_shortlist p < 0 then None
      else let ranked = rankCandidates (filter (pool_eligible item p) candidates) mode groups (ph_MedianDelayMS item);
               result = (if contains candidates selected \<and> ph_AvailabilityOK item selected then [selected] else [])
           in Some (shortlist_loop (ep_shortlist p) selected result ranked))"

definition known_healthy :: "string list \<Rightarrow> policyHealthState \<Rightarrow> effectivePolicySettings \<Rightarrow> string \<Rightarrow> bool" where
  "known_healthy candidates item p c \<longleftrightarrow> contains candidates c \<and> ph_AvailabilityOK item c \<and>
     ph_AvailabilityFailures item c < ep_failureThreshold p \<and> 0 < ph_Recoveries item c"

definition knownHealthyReplacement ::
  "string list \<Rightarrow> string \<Rightarrow> (string \<Rightarrow> int) \<Rightarrow> policyHealthState \<Rightarrow> effectivePolicySettings \<Rightarrow> string" where
  "knownHealthyReplacement candidates mode groups item p =
     (let known = known_healthy candidates item p;
          ranked = (let available = rankCandidates (filter known candidates) mode groups (ph_MedianDelayMS item)
                    in if available \<noteq> [] then available ! 0 else [])
      in if mode = ''best''
         then (case find known (ph_Shortlist item) of Some c \<Rightarrow> c | None \<Rightarrow> ranked)
         else ranked)"

record healthGroup =
  hg_Selector :: string
  hg_Members :: "string list"

text \<open>The groups of the candidates: indices, selectors, and the label of each group.\<close>

definition group_selector :: "nat \<Rightarrow> healthGroup \<Rightarrow> string" where
  "group_selector index g = (if hg_Selector g = [] then ''priority-'' @ itoa (int index + 1) else hg_Selector g)"

definition add_member ::
  "string list \<Rightarrow> nat \<Rightarrow> string \<Rightarrow> string \<Rightarrow> (string \<rightharpoonup> int) \<times> (string \<rightharpoonup> string) \<Rightarrow> (string \<rightharpoonup> int) \<times> (string \<rightharpoonup> string)" where
  "add_member candidates index selector member m =
     (if contains candidates member then
        ((if fst m member = None then (fst m)(member \<mapsto> int index) else fst m),
         (if snd m member = None then (snd m)(member \<mapsto> selector) else snd m))
      else m)"

fun group_loop ::
  "string list \<Rightarrow> nat \<Rightarrow> healthGroup list \<Rightarrow> (string \<rightharpoonup> int) \<times> (string \<rightharpoonup> string) \<Rightarrow> (string \<rightharpoonup> string) \<Rightarrow>
   ((string \<rightharpoonup> int) \<times> (string \<rightharpoonup> string)) \<times> (string \<rightharpoonup> string)" where
  "group_loop candidates index [] m labels = (m, labels)"
| "group_loop candidates index (g # gs) m labels =
     (let selector = group_selector index g in
      group_loop candidates (Suc index) gs (fold (add_member candidates index selector) (hg_Members g) m)
        (labels(itoa (int index) \<mapsto> selector)))"

fun ungrouped_loop :: "string \<Rightarrow> nat \<Rightarrow> string list \<Rightarrow> (string \<rightharpoonup> int) \<Rightarrow> (string \<rightharpoonup> int)" where
  "ungrouped_loop mode index [] indices = indices"
| "ungrouped_loop mode index (c # cs) indices =
     ungrouped_loop mode (Suc index) cs
       (if indices c = None then indices(c \<mapsto> if mode = ''priority'' then int index else 0) else indices)"

definition candidateGroups ::
  "healthGroup list \<Rightarrow> string list \<Rightarrow> string \<Rightarrow> (string \<rightharpoonup> int) \<times> (string \<rightharpoonup> string) \<times> (string \<rightharpoonup> string)" where
  "candidateGroups groups candidates mode =
     (let ((indices, selectors), labels) = group_loop candidates 0 groups (Map.empty, Map.empty) Map.empty
      in (ungrouped_loop mode 0 candidates indices, selectors, labels))"

section \<open>Emergency order\<close>

definition positive_delay :: "int option \<Rightarrow> bool" where
  "positive_delay d \<longleftrightarrow> (case d of Some ms \<Rightarrow> 0 < ms | None \<Rightarrow> False)"

definition cached_delay :: "nanos \<Rightarrow> policyHealthState \<Rightarrow> effectivePolicySettings \<Rightarrow> string \<Rightarrow> int option" where
  "cached_delay now item p c =
     (let (sample, observed) = latestQualityObservation item c; age = unix_fraction now - observed in
      if hs_OK sample \<and> positive_delay (hs_DelayMS sample) \<and> 0 < observed \<and> 0 \<le> age \<and> age \<le> of_int (ep_backup p)
      then hs_DelayMS sample else None)"

definition emergencyRankingDelays ::
  "nanos \<Rightarrow> string list \<Rightarrow> (string \<rightharpoonup> probeEvidence) \<Rightarrow> policyHealthState \<Rightarrow> effectivePolicySettings \<Rightarrow> string \<Rightarrow> int option" where
  "emergencyRankingDelays now candidates measured item p c =
     (if \<not> contains candidates c then None
      else case measured c of
        Some e \<Rightarrow>
          if \<not> pe_OK e \<or> pe_LocalFailure e \<or> pe_PrimaryQualityFailed e then None
          else if positive_delay (pe_DelayMS e) \<and> \<not> pe_QualityUnmeasured e then pe_DelayMS e
          else cached_delay now item p c
      | None \<Rightarrow> cached_delay now item p c)"

section \<open>The desired selection\<close>

definition meaningfullyBetter ::
  "string \<Rightarrow> string list \<Rightarrow> (string \<Rightarrow> int option) \<Rightarrow> effectivePolicySettings \<Rightarrow> string" where
  "meaningfullyBetter selected candidates delays p =
     (case delays selected of
        None \<Rightarrow> []
      | Some current \<Rightarrow>
          if current \<le> 0 then []
          else
            let qualified = filter (\<lambda>c. case delays c of
                    Some d \<Rightarrow> 0 < d \<and> ep_improvement p < current - d | None \<Rightarrow> False) candidates;
                sorted = stable_sort (\<lambda>l r. the (delays l) < the (delays r)) qualified
            in if sorted = [] then [] else sorted ! 0)"

definition qualitySampleAge :: "nanos \<Rightarrow> policyHealthState \<Rightarrow> string \<Rightarrow> rat \<times> bool" where
  "qualitySampleAge now item c =
     (if ph_Samples item c = [] then (0, False)
      else let sample = last (ph_Samples item c); age = unix now - hs_At sample
           in (age, 0 < hs_At sample \<and> 0 \<le> age \<and> hs_OK sample \<and> positive_delay (hs_DelayMS sample)))"

definition soft_window :: "effectivePolicySettings \<Rightarrow> rat" where
  "soft_window p = of_int (min (ep_backup p) (max (ep_active p * 2) 120))"

definition freshComparisonAt :: "nanos \<Rightarrow> optimizationComparison option \<Rightarrow> effectivePolicySettings \<Rightarrow> bool" where
  "freshComparisonAt now comparison p = (case comparison of
     None \<Rightarrow> False
   | Some c \<Rightarrow> 0 \<le> now - oc_At c \<and> now - oc_At c \<le> max (ep_active p * 2) 120 * second)"

definition fresh_evidence :: "(string \<rightharpoonup> probeEvidence) \<Rightarrow> string \<Rightarrow> bool" where
  "fresh_evidence measured c = (case measured c of Some e \<Rightarrow> pe_OK e \<and> \<not> pe_LocalFailure e | None \<Rightarrow> False)"

text \<open>Candidates that may replace a reachable path.\<close>

definition stable_reserve ::
  "nanos \<Rightarrow> string \<Rightarrow> (string \<Rightarrow> int option) \<Rightarrow> (string \<Rightarrow> bool) \<Rightarrow> (string \<Rightarrow> bool) \<Rightarrow> policyHealthState \<Rightarrow>
   effectivePolicySettings \<Rightarrow> string \<Rightarrow> bool" where
  "stable_reserve now selected medians quality available item p c \<longleftrightarrow>
     c \<noteq> selected \<and> quality c \<and>
     (available c \<and> ep_recoveryThreshold p \<le> ph_Recoveries item c \<and> medians c \<noteq> None) \<and>
     ph_AvailabilityFailures item c = 0 \<and>
     snd (qualitySampleAge now item c) \<and> fst (qualitySampleAge now item c) \<le> soft_window p"

text \<open>The latest sample pair of the active path and a reserve does not refute the improvement.\<close>

definition pair_supports :: "policyHealthState \<Rightarrow> effectivePolicySettings \<Rightarrow> string \<Rightarrow> string \<Rightarrow> bool" where
  "pair_supports item p selected c \<longleftrightarrow>
     (let activeSamples = ph_Samples item selected; reserveSamples = ph_Samples item c in
      if activeSamples \<noteq> [] \<and> reserveSamples \<noteq> [] then
        (case (hs_DelayMS (last activeSamples), hs_DelayMS (last reserveSamples)) of
           (Some a, Some r) \<Rightarrow> ep_improvement p < a - r | _ \<Rightarrow> False)
      else True)"

definition measured_stable ::
  "(string \<rightharpoonup> probeEvidence) \<Rightarrow> policyHealthState \<Rightarrow> effectivePolicySettings \<Rightarrow> string \<Rightarrow> string \<Rightarrow> bool" where
  "measured_stable measured item p selected c \<longleftrightarrow>
     pair_supports item p selected c \<and>
     (c = ph_OptimizationCandidate item \<and> 0 < ph_OptimizationChecks item \<or>
      (case measured c of Some e \<Rightarrow> pe_OK e \<and> pe_DelayMS e \<noteq> None \<and> \<not> pe_QualityUnmeasured e | None \<Rightarrow> False))"

definition higher_priority :: "(string \<Rightarrow> int) \<Rightarrow> string list \<Rightarrow> string \<Rightarrow> string \<Rightarrow> bool" where
  "higher_priority groups candidates selected c \<longleftrightarrow>
     groups c < groups selected \<or>
     groups c = groups selected \<and> candidateIndex candidates c < candidateIndex candidates selected"

definition selected_failed :: "string \<Rightarrow> string list \<Rightarrow> policyHealthState \<Rightarrow> effectivePolicySettings \<Rightarrow> bool" where
  "selected_failed selected candidates item p \<longleftrightarrow> selected = ''block'' \<or> \<not> contains candidates selected \<or>
     ep_failureThreshold p \<le> ph_AvailabilityFailures item selected"

text \<open>The branch of \<open>selectDesired\<close> for a usable path.\<close>

definition select_soft ::
  "nanos \<Rightarrow> string \<Rightarrow> string \<Rightarrow> string list \<Rightarrow> (string \<Rightarrow> int) \<Rightarrow> (string \<Rightarrow> int option) \<Rightarrow> (string \<rightharpoonup> probeEvidence) \<Rightarrow>
   string list \<Rightarrow> policyHealthState \<Rightarrow> effectivePolicySettings \<Rightarrow> string \<times> string" where
  "select_soft now mode selected candidates groups medians measured reserves item p =
     (let rank = (\<lambda>values. rankCandidates values mode groups medians);
          priorityReturn = (if mode = ''priority'' then
              (let higher = rank (filter (higher_priority groups candidates selected) reserves)
               in if higher \<noteq> [] then higher ! 0 else [])
            else [])
      in if ep_failureThreshold p \<le> ph_Failures item selected \<and> reserves \<noteq> [] then (rank reserves ! 0, ''active-degraded'')
         else if priorityReturn \<noteq> [] then (priorityReturn, ''higher-priority-recovered'')
         else if mode \<noteq> ''priority'' then
           (let measuredStable = filter (measured_stable measured item p selected) reserves;
                pending = ph_OptimizationCandidate item;
                confirmed = (if 0 < ph_OptimizationChecks item \<and> ph_OptimizationBaseline item = selected \<and>
                    freshComparisonAt now (ph_OptimizationLastResult item) p \<and> contains measuredStable pending
                  then meaningfullyBetter selected [pending] medians p else []);
                better = meaningfullyBetter selected measuredStable medians p
            in if confirmed \<noteq> [] then (confirmed, ''meaningfully-faster'')
               else if better \<noteq> [] then (better, ''meaningfully-faster'')
               else (selected, []))
         else (selected, []))"

definition selectDesired ::
  "nanos \<Rightarrow> string \<Rightarrow> string \<Rightarrow> string list \<Rightarrow> (string \<Rightarrow> int) \<Rightarrow> (string \<Rightarrow> int option) \<Rightarrow> (string \<rightharpoonup> probeEvidence) \<Rightarrow>
   (string \<Rightarrow> bool) \<Rightarrow> (string \<Rightarrow> bool) \<Rightarrow> policyHealthState \<Rightarrow> effectivePolicySettings \<Rightarrow> string \<times> string" where
  "selectDesired now mode selected candidates groups medians measured quality available item p =
     (let rankEmergency = (\<lambda>values. rankCandidates values mode groups (emergencyRankingDelays now values measured item p)) in
      if selected = ''block'' then
        (let values = rankEmergency (filter (fresh_evidence measured) candidates) in
         if values \<noteq> [] then (values ! 0, ''fresh-path-available'') else (selected, []))
      else if selected_failed selected candidates item p then
        (let alternatives = rankEmergency (filter (\<lambda>c. c \<noteq> selected \<and> fresh_evidence measured c) candidates) in
         if alternatives \<noteq> [] then (alternatives ! 0, ''active-unavailable'')
         else (''block'', ''all-candidates-unavailable''))
      else
        select_soft now mode selected candidates groups medians measured
          (filter (stable_reserve now selected medians quality available item p) candidates) item p)"

section \<open>Confirmation of a planned switch\<close>

abbreviation optimizationWin :: string where "optimizationWin \<equiv> ''win''"
abbreviation optimizationLoss :: string where "optimizationLoss \<equiv> ''loss''"
abbreviation optimizationInconclusive :: string where "optimizationInconclusive \<equiv> ''inconclusive''"
abbreviation optimizationConfirmations :: int where "optimizationConfirmations \<equiv> 2"
abbreviation optimizationPairSkew :: nanos where "optimizationPairSkew \<equiv> 10 * second"

definition isPlannedOptimization :: "string \<Rightarrow> bool" where
  "isPlannedOptimization reason \<longleftrightarrow> reason = ''meaningfully-faster''"

definition clearOptimizationCandidate :: "policyHealthState \<Rightarrow> policyHealthState" where
  "clearOptimizationCandidate item =
     item\<lparr>ph_OptimizationBaseline := [], ph_OptimizationCandidate := [], ph_OptimizationChecks := 0\<rparr>"

definition freshOptimizationWin ::
  "string \<Rightarrow> string \<Rightarrow> (string \<rightharpoonup> probeEvidence) \<Rightarrow> effectivePolicySettings \<Rightarrow> bool" where
  "freshOptimizationWin selected candidate measured p = (case (measured selected, measured candidate) of
     (Some a, Some c) \<Rightarrow>
       if \<not> pe_OK a \<or> \<not> pe_OK c \<or> pe_DelayMS a = None \<or> pe_DelayMS c = None then False
       else meaningfullyBetter selected [candidate]
              ((\<lambda>_. None)(selected := pe_DelayMS a, candidate := pe_DelayMS c)) p = candidate
   | _ \<Rightarrow> False)"

definition no_evidence :: probeEvidence where
  "no_evidence = \<lparr>pe_QualityUnmeasured = False, pe_PrimaryQualityFailed = False, pe_ObservedAt = None, pe_Deferred = False,
     pe_LocalFailure = False, pe_OK = False, pe_ResponseDelayMS = None, pe_DelayMS = None, pe_Failure = FailureNone\<rparr>"

text \<open>The time of a comparison is formatted to whole seconds.\<close>

definition compareOptimization ::
  "nanos \<Rightarrow> string \<Rightarrow> string \<Rightarrow> (string \<rightharpoonup> probeEvidence) \<Rightarrow> bool \<Rightarrow> bool \<Rightarrow> effectivePolicySettings \<Rightarrow> optimizationComparison" where
  "compareOptimization now selected candidate measured candidateQuality candidateAvailable p =
     (let active = (case measured selected of None \<Rightarrow> no_evidence | Some e \<Rightarrow> e);
          reserve = (case measured candidate of None \<Rightarrow> no_evidence | Some e \<Rightarrow> e);
          (result, reason) =
            (if measured selected = None \<or> measured candidate = None then (optimizationInconclusive, ''pair-incomplete'')
             else if \<not> pe_OK active \<or> pe_DelayMS active = None then (optimizationLoss, ''active-https-failed'')
             else if \<not> pe_OK reserve \<or> pe_DelayMS reserve = None \<or> \<not> candidateQuality \<or> \<not> candidateAvailable
               then (optimizationLoss, ''candidate-quality'')
             else if freshOptimizationWin selected candidate measured p then (optimizationWin, ''better'')
             else (optimizationLoss, ''not-better''))
      in \<lparr>oc_ActiveSampleAt = unix now, oc_CandidateSampleAt = unix now,
          oc_ActiveResponseMS = pe_ResponseDelayMS active, oc_CandidateResponseMS = pe_ResponseDelayMS reserve,
          oc_Measurement = ''gstatic-head-v1'', oc_ImprovementMS = ep_improvement p, oc_At = now div second * second,
          oc_Candidate = candidate, oc_Result = result, oc_Reason = reason,
          oc_ActiveDelayMS = pe_DelayMS active, oc_CandidateDelayMS = pe_DelayMS reserve\<rparr>)"

text \<open>The sides of a pair with the medians of the samples in place of the single measurements.\<close>

definition with_medians ::
  "(string \<Rightarrow> int option) \<Rightarrow> (string \<rightharpoonup> probeEvidence) \<Rightarrow> (string \<rightharpoonup> probeEvidence)" where
  "with_medians medians pair = (\<lambda>node. map_option (\<lambda>e.
     if pe_OK e \<and> pe_DelayMS e \<noteq> None \<and> \<not> pe_QualityUnmeasured e \<and> medians node \<noteq> None
     then e\<lparr>pe_DelayMS := medians node\<rparr> else e) (pair node))"

definition comparison_pair ::
  "nanos \<Rightarrow> string \<Rightarrow> string \<Rightarrow> (string \<rightharpoonup> probeEvidence) \<Rightarrow> probeEvidence \<Rightarrow> policyHealthState \<Rightarrow>
   (string \<rightharpoonup> probeEvidence) \<times> rat \<times> bool" where
  "comparison_pair now selected candidate measured evidence item =
     (let pair = [candidate \<mapsto> evidence]; candidateAt = qualityObservationAt now evidence in
      case measured selected of
        Some active \<Rightarrow> (pair(selected \<mapsto> active), qualityObservationAt now active, True)
      | None \<Rightarrow>
          (let (previous, activeAt) = latestQualityObservation item selected in
           if ph_OptimizationBaseline item = selected \<and> ph_OptimizationCandidate item = candidate \<and>
              0 < hs_ObservedAt previous \<and> hs_ObservedAt previous \<le> candidateAt
           then (pair(selected \<mapsto> no_evidence\<lparr>pe_OK := hs_OK previous, pe_DelayMS := hs_DelayMS previous\<rparr>), activeAt, True)
           else (pair, activeAt, False)))"

definition regularOptimizationComparison ::
  "nanos \<Rightarrow> string \<Rightarrow> string \<Rightarrow> (string \<rightharpoonup> probeEvidence) \<Rightarrow> policyHealthState \<Rightarrow> bool \<Rightarrow> bool \<Rightarrow>
   effectivePolicySettings \<Rightarrow> optimizationComparison option" where
  "regularOptimizationComparison now selected candidate measured item quality available p =
     (case measured candidate of
        None \<Rightarrow> None
      | Some evidence \<Rightarrow>
          let candidateAt = qualityObservationAt now evidence;
              (pair, activeAt, complete) = comparison_pair now selected candidate measured evidence item;
              latest = (compareOptimization now selected candidate pair quality available p)
                \<lparr>oc_ActiveSampleAt := activeAt, oc_CandidateSampleAt := candidateAt\<rparr>
          in Some (if \<not> complete \<or> 10 < \<bar>candidateAt - activeAt\<bar>
             then latest\<lparr>oc_Result := optimizationInconclusive,
                         oc_Reason := (if complete then ''pair-skew'' else ''pair-incomplete'')\<rparr>
             else if oc_Result latest \<noteq> optimizationWin then latest
             else (compareOptimization now selected candidate
                     (with_medians (sampleMedians (ph_Samples item) [selected, candidate]) pair) quality available p)
                  \<lparr>oc_ActiveSampleAt := activeAt, oc_CandidateSampleAt := candidateAt\<rparr>))"

text \<open>The confirmation of a win, the last part of \<open>gatePlannedOptimization\<close>.\<close>

definition confirm_win ::
  "nanos \<Rightarrow> string \<Rightarrow> string \<Rightarrow> optimizationComparison \<Rightarrow> policyHealthState \<Rightarrow> effectivePolicySettings \<Rightarrow>
   (string \<times> string) \<times> policyHealthState" where
  "confirm_win now selected desired comparison item p =
     (let previous = ph_OptimizationLastResult item;
          restart = (ph_OptimizationCandidate item \<noteq> desired \<or> \<not> freshComparisonAt now previous p \<or>
            (case previous of None \<Rightarrow> True | Some c \<Rightarrow> oc_ActiveSampleAt c \<le> 0 \<or> oc_CandidateSampleAt c \<le> 0));
          item = (if restart then item\<lparr>ph_OptimizationBaseline := selected, ph_OptimizationCandidate := desired, ph_OptimizationChecks := 0\<rparr>
                  else item);
          repeated = (0 < ph_OptimizationChecks item \<and> (case previous of None \<Rightarrow> False
            | Some c \<Rightarrow> oc_At c = oc_At comparison \<or> oc_ActiveSampleAt comparison \<le> oc_ActiveSampleAt c \<or>
                oc_CandidateSampleAt comparison \<le> oc_CandidateSampleAt c))
      in if repeated then ((selected, []), item)
         else
           let item = item\<lparr>ph_OptimizationLastResult := Some comparison, ph_OptimizationChecks := ph_OptimizationChecks item + 1\<rparr>
           in if ph_OptimizationChecks item < optimizationConfirmations then ((selected, []), item)
              else ((desired, ''meaningfully-faster''), clearOptimizationCandidate item))"

definition gatePlannedOptimization ::
  "nanos \<Rightarrow> string \<Rightarrow> string \<Rightarrow> string \<Rightarrow> optimizationComparison option \<Rightarrow> policyHealthState \<Rightarrow> effectivePolicySettings \<Rightarrow>
   (string \<times> string) \<times> policyHealthState" where
  "gatePlannedOptimization now selected desired reason comparison item p =
     (if desired \<noteq> selected \<and> \<not> isPlannedOptimization reason then ((desired, reason), clearOptimizationCandidate item)
      else if ph_OptimizationBaseline item \<noteq> [] \<and> ph_OptimizationBaseline item \<noteq> selected
        then ((selected, []), clearOptimizationCandidate item)
      else case comparison of
        None \<Rightarrow> ((selected, []),
          if ph_OptimizationCandidate item \<noteq> [] \<and> \<not> freshComparisonAt now (ph_OptimizationLastResult item) p
          then clearOptimizationCandidate item else item)
      | Some c \<Rightarrow>
          if desired \<noteq> selected \<and> isPlannedOptimization reason \<and> oc_Result c = optimizationInconclusive \<and>
             0 < oc_CandidateSampleAt c \<and> freshComparisonAt now comparison p \<and>
             (oc_Reason c = ''pair-incomplete'' \<or> oc_Reason c = ''pair-skew'')
          then ((selected, []),
            if ph_OptimizationCandidate item \<noteq> desired \<or> ph_OptimizationBaseline item \<noteq> selected \<or>
               \<not> freshComparisonAt now (ph_OptimizationLastResult item) p
            then item\<lparr>ph_OptimizationBaseline := selected, ph_OptimizationCandidate := desired, ph_OptimizationChecks := 0,
                      ph_OptimizationLastResult := comparison\<rparr>
            else if ph_OptimizationChecks item = 0 then item\<lparr>ph_OptimizationLastResult := comparison\<rparr> else item)
          else if oc_Result c \<noteq> optimizationWin \<or> oc_Candidate c \<noteq> desired
          then ((selected, []), (clearOptimizationCandidate item)\<lparr>ph_OptimizationLastResult := comparison\<rparr>)
          else if oc_ActiveSampleAt c \<le> 0 \<or> oc_CandidateSampleAt c \<le> 0 then ((selected, []), item)
          else confirm_win now selected desired c item p)"

section \<open>Published comparisons\<close>

record latencyComparison =
  lc_Active :: string
  lc_ActiveDelayMS :: int
  lc_CandidateDelayMS :: int
  lc_ActiveAt :: rat
  lc_CandidateAt :: rat
  lc_ExpiresAt :: rat

definition comparison_qualified ::
  "nanos \<Rightarrow> policyHealthState \<Rightarrow> effectivePolicySettings \<Rightarrow> string \<Rightarrow> bool \<Rightarrow> bool" where
  "comparison_qualified now item p c reserve \<longleftrightarrow>
     (let (age, good) = qualitySampleAge now item c in
      good \<and> age \<le> soft_window p \<and> ph_QualityOK item c \<and> ph_AvailabilityOK item c \<and>
      ph_AvailabilityFailures item c = 0 \<and> (reserve \<longrightarrow> ep_recoveryThreshold p \<le> ph_Recoveries item c))"

text \<open>Taking the last sample and following a median pointer panic when there is none.\<close>

definition last_sample :: "policyHealthState \<Rightarrow> string \<Rightarrow> healthSample go" where
  "last_sample item c = (if ph_Samples item c = [] then None else Some (last (ph_Samples item c)))"

fun comparison_loop ::
  "nanos \<Rightarrow> policyHealthState \<Rightarrow> effectivePolicySettings \<Rightarrow> string \<Rightarrow> healthSample \<Rightarrow> (string \<Rightarrow> int option) \<Rightarrow>
   string list \<Rightarrow> (string \<rightharpoonup> latencyComparison) \<Rightarrow> (string \<rightharpoonup> latencyComparison) go" where
  "comparison_loop now item p active baseline medians [] result = Some result"
| "comparison_loop now item p active baseline medians (c # cs) result =
     (if c = active \<or> \<not> comparison_qualified now item p c True then comparison_loop now item p active baseline medians cs result
      else do {
        sample \<leftarrow> last_sample item c;
        if hs_ObservedAt sample \<le> 0 \<or> 10 < \<bar>hs_ObservedAt sample - hs_ObservedAt baseline\<bar>
        then comparison_loop now item p active baseline medians cs result
        else do {
          activeDelay \<leftarrow> medians active;
          candidateDelay \<leftarrow> medians c;
          comparison_loop now item p active baseline medians cs (result(c \<mapsto>
            \<lparr>lc_Active = active, lc_ActiveDelayMS = activeDelay, lc_CandidateDelayMS = candidateDelay,
             lc_ActiveAt = hs_ObservedAt baseline, lc_CandidateAt = hs_ObservedAt sample,
             lc_ExpiresAt = min (hs_ObservedAt baseline) (hs_ObservedAt sample) + soft_window p\<rparr>))
        }
      })"

definition currentLatencyComparisons ::
  "nanos \<Rightarrow> policyHealthState \<Rightarrow> string list \<Rightarrow> effectivePolicySettings \<Rightarrow> (string \<rightharpoonup> latencyComparison) option go" where
  "currentLatencyComparisons now item candidates p =
     (let active = ph_RuntimeSelected item in
      if \<not> ph_RuntimeConfirmed item \<or> active = [] \<or> active = ''block'' \<or> active \<noteq> ph_Selected item \<or> \<not> contains candidates active
      then Some None
      else if \<not> comparison_qualified now item p active False then Some None
      else do {
        baseline \<leftarrow> last_sample item active;
        if hs_ObservedAt baseline \<le> 0 then Some None
        else do {
          result \<leftarrow> comparison_loop now item p active baseline (sampleMedians (ph_Samples item) candidates) candidates Map.empty;
          Some (Some result)
        }
      })"

section \<open>Correctness of the choice\<close>

lemma set_insert_by [simp]: "set (insert_by lt x xs) = insert x (set xs)"
  by (induction xs) auto

lemma set_stable_sort [simp]: "set (stable_sort lt xs) = set xs"
proof -
  have "set (foldr (insert_by lt) xs []) = set xs" by (induction xs) simp_all
  then show ?thesis by (simp add: stable_sort_def)
qed

lemma meaningfullyBetter_sound:
  assumes "meaningfullyBetter selected cs delays p = c" and "c \<noteq> []"
  shows "c \<in> set cs \<and> (\<exists>a d. delays selected = Some a \<and> delays c = Some d \<and> 0 < d \<and> ep_improvement p < a - d)"
proof -
  obtain a where a: "delays selected = Some a" "\<not> a \<le> 0"
    using assms by (auto simp: meaningfullyBetter_def split: option.splits if_splits)
  let ?q = "filter (\<lambda>c. case delays c of Some d \<Rightarrow> 0 < d \<and> ep_improvement p < a - d | None \<Rightarrow> False) cs"
  let ?s = "stable_sort (\<lambda>l r. the (delays l) < the (delays r)) ?q"
  have "meaningfullyBetter selected cs delays p = (if ?s = [] then [] else ?s ! 0)"
    using a by (simp add: meaningfullyBetter_def Let_def)
  then have eq: "?s \<noteq> []" "c = ?s ! 0" using assms by (simp_all split: if_splits)
  have "?s ! 0 \<in> set ?s" using eq(1) by (intro nth_mem) simp
  then have "c \<in> set ?s" unfolding eq(2) [symmetric] .
  then have "c \<in> set ?q" by simp
  then show ?thesis using a by (auto split: option.splits)
qed

lemma select_soft_sound:
  assumes "select_soft now mode selected candidates groups medians measured reserves item p = (d, r)" and "d \<noteq> selected"
  shows "d \<in> set reserves \<and>
    (r = ''active-degraded'' \<and> ep_failureThreshold p \<le> ph_Failures item selected \<or>
     r = ''higher-priority-recovered'' \<and> mode = ''priority'' \<and> higher_priority groups candidates selected d \<or>
     r = ''meaningfully-faster'' \<and> mode \<noteq> ''priority'' \<and> measured_stable measured item p selected d \<and>
       (\<exists>a m. medians selected = Some a \<and> medians d = Some m \<and> ep_improvement p < a - m))"
proof -
  let ?rank = "\<lambda>values. rankCandidates values mode groups medians"
  let ?higher = "filter (higher_priority groups candidates selected) reserves"
  let ?stable = "filter (measured_stable measured item p selected) reserves"
  let ?pending = "ph_OptimizationCandidate item"
  have better: "c \<in> set reserves \<and> measured_stable measured item p selected c \<and>
      (\<exists>a m. medians selected = Some a \<and> medians c = Some m \<and> ep_improvement p < a - m)"
    if "meaningfullyBetter selected cs medians p = c" "c \<noteq> []" "set cs \<subseteq> set ?stable" for c cs
    using meaningfullyBetter_sound [OF that(1,2)] that(3) by auto
  consider (degraded) "ep_failureThreshold p \<le> ph_Failures item selected" "reserves \<noteq> []" "d = ?rank reserves ! 0" "r = ''active-degraded''"
    | (higher) "mode = ''priority''" "?higher \<noteq> []" "d = ?rank ?higher ! 0" "r = ''higher-priority-recovered''"
    | (pending) "mode \<noteq> ''priority''" "r = ''meaningfully-faster''" "contains ?stable ?pending"
        "d = meaningfullyBetter selected [?pending] medians p" "d \<noteq> []"
    | (faster) "mode \<noteq> ''priority''" "r = ''meaningfully-faster''" "d = meaningfullyBetter selected ?stable medians p" "d \<noteq> []"
    using assms unfolding select_soft_def Let_def by (simp split: if_splits)
  then show ?thesis
  proof cases
    case degraded
    then show ?thesis using hd_rankCandidates_mem by blast
  next
    case higher
    then show ?thesis using hd_rankCandidates_mem [OF higher(2), of mode groups medians] by simp
  next
    case pending
    then show ?thesis using better [of "[?pending]" d] by simp
  next
    case faster
    then show ?thesis using better [of ?stable d] by simp
  qed
qed

text \<open>The emergency branches take the best ranked of the candidates that have just answered.\<close>

lemma emergency_first:
  assumes "values \<noteq> []"
  shows "rankCandidates values mode groups delays ! 0 \<in> set values"
    "\<And>c. c \<in> set values \<Longrightarrow> rank_key mode groups delays (positions values) (rankCandidates values mode groups delays ! 0) \<le>
       rank_key mode groups delays (positions values) c"
  using hd_rankCandidates_mem [OF assms] hd_rankCandidates_min [OF assms] by simp_all

lemma selectDesired_failed:
  assumes "selectDesired now mode selected candidates groups medians measured quality available item p = (d, r)"
    and "selected_failed selected candidates item p"
  defines "values \<equiv> filter (\<lambda>c. c \<noteq> selected \<and> fresh_evidence measured c) candidates"
  assumes "''block'' \<notin> set candidates"
  shows "if values = [] then d = ''block''
    else d \<in> set values \<and> (\<forall>c \<in> set values.
      rank_key mode groups (emergencyRankingDelays now values measured item p) (positions values) d \<le>
      rank_key mode groups (emergencyRankingDelays now values measured item p) (positions values) c)"
proof -
  have same: "filter (fresh_evidence measured) candidates = values" if "selected = ''block''"
    using that assms(4) by (auto simp: values_def intro!: filter_cong)
  let ?delays = "emergencyRankingDelays now values measured item p"
  have d: "d = (if values = [] then ''block'' else rankCandidates values mode groups ?delays ! 0)"
  proof (cases "selected = ''block''")
    case True
    have "fst (selectDesired now mode selected candidates groups medians measured quality available item p) =
        (if values = [] then ''block'' else rankCandidates values mode groups ?delays ! 0)"
      unfolding selectDesired_def Let_def same [OF True] by (simp add: True)
    then show ?thesis using assms(1) by simp
  next
    case False
    have "fst (selectDesired now mode selected candidates groups medians measured quality available item p) =
        (if values = [] then ''block'' else rankCandidates values mode groups ?delays ! 0)"
      unfolding selectDesired_def Let_def values_def [symmetric] by (simp add: False assms(2))
    then show ?thesis using assms(1) by simp
  qed
  show ?thesis
    using emergency_first(1) [of "values" mode groups ?delays] emergency_first(2) [of "values" _ mode groups ?delays] d by auto
qed

lemma selectDesired_usable:
  assumes "selectDesired now mode selected candidates groups medians measured quality available item p = (d, r)"
    and "\<not> selected_failed selected candidates item p" and "d \<noteq> selected"
  shows "d \<in> set candidates \<and> stable_reserve now selected medians quality available item p d \<and>
    (r = ''active-degraded'' \<and> ep_failureThreshold p \<le> ph_Failures item selected \<or>
     r = ''higher-priority-recovered'' \<and> mode = ''priority'' \<and> higher_priority groups candidates selected d \<or>
     r = ''meaningfully-faster'' \<and> mode \<noteq> ''priority'' \<and> measured_stable measured item p selected d \<and>
       (\<exists>a m. medians selected = Some a \<and> medians d = Some m \<and> ep_improvement p < a - m))"
proof -
  have "selected \<noteq> ''block''" using assms(2) by (auto simp: selected_failed_def)
  then have "select_soft now mode selected candidates groups medians measured
      (filter (stable_reserve now selected medians quality available item p) candidates) item p = (d, r)"
    using assms(1,2) by (simp add: selectDesired_def Let_def)
  from select_soft_sound [OF this assms(3)] show ?thesis by simp
qed

section \<open>Rounds of confirmation\<close>

record opt_round =
  or_now :: nanos
  or_selected :: string
  or_desired :: string
  or_reason :: string
  or_comparison :: "optimizationComparison option"

definition gate_round :: "effectivePolicySettings \<Rightarrow> opt_round \<Rightarrow> policyHealthState \<Rightarrow> (string \<times> string) \<times> policyHealthState" where
  "gate_round p r item =
     gatePlannedOptimization (or_now r) (or_selected r) (or_desired r) (or_reason r) (or_comparison r) item p"

fun gate_rounds :: "effectivePolicySettings \<Rightarrow> opt_round list \<Rightarrow> policyHealthState \<Rightarrow> policyHealthState" where
  "gate_rounds p [] item = item"
| "gate_rounds p (r # rs) item = gate_rounds p rs (snd (gate_round p r item))"

text \<open>A win counted so far: a round whose comparison was a win of the pending candidate over the baseline.\<close>

definition counted_win :: "opt_round list \<Rightarrow> policyHealthState \<Rightarrow> optimizationComparison \<Rightarrow> bool" where
  "counted_win rs item c \<longleftrightarrow> (\<exists>r \<in> set rs. or_comparison r = Some c \<and> or_desired r = ph_OptimizationCandidate item \<and>
     or_selected r = ph_OptimizationBaseline item \<and> oc_Candidate c = ph_OptimizationCandidate item \<and>
     oc_Result c = optimizationWin \<and> 0 < oc_ActiveSampleAt c \<and> 0 < oc_CandidateSampleAt c)"

definition opt_inv :: "opt_round list \<Rightarrow> policyHealthState \<Rightarrow> bool" where
  "opt_inv rs item \<longleftrightarrow>
     (ph_OptimizationBaseline item = [] \<longrightarrow> ph_OptimizationCandidate item = []) \<and>
     (ph_OptimizationChecks item = 0 \<or>
      ph_OptimizationChecks item = 1 \<and> (\<exists>c. ph_OptimizationLastResult item = Some c \<and> counted_win rs item c))"

lemma opt_inv_mono: "opt_inv rs item \<Longrightarrow> opt_inv (rs @ qs) item"
  by (auto simp: opt_inv_def counted_win_def)

lemma opt_inv_clear: "opt_inv rs (clearOptimizationCandidate item)" "opt_inv rs ((clearOptimizationCandidate item)\<lparr>ph_OptimizationLastResult := c\<rparr>)"
  by (simp_all add: opt_inv_def clearOptimizationCandidate_def)

text \<open>An earlier counted win, still fresh, that the comparison \<open>c\<close> advances on both sides.\<close>

definition earlier_win ::
  "opt_round list \<Rightarrow> policyHealthState \<Rightarrow> nanos \<Rightarrow> string \<Rightarrow> string \<Rightarrow> optimizationComparison \<Rightarrow> effectivePolicySettings \<Rightarrow> bool" where
  "earlier_win rs item now selected desired c p \<longleftrightarrow>
     (\<exists>c'. ph_OptimizationLastResult item = Some c' \<and> freshComparisonAt now (Some c') p \<and> counted_win rs item c' \<and>
       ph_OptimizationBaseline item = selected \<and> ph_OptimizationCandidate item = desired \<and> oc_At c' \<noteq> oc_At c \<and>
       oc_ActiveSampleAt c' < oc_ActiveSampleAt c \<and> oc_CandidateSampleAt c' < oc_CandidateSampleAt c)"

text \<open>The confirmation of one more win, from a state whose baseline is the active path.\<close>

lemma confirm_win_cases:
  fixes item :: policyHealthState and c :: optimizationComparison
  assumes inv: "opt_inv rs item" and base: "ph_OptimizationBaseline item = [] \<or> ph_OptimizationBaseline item = selected"
    and names: "selected \<noteq> []" "desired \<noteq> []"
    and win: "oc_Result c = optimizationWin" "oc_Candidate c = desired" "0 < oc_ActiveSampleAt c" "0 < oc_CandidateSampleAt c"
    and round: "or_comparison r = Some c" "or_desired r = desired" "or_selected r = selected"
    and run: "confirm_win now selected desired c item p = (out, item')"
  shows "opt_inv (rs @ [r]) item' \<and> (fst out \<noteq> selected \<longrightarrow> earlier_win rs item now selected desired c p)"
proof -
  define restart where "restart \<longleftrightarrow> ph_OptimizationCandidate item \<noteq> desired \<or> \<not> freshComparisonAt now (ph_OptimizationLastResult item) p \<or>
            (case ph_OptimizationLastResult item of None \<Rightarrow> True | Some c \<Rightarrow> oc_ActiveSampleAt c \<le> 0 \<or> oc_CandidateSampleAt c \<le> 0)"
  note defs = confirm_win_def Let_def restart_def [symmetric]
  have first: "opt_inv (rs @ [r]) (item1\<lparr>ph_OptimizationLastResult := Some c, ph_OptimizationChecks := 1\<rparr>)"
    if "ph_OptimizationBaseline item1 = selected" "ph_OptimizationCandidate item1 = desired" for item1 :: policyHealthState
    using that names win round by (auto simp: opt_inv_def counted_win_def)
  consider (restarted) "restart" | (first) "\<not> restart" "ph_OptimizationChecks item = 0"
    | (second) c' where "\<not> restart" "ph_OptimizationChecks item = 1" "ph_OptimizationLastResult item = Some c'" "counted_win rs item c'"
    using inv by (auto simp: opt_inv_def)
  then show ?thesis
  proof cases
    case restarted
    have "out = (selected, [])" "item' = item\<lparr>ph_OptimizationBaseline := selected, ph_OptimizationCandidate := desired,
        ph_OptimizationLastResult := Some c, ph_OptimizationChecks := 1\<rparr>"
      using run restarted unfolding defs by simp_all
    then show ?thesis using first [of "item\<lparr>ph_OptimizationBaseline := selected, ph_OptimizationCandidate := desired\<rparr>"] by simp
  next
    case first
    then have "ph_OptimizationCandidate item = desired" by (simp add: restart_def)
    moreover from this have "ph_OptimizationBaseline item = selected" using inv base names(2) by (auto simp: opt_inv_def)
    moreover have "out = (selected, [])" "item' = item\<lparr>ph_OptimizationLastResult := Some c, ph_OptimizationChecks := 1\<rparr>"
      using run first unfolding defs by simp_all
    ultimately show ?thesis using \<open>\<And>item1. _ \<Longrightarrow> _ \<Longrightarrow> opt_inv _ _\<close> by simp
  next
    case second
    have cand: "ph_OptimizationCandidate item = desired" and fresh: "freshComparisonAt now (Some c') p"
      using second(1,3) by (simp_all add: restart_def)
    then have same: "ph_OptimizationBaseline item = selected" using inv base names(2) by (auto simp: opt_inv_def)
    show ?thesis
    proof (cases "oc_At c' = oc_At c \<or> oc_ActiveSampleAt c \<le> oc_ActiveSampleAt c' \<or> oc_CandidateSampleAt c \<le> oc_CandidateSampleAt c'")
      case True
      then have "out = (selected, [])" "item' = item" using run second(1-3) unfolding defs by simp_all
      then show ?thesis using opt_inv_mono [OF inv] by simp
    next
      case False
      then have "item' = clearOptimizationCandidate (item\<lparr>ph_OptimizationLastResult := Some c, ph_OptimizationChecks := 2\<rparr>)"
        using run second(1-3) unfolding defs by simp
      then show ?thesis using False second cand same fresh opt_inv_clear(1) by (auto simp: earlier_win_def)
    qed
  qed
qed

text \<open>The outcomes of one round.\<close>

lemma gate_round_cases:
  obtains
      (left) "or_desired r \<noteq> or_selected r" "\<not> isPlannedOptimization (or_reason r)" "snd (gate_round p r item) = clearOptimizationCandidate item"
    | (cleared) y where "gate_round p r item = ((or_selected r, []), (clearOptimizationCandidate item)\<lparr>ph_OptimizationLastResult := y\<rparr>)"
    | (same) "gate_round p r item = ((or_selected r, []), item)"
    | (nominated) x where "gate_round p r item = ((or_selected r, []), item\<lparr>ph_OptimizationBaseline := or_selected r,
        ph_OptimizationCandidate := or_desired r, ph_OptimizationChecks := 0, ph_OptimizationLastResult := x\<rparr>)"
    | (renewed) x where "ph_OptimizationChecks item = 0" "gate_round p r item = ((or_selected r, []), item\<lparr>ph_OptimizationLastResult := x\<rparr>)"
    | (win) c where "or_comparison r = Some c" "oc_Result c = optimizationWin" "oc_Candidate c = or_desired r"
        "0 < oc_ActiveSampleAt c" "0 < oc_CandidateSampleAt c"
        "ph_OptimizationBaseline item = [] \<or> ph_OptimizationBaseline item = or_selected r"
        "gate_round p r item = confirm_win (or_now r) (or_selected r) (or_desired r) c item p"
proof -
  note g = gate_round_def gatePlannedOptimization_def
  let ?pair = "\<lambda>c. or_desired r \<noteq> or_selected r \<and> isPlannedOptimization (or_reason r) \<and> oc_Result c = optimizationInconclusive \<and>
      0 < oc_CandidateSampleAt c \<and> freshComparisonAt (or_now r) (or_comparison r) p \<and>
      (oc_Reason c = ''pair-incomplete'' \<or> oc_Reason c = ''pair-skew'')"
  have cleared': thesis if "gate_round p r item = ((or_selected r, []), clearOptimizationCandidate item)"
    by (rule cleared [of "ph_OptimizationLastResult item"]) (simp add: that clearOptimizationCandidate_def)
  show thesis
  proof (cases "or_desired r \<noteq> or_selected r \<and> \<not> isPlannedOptimization (or_reason r)")
    case True
    then show thesis by (intro left) (simp_all add: g)
  next
    case on: False
    show thesis
    proof (cases "ph_OptimizationBaseline item \<noteq> [] \<and> ph_OptimizationBaseline item \<noteq> or_selected r")
      case True
      show thesis by (rule cleared') (simp only: g on True if_True if_False simp_thms)
    next
      case base: False
      note start = g on base if_False
      show thesis
      proof (cases "or_comparison r")
        case None
        show thesis
          by (cases "ph_OptimizationCandidate item \<noteq> [] \<and> \<not> freshComparisonAt (or_now r) (ph_OptimizationLastResult item) p";
              (rule cleared' same; simp only: start None option.case if_True if_False simp_thms))
      next
        case (Some c)
        show thesis
        proof (cases "?pair c")
          case True
          note start = start Some option.case True [unfolded Some] if_True
          consider "ph_OptimizationCandidate item \<noteq> or_desired r \<or> ph_OptimizationBaseline item \<noteq> or_selected r \<or>
              \<not> freshComparisonAt (or_now r) (ph_OptimizationLastResult item) p"
            | "\<not> (ph_OptimizationCandidate item \<noteq> or_desired r \<or> ph_OptimizationBaseline item \<noteq> or_selected r \<or>
                \<not> freshComparisonAt (or_now r) (ph_OptimizationLastResult item) p)" by blast
          then show thesis
          proof cases
            case 1
            show thesis by (rule nominated [of "Some c"]) (simp only: start 1 simp_thms)
          next
            case 2
            note start = start 2 if_False
            show thesis
            proof (cases "ph_OptimizationChecks item = 0")
              case True
              show thesis by (rule renewed [OF True, of "Some c"]) (simp only: start True if_True simp_thms)
            next
              case False
              show thesis by (rule same) (simp only: start False if_False simp_thms)
            qed
          qed
        next
          case pair: False
          note start = start Some option.case pair [unfolded Some]
          consider "oc_Result c \<noteq> optimizationWin \<or> oc_Candidate c \<noteq> or_desired r"
            | "\<not> (oc_Result c \<noteq> optimizationWin \<or> oc_Candidate c \<noteq> or_desired r)" "oc_ActiveSampleAt c \<le> 0 \<or> oc_CandidateSampleAt c \<le> 0"
            | "\<not> (oc_Result c \<noteq> optimizationWin \<or> oc_Candidate c \<noteq> or_desired r)" "\<not> (oc_ActiveSampleAt c \<le> 0 \<or> oc_CandidateSampleAt c \<le> 0)"
            by blast
          then show thesis
          proof cases
            case 1
            show thesis by (rule cleared [of "Some c"]) (simp only: start 1 if_True)
          next
            case 2
            show thesis by (rule same) (simp only: start 2 if_True if_False)
          next
            case 3
            have "gate_round p r item = confirm_win (or_now r) (or_selected r) (or_desired r) c item p"
              by (simp only: start 3 if_False)
            then show thesis using 3 base Some by (intro win [of c]) auto
          qed
        qed
      qed
    qed
  qed
qed

lemma gate_round_inv:
  assumes inv: "opt_inv rs item" and names: "or_selected r \<noteq> []" "or_desired r \<noteq> []"
  shows "opt_inv (rs @ [r]) (snd (gate_round p r item))"
    "isPlannedOptimization (or_reason r) \<Longrightarrow> fst (fst (gate_round p r item)) \<noteq> or_selected r \<Longrightarrow>
     \<exists>c. or_comparison r = Some c \<and> fst (fst (gate_round p r item)) = or_desired r \<and> oc_Result c = optimizationWin \<and>
       oc_Candidate c = or_desired r \<and> earlier_win rs item (or_now r) (or_selected r) (or_desired r) c p"
proof -
  have kept: "opt_inv (rs @ [r]) item" using opt_inv_mono [OF inv] .
  have "opt_inv (rs @ [r]) (snd (gate_round p r item)) \<and>
    (isPlannedOptimization (or_reason r) \<longrightarrow> fst (fst (gate_round p r item)) \<noteq> or_selected r \<longrightarrow>
     (\<exists>c. or_comparison r = Some c \<and> fst (fst (gate_round p r item)) = or_desired r \<and> oc_Result c = optimizationWin \<and>
       oc_Candidate c = or_desired r \<and> earlier_win rs item (or_now r) (or_selected r) (or_desired r) c p))"
  proof (cases p r item rule: gate_round_cases)
    case (win c)
    obtain out item' where run: "confirm_win (or_now r) (or_selected r) (or_desired r) c item p = (out, item')" by fastforce
    have "fst out = or_selected r \<or> fst out = or_desired r"
      using run by (auto simp: confirm_win_def Let_def split: if_splits)
    then show ?thesis
      using confirm_win_cases [OF inv win(6) names win(2-5) win(1) refl refl run] win run by auto
  qed (use opt_inv_clear kept inv names in \<open>auto simp: opt_inv_def\<close>)
  then show "opt_inv (rs @ [r]) (snd (gate_round p r item))"
    "isPlannedOptimization (or_reason r) \<Longrightarrow> fst (fst (gate_round p r item)) \<noteq> or_selected r \<Longrightarrow>
     \<exists>c. or_comparison r = Some c \<and> fst (fst (gate_round p r item)) = or_desired r \<and> oc_Result c = optimizationWin \<and>
       oc_Candidate c = or_desired r \<and> earlier_win rs item (or_now r) (or_selected r) (or_desired r) c p"
    by blast+
qed

lemma gate_rounds_inv:
  "opt_inv qs item \<Longrightarrow> list_all (\<lambda>r. or_selected r \<noteq> [] \<and> or_desired r \<noteq> []) rs \<Longrightarrow> opt_inv (qs @ rs) (gate_rounds p rs item)"
proof (induction rs arbitrary: qs item)
  case (Cons r rs)
  then show ?case using Cons.IH [OF gate_round_inv(1) [OF Cons.prems(1), of r p]] by simp
qed simp

section \<open>What a win means\<close>

lemma freshOptimizationWin_sound:
  assumes "freshOptimizationWin selected candidate measured p" and "candidate \<noteq> []" "candidate \<noteq> selected"
  shows "\<exists>x y a d. measured selected = Some x \<and> measured candidate = Some y \<and> pe_OK x \<and> pe_OK y \<and>
    pe_DelayMS x = Some a \<and> pe_DelayMS y = Some d \<and> 0 < d \<and> ep_improvement p < a - d"
proof -
  obtain x y where xy: "measured selected = Some x" "measured candidate = Some y" "pe_OK x" "pe_OK y"
      "pe_DelayMS x \<noteq> None" "pe_DelayMS y \<noteq> None"
      "meaningfullyBetter selected [candidate] ((\<lambda>_. None)(selected := pe_DelayMS x, candidate := pe_DelayMS y)) p = candidate"
    using assms(1) by (auto simp: freshOptimizationWin_def split: option.splits if_splits)
  show ?thesis using meaningfullyBetter_sound [OF xy(7) assms(2)] xy assms(3) by simp
qed

lemma compareOptimization_win:
  assumes "oc_Result (compareOptimization now selected candidate measured q a p) = optimizationWin"
    and "candidate \<noteq> []" "candidate \<noteq> selected"
  defines "c \<equiv> compareOptimization now selected candidate measured q a p"
  shows "q \<and> a \<and> oc_Candidate c = candidate \<and> oc_At c = now div second * second \<and>
    (\<exists>m d. oc_ActiveDelayMS c = Some m \<and> oc_CandidateDelayMS c = Some d \<and> 0 < d \<and> ep_improvement p < m - d)"
proof -
  have "q" "a" "freshOptimizationWin selected candidate measured p"
    using assms(1) by (auto simp: compareOptimization_def Let_def split: if_splits)
  then show ?thesis
    using freshOptimizationWin_sound [OF _ assms(2,3), of measured p]
    by (auto simp: c_def compareOptimization_def Let_def)
qed

lemma regular_win:
  assumes "regularOptimizationComparison now selected candidate measured item quality available p = Some c"
    and "oc_Result c = optimizationWin" and "candidate \<noteq> []" "candidate \<noteq> selected"
  shows "quality \<and> available \<and> oc_Candidate c = candidate \<and> oc_At c = now div second * second \<and>
    \<bar>oc_CandidateSampleAt c - oc_ActiveSampleAt c\<bar> \<le> 10 \<and>
    (\<exists>m d. oc_ActiveDelayMS c = Some m \<and> oc_CandidateDelayMS c = Some d \<and> 0 < d \<and> ep_improvement p < m - d)"
proof -
  obtain evidence where e: "measured candidate = Some evidence"
    using assms(1) by (auto simp: regularOptimizationComparison_def split: option.splits)
  obtain pair activeAt complete where t: "comparison_pair now selected candidate measured evidence item = (pair, activeAt, complete)"
    by (metis prod_cases3)
  let ?compare = "\<lambda>pair. compareOptimization now selected candidate pair quality available p"
  let ?at = "qualityObservationAt now evidence"
  let ?pair = "with_medians (sampleMedians (ph_Samples item) [selected, candidate]) pair"
  have c: "\<bar>?at - activeAt\<bar> \<le> 10" "c = (?compare ?pair)\<lparr>oc_ActiveSampleAt := activeAt, oc_CandidateSampleAt := ?at\<rparr>"
    using assms(1,2) e t by (auto simp: regularOptimizationComparison_def Let_def split: if_splits)
  then have "oc_Result (?compare ?pair) = optimizationWin" using assms(2) by simp
  note w = compareOptimization_win [OF this assms(3,4)]
  define k where "k = ?compare ?pair"
  show ?thesis using w c(1) unfolding c(2) k_def [symmetric] by simp
qed

section \<open>Pool and published comparisons\<close>

lemma comparison_loop_total:
  assumes "\<And>c. c \<in> set cs \<Longrightarrow> comparison_qualified now item p c True \<Longrightarrow> last_sample item c \<noteq> None \<and> medians c \<noteq> None"
    and "medians active \<noteq> None"
  shows "comparison_loop now item p active baseline medians cs result \<noteq> None"
  using assms(1)
proof (induction cs arbitrary: result)
  case (Cons c cs)
  have ih: "comparison_loop now item p active baseline medians cs result \<noteq> None" for result
    using Cons.IH [of result] Cons.prems by simp
  show ?case
  proof (cases "c = active \<or> \<not> comparison_qualified now item p c True")
    case False
    then obtain x y z where "last_sample item c = Some x" "medians c = Some y" "medians active = Some z"
      using Cons.prems [of c] assms(2) by auto
    then show ?thesis using False ih by simp
  qed (use ih in auto)
qed simp

lemma qualified_has_median:
  assumes "comparison_qualified now item p c reserve" and "c \<in> set candidates"
  shows "last_sample item c \<noteq> None \<and> sampleMedians (ph_Samples item) candidates c \<noteq> None"
proof -
  let ?xs = "ph_Samples item c"
  have xs: "?xs \<noteq> []" "hs_OK (last ?xs)" "hs_DelayMS (last ?xs) \<noteq> None"
    using assms(1) by (auto simp: comparison_qualified_def qualitySampleAge_def positive_delay_def Let_def split: if_splits option.splits)
  then have "good_delays ?xs \<noteq> []"
    by (auto simp: good_delays_def List.map_filter_def filter_empty_conv intro!: bexI [of _ "last ?xs"])
  then show ?thesis using xs(1) assms(2) by (simp add: last_sample_def sampleMedians_def medianInt_def)
qed

lemma currentLatencyComparisons_total: "currentLatencyComparisons now item candidates p \<noteq> None"
proof (cases "ph_RuntimeConfirmed item \<and> contains candidates (ph_RuntimeSelected item) \<and>
    comparison_qualified now item p (ph_RuntimeSelected item) False")
  case True
  let ?a = "ph_RuntimeSelected item"
  note a = qualified_has_median [OF conjunct2 [OF conjunct2 [OF True]] conjunct1 [OF conjunct2 [OF True]]]
  then obtain b where b: "last_sample item ?a = Some b" by blast
  have "comparison_loop now item p ?a b (sampleMedians (ph_Samples item) candidates) candidates Map.empty \<noteq> None"
    using a qualified_has_median by (intro comparison_loop_total) blast+
  then obtain m where "comparison_loop now item p ?a b (sampleMedians (ph_Samples item) candidates) candidates Map.empty = Some m" by blast
  then show ?thesis using b by (cases "hs_ObservedAt b \<le> 0") (auto simp: currentLatencyComparisons_def Let_def simp del: not_None_eq)
qed (auto simp: currentLatencyComparisons_def Let_def)

lemma stable_reserve_sample:
  assumes "stable_reserve now selected medians quality available item p d"
  shows "\<exists>earlier sample m. ph_Samples item d = earlier @ [sample] \<and> hs_OK sample \<and> hs_DelayMS sample = Some m \<and> 0 < m \<and> 0 < hs_At sample \<and>
    hs_At sample \<le> unix now \<and> unix now - hs_At sample \<le> of_int (min (ep_backup p) (max (ep_active p * 2) 120))"
proof (cases "ph_Samples item d" rule: rev_cases)
  case Nil
  then show ?thesis using assms by (simp add: stable_reserve_def qualitySampleAge_def)
next
  case (snoc earlier sample)
  then show ?thesis
    using assms by (auto simp: stable_reserve_def qualitySampleAge_def soft_window_def positive_delay_def Let_def split: option.splits)
qed

lemma shortlist_loop_take:
  "int (length result) \<le> limit \<Longrightarrow> shortlist_loop limit selected result ranked = take (nat limit) (result @ filter (\<lambda>c. c \<noteq> selected) ranked)"
  by (induction limit selected result ranked rule: shortlist_loop.induct) auto

section \<open>Properties\<close>


definition fast_settings :: effectivePolicySettings where
  "fast_settings = policySettings \<lparr>hp_SwitchImprovementMS = 20, hp_ActiveCheckSeconds = 30, hp_ProbeBatchSize = 2, hp_ActiveLivenessSeconds = 3,
     hp_CandidateServiceIDs = [], hp_CandidateServiceAccess = (\<lambda>_. [])\<rparr> ''best''"

lemma fast_settings_eq:
  "fast_settings = \<lparr>ep_mode = ''best'', ep_failureThreshold = 3, ep_recoveryThreshold = 3, ep_improvement = 20, ep_active = 30,
     ep_backup = 120, ep_shortlist = 2, ep_batch = 2, ep_liveness = 3, ep_failureRetry = 2, ep_blockRecovery = 15\<rparr>"
  by (simp add: fast_settings_def policySettings_def defaultInt_def)

definition three_paths :: policyHealthState where
  "three_paths = newPolicyHealthState\<lparr>ph_AvailabilityOK := (\<lambda>_. True), ph_QualityOK := (\<lambda>_. True), ph_Recoveries := (\<lambda>_. 3),
     ph_MedianDelayMS := [''A'' \<mapsto> 90, ''B'' \<mapsto> 40, ''C'' \<mapsto> 30]\<rparr>"


text \<open>C5: The desired selection is safe. When the path is the block, is no candidate or has reached the failure threshold, the selection
  goes to the best ranked other candidate that has just answered without a local failure, and to the block exactly when there is none. A
  usable path is left only for another candidate that is available, of good quality, recovered, without availability failures and whose
  latest sample is a measured success within the window, and only because the path is degraded, the candidate has a higher priority in
  priority mode, or, in another mode, its median delay is lower by more than the configured improvement, the latest samples of both do not refute it, and
  it was measured now or is the candidate that is being confirmed.\<close>

theorem desired_selection_safe:
  assumes "selectDesired now mode selected candidates groups medians measured quality available item p = (d, r)"
    and "''block'' \<notin> set candidates"
  defines "values \<equiv> filter (\<lambda>c. c \<noteq> selected \<and> (\<exists>e. measured c = Some e \<and> pe_OK e \<and> \<not> pe_LocalFailure e)) candidates"
  shows "if selected = ''block'' \<or> selected \<notin> set candidates \<or> ep_failureThreshold p \<le> ph_AvailabilityFailures item selected
    then (if values = [] then d = ''block''
      else d \<in> set values \<and> (\<forall>c \<in> set values.
        rank_key mode groups (emergencyRankingDelays now values measured item p) (positions values) d \<le>
        rank_key mode groups (emergencyRankingDelays now values measured item p) (positions values) c))
    else d = selected \<or> d \<in> set candidates \<and> quality d \<and> available d \<and>
      ep_recoveryThreshold p \<le> ph_Recoveries item d \<and> medians d \<noteq> None \<and> ph_AvailabilityFailures item d = 0 \<and>
      (\<exists>earlier sample m. ph_Samples item d = earlier @ [sample] \<and> hs_OK sample \<and> hs_DelayMS sample = Some m \<and> 0 < m \<and> 0 < hs_At sample \<and>
         hs_At sample \<le> unix now \<and> unix now - hs_At sample \<le> of_int (min (ep_backup p) (max (ep_active p * 2) 120))) \<and>
      (r = ''active-degraded'' \<and> ep_failureThreshold p \<le> ph_Failures item selected \<or>
       r = ''higher-priority-recovered'' \<and> mode = ''priority'' \<and>
         (groups d < groups selected \<or> groups d = groups selected \<and> candidateIndex candidates d < candidateIndex candidates selected) \<or>
       r = ''meaningfully-faster'' \<and> mode \<noteq> ''priority'' \<and>
         (\<exists>a m. medians selected = Some a \<and> medians d = Some m \<and> ep_improvement p < a - m) \<and>
         (ph_Samples item selected = [] \<or> (\<exists>a m. hs_DelayMS (last (ph_Samples item selected)) = Some a \<and>
            hs_DelayMS (last (ph_Samples item d)) = Some m \<and> ep_improvement p < a - m)) \<and>
         (d = ph_OptimizationCandidate item \<and> 0 < ph_OptimizationChecks item \<or>
          (\<exists>e m. measured d = Some e \<and> pe_OK e \<and> pe_DelayMS e = Some m \<and> \<not> pe_QualityUnmeasured e)))"
proof -
  have fresh: "fresh_evidence measured c \<longleftrightarrow> (\<exists>e. measured c = Some e \<and> pe_OK e \<and> \<not> pe_LocalFailure e)" for c
    by (simp add: fresh_evidence_def split: option.split)
  have vals: "values = filter (\<lambda>c. c \<noteq> selected \<and> fresh_evidence measured c) candidates" unfolding values_def fresh ..
  show ?thesis
  proof (cases "selected_failed selected candidates item p")
    case True
    then show ?thesis using selectDesired_failed [OF assms(1) True assms(2)] unfolding vals by (simp add: selected_failed_def)
  next
    case False
    show ?thesis
    proof (cases "d = selected")
      case True
      then show ?thesis using False by (simp add: selected_failed_def)
    next
      case other: False
      note usable = selectDesired_usable [OF assms(1) False other]
      then have reserve: "stable_reserve now selected medians quality available item p d" by blast
      from stable_reserve_sample [OF this] have sample: "\<exists>earlier sample m. ph_Samples item d = earlier @ [sample] \<and> hs_OK sample \<and>
          hs_DelayMS sample = Some m \<and> 0 < m \<and> 0 < hs_At sample \<and> hs_At sample \<le> unix now \<and>
          unix now - hs_At sample \<le> of_int (min (ep_backup p) (max (ep_active p * 2) 120))" .
      then have some: "ph_Samples item d \<noteq> []" by auto
      have faster: "(ph_Samples item selected = [] \<or> (\<exists>a m. hs_DelayMS (last (ph_Samples item selected)) = Some a \<and>
            hs_DelayMS (last (ph_Samples item d)) = Some m \<and> ep_improvement p < a - m)) \<and>
         (d = ph_OptimizationCandidate item \<and> 0 < ph_OptimizationChecks item \<or>
          (\<exists>e m. measured d = Some e \<and> pe_OK e \<and> pe_DelayMS e = Some m \<and> \<not> pe_QualityUnmeasured e))"
        if "measured_stable measured item p selected d"
        using that some by (auto simp: measured_stable_def pair_supports_def Let_def split: option.splits if_splits)
      have plain: "quality d" "available d" "ep_recoveryThreshold p \<le> ph_Recoveries item d" "medians d \<noteq> None" "ph_AvailabilityFailures item d = 0"
        using reserve unfolding stable_reserve_def by blast+
      have neg: "\<not> (selected = ''block'' \<or> selected \<notin> set candidates \<or> ep_failureThreshold p \<le> ph_AvailabilityFailures item selected)"
        using False by (simp add: selected_failed_def)
      have member: "d \<in> set candidates" using usable by blast
      have reasons: "r = ''active-degraded'' \<and> ep_failureThreshold p \<le> ph_Failures item selected \<or>
         r = ''higher-priority-recovered'' \<and> mode = ''priority'' \<and> higher_priority groups candidates selected d \<or>
         r = ''meaningfully-faster'' \<and> mode \<noteq> ''priority'' \<and> measured_stable measured item p selected d \<and>
           (\<exists>a m. medians selected = Some a \<and> medians d = Some m \<and> ep_improvement p < a - m)"
        using usable by blast
      show ?thesis
        unfolding if_not_P [OF neg]
      proof (rule disjI2, intro conjI)
        show "d \<in> set candidates" by (rule member)
        show "r = ''active-degraded'' \<and> ep_failureThreshold p \<le> ph_Failures item selected \<or>
         r = ''higher-priority-recovered'' \<and> mode = ''priority'' \<and>
           (groups d < groups selected \<or> groups d = groups selected \<and> candidateIndex candidates d < candidateIndex candidates selected) \<or>
         r = ''meaningfully-faster'' \<and> mode \<noteq> ''priority'' \<and>
           (\<exists>a m. medians selected = Some a \<and> medians d = Some m \<and> ep_improvement p < a - m) \<and>
           (ph_Samples item selected = [] \<or> (\<exists>a m. hs_DelayMS (last (ph_Samples item selected)) = Some a \<and>
              hs_DelayMS (last (ph_Samples item d)) = Some m \<and> ep_improvement p < a - m)) \<and>
           (d = ph_OptimizationCandidate item \<and> 0 < ph_OptimizationChecks item \<or>
            (\<exists>e m. measured d = Some e \<and> pe_OK e \<and> pe_DelayMS e = Some m \<and> \<not> pe_QualityUnmeasured e))"
          using reasons
        proof (elim disjE)
          assume "r = ''meaningfully-faster'' \<and> mode \<noteq> ''priority'' \<and> measured_stable measured item p selected d \<and>
            (\<exists>a m. medians selected = Some a \<and> medians d = Some m \<and> ep_improvement p < a - m)"
          then show ?thesis using faster by simp
        qed (simp_all add: higher_priority_def)
      qed (rule sample plain)+
    qed
  qed
qed

definition answered :: probeEvidence where
  "answered = no_evidence\<lparr>pe_OK := True, pe_DelayMS := Some 35\<rparr>"

theorem desired_selection_safe_witness:
  "fst (selectDesired 0 ''best'' ''A'' [''A'', ''B''] (\<lambda>_. 0) Map.empty [''B'' \<mapsto> answered] (\<lambda>_. False) (\<lambda>_. False)
     (newPolicyHealthState\<lparr>ph_AvailabilityFailures := (\<lambda>_. 3)\<rparr>) fast_settings) = ''B''"
proof -
  let ?item = "newPolicyHealthState\<lparr>ph_AvailabilityFailures := (\<lambda>_. 3)\<rparr>"
  have f: "selected_failed ''A'' [''A'', ''B''] ?item fast_settings" by (simp add: selected_failed_def fast_settings_eq)
  have v: "filter (\<lambda>c. c \<noteq> ''A'' \<and> (\<exists>e. [''B'' \<mapsto> answered] c = Some e \<and> pe_OK e \<and> \<not> pe_LocalFailure e)) [''A'', ''B''] = [''B'']"
    by (simp add: answered_def no_evidence_def)
  obtain d r where d: "selectDesired 0 ''best'' ''A'' [''A'', ''B''] (\<lambda>_. 0) Map.empty [''B'' \<mapsto> answered] (\<lambda>_. False) (\<lambda>_. False)
      ?item fast_settings = (d, r)" by fastforce
  have "d = ''B''" using desired_selection_safe [OF d, unfolded v] f by (simp add: selected_failed_def)
  then show ?thesis by (simp only: d fst_conv)
qed

text \<open>C6: A planned switch needs two independent wins. Whatever rounds came before, when the gate lets a planned switch
  to a faster path through, the current comparison is a win of that path, and an earlier round, with the same
  active path and still fresh, had also compared them with a win, with strictly older samples on both sides.\<close>

theorem planned_switch_needs_two_wins:
  assumes "ph_OptimizationCandidate item = []" "ph_OptimizationChecks item = 0"
    and "list_all (\<lambda>r. or_selected r \<noteq> [] \<and> or_desired r \<noteq> []) (rs @ [r])"
    and "isPlannedOptimization (or_reason r)"
    and "fst (fst (gate_round p r (gate_rounds p rs item))) \<noteq> or_selected r"
  shows "\<exists>c c' r'. fst (fst (gate_round p r (gate_rounds p rs item))) = or_desired r \<and>
    or_comparison r = Some c \<and> oc_Result c = optimizationWin \<and> oc_Candidate c = or_desired r \<and>
    r' \<in> set rs \<and> or_selected r' = or_selected r \<and> or_desired r' = or_desired r \<and>
    or_comparison r' = Some c' \<and> oc_Result c' = optimizationWin \<and> oc_Candidate c' = or_desired r \<and>
    freshComparisonAt (or_now r) (Some c') p \<and> oc_At c' \<noteq> oc_At c \<and>
    0 < oc_ActiveSampleAt c' \<and> oc_ActiveSampleAt c' < oc_ActiveSampleAt c \<and>
    0 < oc_CandidateSampleAt c' \<and> oc_CandidateSampleAt c' < oc_CandidateSampleAt c"
proof -
  have "opt_inv [] item" using assms(1,2) by (simp add: opt_inv_def)
  from gate_rounds_inv [OF this, of rs p] have inv: "opt_inv rs (gate_rounds p rs item)" using assms(3) by simp
  from gate_round_inv(2) [OF inv _ _ assms(4,5)] obtain c where c:
    "or_comparison r = Some c" "fst (fst (gate_round p r (gate_rounds p rs item))) = or_desired r" "oc_Result c = optimizationWin"
    "oc_Candidate c = or_desired r" "earlier_win rs (gate_rounds p rs item) (or_now r) (or_selected r) (or_desired r) c p"
    using assms(3) by auto
  from c(5) obtain c' where c': "freshComparisonAt (or_now r) (Some c') p" "counted_win rs (gate_rounds p rs item) c'"
      "ph_OptimizationBaseline (gate_rounds p rs item) = or_selected r" "ph_OptimizationCandidate (gate_rounds p rs item) = or_desired r"
      "oc_At c' \<noteq> oc_At c" "oc_ActiveSampleAt c' < oc_ActiveSampleAt c" "oc_CandidateSampleAt c' < oc_CandidateSampleAt c"
    by (auto simp: earlier_win_def)
  from c'(2) obtain r' where "r' \<in> set rs" "or_comparison r' = Some c'" "or_desired r' = or_desired r" "or_selected r' = or_selected r"
      "oc_Candidate c' = or_desired r" "oc_Result c' = optimizationWin" "0 < oc_ActiveSampleAt c'" "0 < oc_CandidateSampleAt c'"
    by (auto simp: counted_win_def c')
  then show ?thesis using c c' by (intro exI [of _ c] exI [of _ c'] exI [of _ r']) simp
qed

definition win_at :: "int \<Rightarrow> optimizationComparison" where
  "win_at t = \<lparr>oc_ActiveSampleAt = of_int t, oc_CandidateSampleAt = of_int t, oc_ActiveResponseMS = None, oc_CandidateResponseMS = None,
     oc_Measurement = ''gstatic-head-v1'', oc_ImprovementMS = 20, oc_At = t * second, oc_Candidate = ''B'', oc_Result = ''win'',
     oc_Reason = ''better'', oc_ActiveDelayMS = Some 90, oc_CandidateDelayMS = Some 40\<rparr>"

definition win_round :: "int \<Rightarrow> opt_round" where
  "win_round t = \<lparr>or_now = t * second, or_selected = ''A'', or_desired = ''B'', or_reason = ''meaningfully-faster'',
     or_comparison = Some (win_at t)\<rparr>"

theorem planned_switch_needs_two_wins_witness:
  "fst (fst (gate_round fast_settings (win_round 1060) (gate_rounds fast_settings [win_round 1000] newPolicyHealthState))) = ''B'' \<and>
   (\<exists>c' r'. r' \<in> set [win_round 1000] \<and> or_comparison r' = Some c' \<and> oc_Result c' = ''win'')"
proof -
  have switch: "fst (fst (gate_round fast_settings (win_round 1060) (gate_rounds fast_settings [win_round 1000] newPolicyHealthState))) = ''B''"
    by (simp add: gate_round_def gatePlannedOptimization_def confirm_win_def win_round_def win_at_def fast_settings_eq
        newPolicyHealthState_def isPlannedOptimization_def freshComparisonAt_def Let_def)
  have "\<exists>c c' r'. fst (fst (gate_round fast_settings (win_round 1060) (gate_rounds fast_settings [win_round 1000] newPolicyHealthState))) =
      or_desired (win_round 1060) \<and> or_comparison (win_round 1060) = Some c \<and> oc_Result c = optimizationWin \<and> oc_Candidate c = or_desired (win_round 1060) \<and>
      r' \<in> set [win_round 1000] \<and> or_selected r' = or_selected (win_round 1060) \<and> or_desired r' = or_desired (win_round 1060) \<and>
      or_comparison r' = Some c' \<and> oc_Result c' = optimizationWin \<and> oc_Candidate c' = or_desired (win_round 1060) \<and>
      freshComparisonAt (or_now (win_round 1060)) (Some c') fast_settings \<and> oc_At c' \<noteq> oc_At c \<and>
      0 < oc_ActiveSampleAt c' \<and> oc_ActiveSampleAt c' < oc_ActiveSampleAt c \<and>
      0 < oc_CandidateSampleAt c' \<and> oc_CandidateSampleAt c' < oc_CandidateSampleAt c"
    using switch by (intro planned_switch_needs_two_wins)
      (simp_all add: newPolicyHealthState_def win_round_def isPlannedOptimization_def)
  then show ?thesis using switch by blast
qed

text \<open>C32: A win is real: the samples of the two paths were taken within ten seconds of each other, the reserve is of good
  quality and available, and the delays compared differ by more than the configured improvement.\<close>

theorem comparison_win_sound:
  assumes "regularOptimizationComparison now selected candidate measured item quality available p = Some c"
    and "oc_Result c = optimizationWin" and "candidate \<noteq> []" "candidate \<noteq> selected"
  shows "quality \<and> available \<and> oc_Candidate c = candidate \<and> oc_At c = now div second * second \<and>
    \<bar>oc_CandidateSampleAt c - oc_ActiveSampleAt c\<bar> \<le> 10 \<and>
    (\<exists>m d. oc_ActiveDelayMS c = Some m \<and> oc_CandidateDelayMS c = Some d \<and> 0 < d \<and> ep_improvement p < m - d)"
  by (rule regular_win [OF assms])

theorem comparison_win_sound_witness:
  "\<exists>c. regularOptimizationComparison (1000 * second) ''A'' ''B'' [''A'' \<mapsto> answered\<lparr>pe_DelayMS := Some 90\<rparr>, ''B'' \<mapsto> answered]
     newPolicyHealthState True True fast_settings = Some c \<and> oc_Result c = ''win'' \<and> oc_At c = 1000 * second"
proof -
  let ?c = "the (regularOptimizationComparison (1000 * second) ''A'' ''B'' [''A'' \<mapsto> answered\<lparr>pe_DelayMS := Some 90\<rparr>, ''B'' \<mapsto> answered]
     newPolicyHealthState True True fast_settings)"
  have r: "regularOptimizationComparison (1000 * second) ''A'' ''B'' [''A'' \<mapsto> answered\<lparr>pe_DelayMS := Some 90\<rparr>, ''B'' \<mapsto> answered]
     newPolicyHealthState True True fast_settings = Some ?c" and win: "oc_Result ?c = ''win''"
    by (simp_all add: regularOptimizationComparison_def comparison_pair_def compareOptimization_def freshOptimizationWin_def
        meaningfullyBetter_def stable_sort_def with_medians_def sampleMedians_def good_delays_def List.map_filter_def
        answered_def no_evidence_def newPolicyHealthState_def fast_settings_eq
        qualityObservationAt_def probeObservationTime_def Let_def)
  show ?thesis using comparison_win_sound [OF r win] r win by auto
qed

end
