(* ===== verification/Health_Schedule.thy ===== *)
theory Health_Schedule
  imports Health_Selection
begin

text \<open>
  Which paths are probed next: the rotation of ordinary probes in \<^verbatim>\<open>internal/agent/health_schedule.go\<close>,
  the pending comparison of \<^verbatim>\<open>internal/agent/health_pair.go\<close>, the emergency batches of
  \<^verbatim>\<open>internal/agent/health_failover.go\<close> and the outage batches and timer of \<^verbatim>\<open>internal/agent/health.go\<close>.
\<close>

section \<open>Oldest first\<close>

text \<open>
  The inner loop of the rotations: the first eligible candidate that no other precedes. The empty
  name stands for none, as in the code.
\<close>

fun oldest_loop :: "(string \<Rightarrow> bool) \<Rightarrow> (string \<Rightarrow> string \<Rightarrow> bool) \<Rightarrow> string list \<Rightarrow> string \<Rightarrow> string" where
  "oldest_loop eligible older [] oldest = oldest"
| "oldest_loop eligible older (c # cs) oldest =
     (if \<not> eligible c then oldest_loop eligible older cs oldest
      else if oldest = [] \<or> older c oldest then oldest_loop eligible older cs c
      else oldest_loop eligible older cs oldest)"

text \<open>The outer loop: add the oldest until the batch is full or nobody is left.\<close>

function fill_oldest :: "int \<Rightarrow> (string list \<Rightarrow> string) \<Rightarrow> string list \<Rightarrow> string list" where
  "fill_oldest limit pick result =
     (if int (length result) < limit then
        if pick result = [] then result else fill_oldest limit pick (result @ [pick result])
      else result)"
  by pat_completeness auto
termination
  by (relation "measure (\<lambda>(limit, pick, result). nat limit - length result)") auto

declare fill_oldest.simps [simp del]

definition older_probe :: "policyHealthState \<Rightarrow> string \<Rightarrow> string \<Rightarrow> bool" where
  "older_probe item c d \<longleftrightarrow> ph_LastProbeAt item c < ph_LastProbeAt item d"

lemma oldest_loop_none:
  "[] \<notin> set cs \<Longrightarrow> oldest_loop eligible older cs oldest = [] \<longleftrightarrow> oldest = [] \<and> filter eligible cs = []"
  by (induction cs arbitrary: oldest) auto

lemma oldest_loop_mem:
  "oldest_loop eligible older cs oldest = oldest \<or>
   oldest_loop eligible older cs oldest \<in> set cs \<and> eligible (oldest_loop eligible older cs oldest)"
proof (induction cs arbitrary: oldest)
  case (Cons c cs)
  show ?case using Cons.IH [of c] Cons.IH [of oldest] by (cases "eligible c") auto
qed simp

text \<open>With a comparison by a key, nobody eligible is strictly older than the one picked.\<close>

lemma oldest_loop_least:
  fixes key :: "string \<Rightarrow> 'a::linorder"
  assumes "\<And>x y. older x y \<longleftrightarrow> key x < key y"
  shows "[] \<notin> set cs \<Longrightarrow> (oldest \<noteq> [] \<longrightarrow> key (oldest_loop eligible older cs oldest) \<le> key oldest) \<and>
    (\<forall>c \<in> set cs. eligible c \<longrightarrow> key (oldest_loop eligible older cs oldest) \<le> key c)"
proof (induction cs arbitrary: oldest)
  case (Cons c cs)
  have ne: "c \<noteq> []" "[] \<notin> set cs" using Cons.prems by auto
  show ?case
  proof (cases "eligible c \<and> (oldest = [] \<or> older c oldest)")
    case True
    then show ?thesis using Cons.IH [OF ne(2), of c] ne(1) assms by (auto intro: order_trans less_imp_le)
  next
    case False
    then show ?thesis using Cons.IH [OF ne(2), of oldest] assms by (auto simp: not_less intro: order_trans)
  qed
qed simp

text \<open>The filled batch extends the start, and each addition is what was picked when it was added.\<close>

lemma fill_oldest_extends:
  "\<exists>added. fill_oldest limit pick result = result @ added \<and>
     (\<forall>i < length added. added ! i = pick (result @ take i added) \<and> added ! i \<noteq> [])"
proof (induction limit pick result rule: fill_oldest.induct)
  case (1 limit pick result)
  show ?case
  proof (cases "int (length result) < limit \<and> pick result \<noteq> []")
    case True
    then obtain added where ih: "fill_oldest limit pick (result @ [pick result]) = (result @ [pick result]) @ added"
        "\<forall>i < length added. added ! i = pick ((result @ [pick result]) @ take i added) \<and> added ! i \<noteq> []"
      using "1.IH" by blast
    have "fill_oldest limit pick result = result @ (pick result # added)"
      using True ih(1) by (subst fill_oldest.simps) simp
    moreover have "(pick result # added) ! i = pick (result @ take i (pick result # added)) \<and> (pick result # added) ! i \<noteq> []"
      if "i < length (pick result # added)" for i
      using that ih(2) True by (cases i) auto
    ultimately show ?thesis by blast
  next
    case False
    then show ?thesis by (subst fill_oldest.simps) auto
  qed
qed

lemma fill_oldest_stops: "limit \<le> int (length (fill_oldest limit pick result)) \<or> pick (fill_oldest limit pick result) = []"
proof (induction limit pick result rule: fill_oldest.induct)
  case (1 limit pick result)
  show ?case
  proof (cases "int (length result) < limit \<and> pick result \<noteq> []")
    case True
    then have "fill_oldest limit pick result = fill_oldest limit pick (result @ [pick result])"
      by (subst fill_oldest.simps) simp
    then show ?thesis using "1.IH" True by simp
  next
    case False
    then have "fill_oldest limit pick result = result" by (subst fill_oldest.simps) auto
    then show ?thesis using False by auto
  qed
qed

lemma fill_oldest_length: "int (length result) \<le> limit \<Longrightarrow> int (length (fill_oldest limit pick result)) \<le> limit"
proof (induction limit pick result rule: fill_oldest.induct)
  case (1 limit pick result)
  then show ?case by (subst fill_oldest.simps) auto
qed

lemma fill_oldest_distinct:
  assumes "\<And>r. pick r \<noteq> [] \<Longrightarrow> pick r \<notin> set r" and "distinct result"
  shows "distinct (fill_oldest limit pick result)"
  using assms
proof (induction limit pick result rule: fill_oldest.induct)
  case (1 limit pick result)
  show ?case
  proof (cases "int (length result) < limit \<and> pick result \<noteq> []")
    case True
    then have "distinct (result @ [pick result])" using "1.prems" by simp
    then show ?thesis using "1.IH" "1.prems"(1) True by (subst fill_oldest.simps) simp
  next
    case False
    then show ?thesis using "1.prems"(2) by (subst fill_oldest.simps) auto
  qed
qed

lemma fill_oldest_set:
  assumes "\<And>r. pick r \<noteq> [] \<Longrightarrow> pick r \<in> C"
  shows "set result \<subseteq> set (fill_oldest limit pick result)" "set (fill_oldest limit pick result) \<subseteq> set result \<union> C"
proof -
  obtain added where e: "fill_oldest limit pick result = result @ added"
      "\<forall>i < length added. added ! i = pick (result @ take i added) \<and> added ! i \<noteq> []"
    using fill_oldest_extends by blast
  have "set added \<subseteq> C" using e(2) assms by (metis in_set_conv_nth subsetI)
  then show "set result \<subseteq> set (fill_oldest limit pick result)" "set (fill_oldest limit pick result) \<subseteq> set result \<union> C"
    using e(1) by auto
qed

section \<open>Ordinary probes\<close>

definition due :: "nanos \<Rightarrow> policyHealthState \<Rightarrow> effectivePolicySettings \<Rightarrow> string \<Rightarrow> bool" where
  "due now item p c \<longleftrightarrow> ph_LastProbeAt item c = 0 \<or> of_int (ep_active p) \<le> unix now - ph_LastProbeAt item c"

definition pendingOptimizationPair ::
  "nanos \<Rightarrow> string \<Rightarrow> string list \<Rightarrow> policyHealthState \<Rightarrow> effectivePolicySettings \<Rightarrow> optimizationComparison option" where
  "pendingOptimizationPair now selected candidates item p =
     (let candidate = ph_OptimizationCandidate item; previous = ph_OptimizationLastResult item in
      if ep_mode p \<noteq> ''best'' \<or> ep_batch p < 1 \<or> candidate = [] \<or> candidate = selected \<or>
         ph_OptimizationBaseline item \<noteq> selected \<or> \<not> contains candidates candidate \<or> \<not> freshComparisonAt now previous p
      then None else previous)"

definition optimizationPairProbeTargets ::
  "nanos \<Rightarrow> string \<Rightarrow> string list \<Rightarrow> policyHealthState \<Rightarrow> effectivePolicySettings \<Rightarrow> string list" where
  "optimizationPairProbeTargets now selected candidates item p =
     (let candidate = ph_OptimizationCandidate item in
      case pendingOptimizationPair now selected candidates item p of
        None \<Rightarrow> []
      | Some previous \<Rightarrow>
          let activeAdvanced = oc_ActiveSampleAt previous < snd (latestQualityObservation item selected);
              candidateAdvanced = oc_CandidateSampleAt previous < snd (latestQualityObservation item candidate);
              targets = (if activeAdvanced \<and> \<not> candidateAdvanced then [candidate]
                else if candidateAdvanced \<and> \<not> activeAdvanced then [selected]
                else if due now item p selected \<or> due now item p candidate then [selected, candidate]
                else if ph_OptimizationChecks item = 0 \<and> oc_Reason previous = ''pair-incomplete'' then [selected, candidate]
                else [])
          in take (nat (min (int (length targets)) (ep_batch p))) targets)"

text \<open>The three ways into an ordinary batch: the pending pair, the active path on its turn, and the rotation.\<close>

definition active_turn :: "string \<Rightarrow> string list \<Rightarrow> policyHealthState \<Rightarrow> effectivePolicySettings \<Rightarrow> bool" where
  "active_turn selected candidates item p \<longleftrightarrow> 1 < ep_batch p \<or> ph_LastProbeAt item selected = 0 \<or>
     list_ex (\<lambda>c. c \<noteq> selected \<and> ph_LastProbeAt item selected < ph_LastProbeAt item c) candidates"

definition add_target :: "effectivePolicySettings \<Rightarrow> bool \<Rightarrow> string \<Rightarrow> string list \<Rightarrow> string list" where
  "add_target p wanted c result =
     (if int (length result) < ep_batch p \<and> wanted \<and> \<not> contains result c then result @ [c] else result)"

definition pick_due :: "nanos \<Rightarrow> string list \<Rightarrow> policyHealthState \<Rightarrow> effectivePolicySettings \<Rightarrow> string list \<Rightarrow> string" where
  "pick_due now candidates item p result =
     oldest_loop (\<lambda>c. \<not> contains result c \<and> due now item p c) (older_probe item) candidates []"

definition regularProbeTargets ::
  "nanos \<Rightarrow> string \<Rightarrow> string list \<Rightarrow> policyHealthState \<Rightarrow> effectivePolicySettings \<Rightarrow> string list \<times> policyHealthState" where
  "regularProbeTargets now selected candidates item p =
     (let result = optimizationPairProbeTargets now selected candidates item p;
          result = add_target p (active_turn selected candidates item p \<and> contains candidates selected \<and> due now item p selected) selected result;
          candidate = ph_OptimizationCandidate item;
          result = add_target p (0 < ph_OptimizationChecks item \<and> candidate \<noteq> selected \<and> contains candidates candidate \<and>
            due now item p candidate) candidate result;
          result = fill_oldest (ep_batch p) (pick_due now candidates item p) result
      in (result, item\<lparr>ph_ScanQueue := without (ph_ScanQueue item) result\<rparr>))"

section \<open>Outage and emergency batches\<close>

definition blockedRecoveryHasHistory :: "policyHealthState \<Rightarrow> bool" where
  "blockedRecoveryHasHistory item \<longleftrightarrow>
     (case ph_LastWorkingSelection item of
        Some w \<Rightarrow> ws_Mode w = ph_Mode item \<and> ws_CandidateSignature w = ph_CandidateSignature item
      | None \<Rightarrow> False) \<or> ph_LastGoodAt item \<noteq> []"

definition last_working :: "policyHealthState \<Rightarrow> string" where
  "last_working item = (case ph_LastWorkingSelection item of
     Some w \<Rightarrow> if ws_CandidateSignature w = ph_CandidateSignature item \<and> ws_Mode w = ph_Mode item then ws_Selected w else []
   | None \<Rightarrow> [])"

text \<open>The fast lane of a blocked route: recently good paths, the oldest probe first and the latest success on a tie.\<close>

definition pick_hot :: "nanos \<Rightarrow> string list \<Rightarrow> policyHealthState \<Rightarrow> effectivePolicySettings \<Rightarrow> string list \<Rightarrow> string" where
  "pick_hot now candidates item p result =
     oldest_loop (\<lambda>c. \<not> ((last_good_at item c \<le> 0 \<and> c \<noteq> last_working item) \<or> contains result c \<or>
         unix now - ph_LastProbeAt item c < of_int (ep_failureRetry p)))
       (\<lambda>c d. ph_LastProbeAt item c < ph_LastProbeAt item d \<or>
         ph_LastProbeAt item c = ph_LastProbeAt item d \<and> last_good_at item d < last_good_at item c)
       candidates []"

definition pick_outage :: "nanos \<Rightarrow> string list \<Rightarrow> policyHealthState \<Rightarrow> int \<Rightarrow> string list \<Rightarrow> string" where
  "pick_outage now candidates item interval result =
     oldest_loop (\<lambda>c. \<not> (contains result c \<or>
         (ph_LastProbeAt item c \<noteq> 0 \<and> unix now - ph_LastProbeAt item c < of_int interval)))
       (older_probe item) candidates []"

definition hot_limit :: "nanos \<Rightarrow> string list \<Rightarrow> policyHealthState \<Rightarrow> effectivePolicySettings \<Rightarrow> int \<Rightarrow> int" where
  "hot_limit now candidates item p interval =
     (let limit = min (ep_batch p - 1) (max 2 (ep_batch p div 3));
          fairDue = list_ex (\<lambda>c. ph_LastProbeAt item c = 0 \<or> of_int interval \<le> unix now - ph_LastProbeAt item c) candidates
      in if ep_batch p = 1 \<and> (\<not> fairDue \<or> now div second div max (ep_failureRetry p) 1 mod 2 = 0) then 1 else limit)"

definition outageProbeTargets ::
  "nanos \<Rightarrow> string list \<Rightarrow> policyHealthState \<Rightarrow> effectivePolicySettings \<Rightarrow> string list go" where
  "outageProbeTargets now candidates item p =
     (if ep_batch p < 0 then None
      else if ep_batch p = 0 then Some []
      else
        let interval = (if ph_Selected item \<noteq> ''block'' then min (ep_backup p) (ep_blockRecovery p) else ep_blockRecovery p);
            hot = (if ph_Selected item = ''block'' \<and> blockedRecoveryHasHistory item
              then fill_oldest (hot_limit now candidates item p interval) (pick_hot now candidates item p) [] else [])
        in Some (fill_oldest (ep_batch p) (pick_outage now candidates item interval) hot))"

definition knownFreshReserves ::
  "nanos \<Rightarrow> string \<Rightarrow> string list \<Rightarrow> string \<Rightarrow> (string \<Rightarrow> int) \<Rightarrow> policyHealthState \<Rightarrow> effectivePolicySettings \<Rightarrow> string list" where
  "knownFreshReserves now selected candidates mode groups item p =
     (let delays = emergencyRankingDelays now candidates Map.empty item p in
      rankCandidates (filter (\<lambda>c. \<not> (c = selected \<or> c \<in> set (ph_PreflightClosed item) \<or> delays c = None)) candidates) mode groups delays)"

definition knownFreshReserve ::
  "nanos \<Rightarrow> string \<Rightarrow> string list \<Rightarrow> string \<Rightarrow> (string \<Rightarrow> int) \<Rightarrow> policyHealthState \<Rightarrow> effectivePolicySettings \<Rightarrow> string" where
  "knownFreshReserve now selected candidates mode groups item p =
     (let fresh = knownFreshReserves now selected candidates mode groups item p in if fresh = [] then [] else fresh ! 0)"

text \<open>Adding targets that are not there yet until the batch is full.\<close>

fun add_new :: "int \<Rightarrow> string list \<Rightarrow> string list \<Rightarrow> string list" where
  "add_new batch result [] = result"
| "add_new batch result (t # ts) =
     (if batch \<le> int (length result) then result
      else add_new batch (if contains result t then result else result @ [t]) ts)"

fun add_others :: "int \<Rightarrow> string \<Rightarrow> string list \<Rightarrow> string list \<Rightarrow> string list" where
  "add_others batch reserve result [] = result"
| "add_others batch reserve result (t # ts) =
     (if batch \<le> int (length result) then result
      else add_others batch reserve (if t \<noteq> reserve then result @ [t] else result) ts)"

definition prioritizeEmergencyReserve :: "string list \<Rightarrow> string \<Rightarrow> string list \<Rightarrow> int \<Rightarrow> string list" where
  "prioritizeEmergencyReserve targets reserve shut batch =
     (if reserve = [] \<or> reserve \<in> set shut \<or> batch \<le> 0 then targets else add_others batch reserve [reserve] targets)"

definition emergencyProbePlan ::
  "nanos \<Rightarrow> string \<Rightarrow> string list \<Rightarrow> string list \<Rightarrow> (string \<Rightarrow> int) \<Rightarrow> policyHealthState \<Rightarrow> effectivePolicySettings \<Rightarrow>
   string list \<times> string list" where
  "emergencyProbePlan now selected targets candidates groups item p =
     (let shut = ph_PreflightClosed item; open_candidates = withoutClosedCandidates candidates shut in
      if ep_mode p \<noteq> ''best'' then
        (prioritizeEmergencyReserve targets (knownFreshReserve now selected open_candidates (ep_mode p) groups item p) shut (ep_batch p), [])
      else
        let fresh = knownFreshReserves now selected open_candidates (ep_mode p) groups item p in
        if fresh = [] then (targets, [])
        else
          let result = add_new (ep_batch p) (take (nat (min (int (length fresh)) (max 1 (ep_batch p - 1)))) fresh) targets
          in (result, filter (contains result) fresh))"

record emergencyChoice =
  ec_preferred :: "string list"
  ec_firstSuccess :: string
  ec_expired :: bool

fun ready_loop :: "(string \<rightharpoonup> probeEvidence) \<Rightarrow> bool \<Rightarrow> bool \<Rightarrow> string list \<Rightarrow> (string \<times> probeEvidence) option \<times> bool" where
  "ready_loop measured expired pending [] = (None, pending)"
| "ready_loop measured expired pending (c # cs) =
     (case measured c of
        None \<Rightarrow> ready_loop measured expired True cs
      | Some e \<Rightarrow>
          if pe_OK e then (Some (if pending \<and> \<not> expired then ([], no_evidence) else (c, e)), pending)
          else ready_loop measured expired pending cs)"

definition ready :: "emergencyChoice \<Rightarrow> (string \<rightharpoonup> probeEvidence) \<Rightarrow> string \<times> probeEvidence" where
  "ready choice measured = (case ready_loop measured (ec_expired choice) False (ec_preferred choice) of
     (Some answer, _) \<Rightarrow> answer
   | (None, pending) \<Rightarrow>
       if ec_firstSuccess choice \<noteq> [] \<and> (\<not> pending \<or> ec_expired choice)
       then (ec_firstSuccess choice, case measured (ec_firstSuccess choice) of None \<Rightarrow> no_evidence | Some e \<Rightarrow> e)
       else ([], no_evidence))"

section \<open>Survey batches and intervals\<close>

abbreviation qualityProbeTimeout :: nanos where "qualityProbeTimeout \<equiv> 5 * second"

text \<open>\<open>lanes\<close> is the number of physical probe lanes, 0 when it is not known.\<close>

definition surveySettings :: "int \<Rightarrow> effectivePolicySettings \<Rightarrow> effectivePolicySettings" where
  "surveySettings lanes p =
     (if 0 < lanes then p\<lparr>ep_batch := min (ep_batch p) (lanes * max 1 (optimizationPairSkew div qualityProbeTimeout))\<rparr> else p)"

text \<open>
  The refresh of the baseline inside a later batch. \<open>budget\<close> is the limit of the shared probe budget and
  the number of its used slots, if there is one.
\<close>

definition baseline_blocked :: "nanos \<Rightarrow> string \<Rightarrow> string list \<Rightarrow> policyHealthState \<Rightarrow> effectivePolicySettings \<Rightarrow> bool" where
  "baseline_blocked now selected targets item p \<longleftrightarrow>
     ep_batch p < 2 \<or> targets = [] \<or> selected = ''block'' \<or> contains targets selected \<or>
     \<not> ph_RuntimeConfirmed item \<or> ph_RuntimeSelected item \<noteq> selected \<or> ph_UnderlayFailure item \<noteq> [] \<or>
     0 < ph_AvailabilityFailures item selected \<or>
     (ph_OptimizationCandidate item \<noteq> [] \<and> ph_OptimizationBaseline item = selected \<and>
      freshComparisonAt now (ph_OptimizationLastResult item) p)"

definition baseline_recent :: "nanos \<Rightarrow> int \<Rightarrow> string \<Rightarrow> string list \<Rightarrow> policyHealthState \<Rightarrow> effectivePolicySettings \<Rightarrow> bool" where
  "baseline_recent now lanes selected targets item p \<longleftrightarrow>
     (let (baseline, observed) = latestQualityObservation item selected;
          waves = (if 0 < lanes then (min (ep_batch p) (int (length targets) + 1) + lanes - 1) div lanes else 1);
          maximumAge = unix_fraction (max 0 (optimizationPairSkew - waves * qualityProbeTimeout));
          observedNow = unix_fraction now
      in \<not> hs_OK baseline \<or> \<not> positive_delay (hs_DelayMS baseline) \<or> hs_ObservedAt baseline \<le> 0 \<or>
         observedNow < observed \<or> observedNow - observed \<le> maximumAge)"

definition withSurveyBaseline ::
  "nanos \<Rightarrow> int \<Rightarrow> (int \<times> int) option \<Rightarrow> string \<Rightarrow> string list \<Rightarrow> policyHealthState \<Rightarrow> effectivePolicySettings \<Rightarrow>
   string list \<times> policyHealthState" where
  "withSurveyBaseline now lanes budget selected targets item p =
     (if baseline_blocked now selected targets item p \<or> baseline_recent now lanes selected targets item p \<or>
         (case budget of Some (limit, used) \<Rightarrow> 0 < limit \<and> limit - used < 2 | None \<Rightarrow> False)
      then (targets, item)
      else let retained = nat (min (int (length targets)) (ep_batch p - 1)) in
        (selected # take retained targets,
         item\<lparr>ph_ScanQueue := uniqueCandidates (drop retained targets @ ph_ScanQueue item)\<rparr>))"

definition regularInterval :: "nanos \<Rightarrow> effectivePolicySettings \<Rightarrow> nanos" where
  "regularInterval healthInterval p =
     (let qualityInterval = ep_active p * second in
      if healthInterval \<le> 0 \<or> qualityInterval < healthInterval then qualityInterval else healthInterval)"

fun remaining_loop :: "nanos \<Rightarrow> policyHealthState \<Rightarrow> effectivePolicySettings \<Rightarrow> string list \<Rightarrow> nanos \<Rightarrow> nanos" where
  "remaining_loop now item p [] interval = interval"
| "remaining_loop now item p (c # cs) interval =
     (let last = ph_LastProbeAt item c;
          remaining = ep_active p * second - (now - (if last < 0 then - \<lfloor>- last\<rfloor> else \<lfloor>last\<rfloor>) * second)
      in if last = 0 \<or> remaining \<le> 0 then ep_liveness p * second
         else remaining_loop now item p cs (if remaining < interval then remaining else interval))"

definition remainingProbeInterval ::
  "nanos \<Rightarrow> nanos \<Rightarrow> int \<Rightarrow> string list \<Rightarrow> policyHealthState \<Rightarrow> effectivePolicySettings \<Rightarrow> nanos" where
  "remainingProbeInterval healthInterval now lanes candidates item settings =
     (let p = surveySettings lanes settings in
      if ph_RuntimeConfirmed item \<and> ph_UnderlayFailure item = [] \<and> ph_AvailabilityFailures item (ph_Selected item) = 0 \<and>
         optimizationPairProbeTargets now (ph_Selected item) candidates item p \<noteq> []
      then 0 else remaining_loop now item p candidates (regularInterval healthInterval settings))"

definition configuredHealthDuration :: "int \<Rightarrow> nanos \<Rightarrow> nanos" where
  "configuredHealthDuration seconds fallback = (if seconds \<le> 0 then fallback else seconds * second)"

abbreviation liveness_of :: "policyHealthState \<Rightarrow> nanos" where
  "liveness_of item \<equiv> configuredHealthDuration (pl_LivenessSeconds (ph_ProbeLimits item)) (3 * second)"

abbreviation failureRetry_of :: "policyHealthState \<Rightarrow> nanos" where
  "failureRetry_of item \<equiv> configuredHealthDuration (pl_FailureRetrySeconds (ph_ProbeLimits item)) (2 * second)"

definition block_interval :: "nanos \<Rightarrow> policyHealthState \<Rightarrow> nanos" where
  "block_interval now item =
     (let failureRetry = failureRetry_of item;
          blockRecovery = configuredHealthDuration (pl_BlockRecoverySeconds (ph_ProbeLimits item)) (15 * second);
          eligible = withoutClosedCandidates (split_byte (CHR 0x0A) (ph_CandidateSignature item)) (ph_PreflightClosed item);
          interval = (if (ph_OutageProbePending item \<or> (eligible \<noteq> [] \<and> blockedRecoveryHasHistory item)) \<and> failureRetry < blockRecovery
            then failureRetry else blockRecovery)
      in case ph_OutageBatchStartedAt item of
           Some started \<Rightarrow> if ph_OutageProbePending item then min interval (max (failureRetry - max (now - started) 0) 0) else interval
         | None \<Rightarrow> interval)"

text \<open>The contribution of one policy to the timer of the health loop.\<close>

definition policy_interval :: "nanos \<Rightarrow> nanos option \<Rightarrow> policyHealthState \<Rightarrow> nanos \<Rightarrow> nanos" where
  "policy_interval now regularNext item interval =
     (let interval = (case regularNext of
            Some next \<Rightarrow>
              if ph_OptimizationCandidate item \<noteq> [] \<and> ph_RuntimeConfirmed item \<and> ph_UnderlayFailure item = [] \<and>
                 ph_Selected item = ph_OptimizationBaseline item \<and> ph_AvailabilityFailures item (ph_Selected item) = 0
              then min interval (max (next - now) 0) else interval
          | None \<Rightarrow> interval);
          interval = (if ph_Selected item \<noteq> [] \<and> ph_Selected item \<noteq> ''block'' \<and> liveness_of item < interval
            then liveness_of item else interval)
      in if ph_Selected item = ''block'' then
           (if block_interval now item < interval then block_interval now item else interval)
         else if ph_UnderlayFailure item \<noteq> [] \<and> failureRetry_of item < interval then failureRetry_of item
         else if 0 < ph_AvailabilityFailures item (ph_Selected item) \<and> failureRetry_of item < interval then failureRetry_of item
         else interval)"

text \<open>The policies are a Go map: any order of the list is an order in which the loop may visit them.\<close>

definition nextIntervalAt ::
  "nanos \<Rightarrow> bool \<Rightarrow> nanos \<Rightarrow> bool \<Rightarrow> (string \<rightharpoonup> nanos) \<Rightarrow> (string \<times> policyHealthState) list \<Rightarrow> nanos" where
  "nextIntervalAt now yielded healthInterval transitions regularNext state =
     (if yielded then 0
      else fold (\<lambda>(policyID, item). policy_interval now (regularNext policyID) item) state
        (if transitions \<and> (healthInterval \<le> 0 \<or> second < healthInterval) then second else healthInterval))"

section \<open>Batches\<close>

lemma optimizationPair_bounds:
  "int (length (optimizationPairProbeTargets now selected candidates item p)) \<le> max 0 (ep_batch p) \<and>
   distinct (optimizationPairProbeTargets now selected candidates item p) \<and>
   set (optimizationPairProbeTargets now selected candidates item p) \<subseteq> insert selected (set candidates)"
proof (cases "pendingOptimizationPair now selected candidates item p")
  case (Some previous)
  let ?c = "ph_OptimizationCandidate item"
  have c: "?c \<noteq> selected" "?c \<in> set candidates" "1 \<le> ep_batch p"
    using Some by (auto simp: pendingOptimizationPair_def Let_def split: if_splits)
  have form: "(if a then [?c] else if b then [selected] else if d then [selected, ?c] else if e then [selected, ?c] else []) \<in>
      {[?c], [selected], [selected, ?c], []}" for a b d e by simp
  obtain ts where ts: "ts \<in> {[?c], [selected], [selected, ?c], []}"
      "optimizationPairProbeTargets now selected candidates item p = take (nat (min (int (length ts)) (ep_batch p))) ts"
    unfolding optimizationPairProbeTargets_def Some Let_def option.case using form by blast
  have "distinct ts" "set ts \<subseteq> insert selected (set candidates)" using ts(1) c(1,2) by auto
  then show ?thesis
    unfolding ts(2) using c(3) set_take_subset [of "nat (min (int (length ts)) (ep_batch p))" ts] by auto
qed (simp add: optimizationPairProbeTargets_def)

lemma add_target_bounds:
  "int (length result) \<le> max 0 (ep_batch p) \<Longrightarrow> int (length (add_target p wanted c result)) \<le> max 0 (ep_batch p)"
  "distinct result \<Longrightarrow> distinct (add_target p wanted c result)"
  "set (add_target p wanted c result) \<subseteq> set result \<union> (if wanted then {c} else {})"
  by (auto simp: add_target_def)

lemma pick_due_mem:
  assumes "pick_due now candidates item p r \<noteq> []"
  shows "pick_due now candidates item p r \<in> set candidates \<and> pick_due now candidates item p r \<notin> set r \<and>
    due now item p (pick_due now candidates item p r)"
  using assms oldest_loop_mem [of "\<lambda>c. \<not> contains r c \<and> due now item p c" "older_probe item" candidates "[]"]
  by (simp add: pick_due_def)

lemma pick_due_oldest:
  assumes "[] \<notin> set candidates" and "c \<in> set candidates" "c \<notin> set r" "due now item p c"
  shows "pick_due now candidates item p r \<noteq> []"
    "ph_LastProbeAt item (pick_due now candidates item p r) \<le> ph_LastProbeAt item c"
proof -
  let ?e = "\<lambda>c. \<not> contains r c \<and> due now item p c"
  have "filter ?e candidates \<noteq> []" using assms(2-4) by (auto simp: filter_empty_conv)
  then show "pick_due now candidates item p r \<noteq> []"
    unfolding pick_due_def using oldest_loop_none [OF assms(1), of ?e "older_probe item" "[]"] by blast
  have "\<forall>c \<in> set candidates. ?e c \<longrightarrow> ph_LastProbeAt item (oldest_loop ?e (older_probe item) candidates []) \<le> ph_LastProbeAt item c"
    using oldest_loop_least [of "older_probe item" "ph_LastProbeAt item" candidates "[]" ?e] assms(1)
    by (auto simp: older_probe_def)
  then show "ph_LastProbeAt item (pick_due now candidates item p r) \<le> ph_LastProbeAt item c"
    using assms(2-4) by (simp add: pick_due_def)
qed

abbreviation regular_start :: "nanos \<Rightarrow> string \<Rightarrow> string list \<Rightarrow> policyHealthState \<Rightarrow> effectivePolicySettings \<Rightarrow> string list" where
  "regular_start now selected candidates item p \<equiv>
     add_target p (0 < ph_OptimizationChecks item \<and> ph_OptimizationCandidate item \<noteq> selected \<and>
         contains candidates (ph_OptimizationCandidate item) \<and> due now item p (ph_OptimizationCandidate item)) (ph_OptimizationCandidate item)
       (add_target p (active_turn selected candidates item p \<and> contains candidates selected \<and> due now item p selected) selected
         (optimizationPairProbeTargets now selected candidates item p))"

lemma regularProbeTargets_eq:
  "fst (regularProbeTargets now selected candidates item p) =
   fill_oldest (ep_batch p) (pick_due now candidates item p) (regular_start now selected candidates item p)"
  by (simp add: regularProbeTargets_def Let_def)

lemma regular_start_bounds:
  "int (length (regular_start now selected candidates item p)) \<le> max 0 (ep_batch p)"
  "distinct (regular_start now selected candidates item p)"
  "set (regular_start now selected candidates item p) \<subseteq> insert selected (set candidates)"
proof -
  note o = optimizationPair_bounds [of now selected candidates item p]
  show "int (length (regular_start now selected candidates item p)) \<le> max 0 (ep_batch p)"
    using o by (intro add_target_bounds(1)) simp
  show "distinct (regular_start now selected candidates item p)" using o by (intro add_target_bounds(2)) simp
  show "set (regular_start now selected candidates item p) \<subseteq> insert selected (set candidates)"
    using o by (auto dest!: subsetD [OF add_target_bounds(3)] split: if_splits)
qed

lemma regularProbeTargets_bounds:
  assumes "0 \<le> ep_batch p"
  shows "int (length (fst (regularProbeTargets now selected candidates item p))) \<le> ep_batch p"
    "distinct (fst (regularProbeTargets now selected candidates item p))"
    "set (fst (regularProbeTargets now selected candidates item p)) \<subseteq> insert selected (set candidates)"
proof -
  note b = regular_start_bounds [where now = now and selected = selected and candidates = candidates and item = item and p = p]
  show "int (length (fst (regularProbeTargets now selected candidates item p))) \<le> ep_batch p"
    unfolding regularProbeTargets_eq by (rule fill_oldest_length) (use b(1) assms in simp)
  show "distinct (fst (regularProbeTargets now selected candidates item p))"
    unfolding regularProbeTargets_eq by (rule fill_oldest_distinct [OF _ b(2)]) (use pick_due_mem in blast)
  show "set (fst (regularProbeTargets now selected candidates item p)) \<subseteq> insert selected (set candidates)"
    unfolding regularProbeTargets_eq
    using fill_oldest_set(2) [of "pick_due now candidates item p" "set candidates" "ep_batch p"
        "regular_start now selected candidates item p"] pick_due_mem b(3) by blast
qed

lemma fill_batch:
  assumes "\<And>r. pick r \<noteq> [] \<Longrightarrow> pick r \<in> C \<and> pick r \<notin> set r"
    and "int (length result) \<le> limit" "distinct result" "set result \<subseteq> C"
  shows "int (length (fill_oldest limit pick result)) \<le> limit \<and> distinct (fill_oldest limit pick result) \<and>
    set (fill_oldest limit pick result) \<subseteq> C"
proof -
  have "distinct (fill_oldest limit pick result)" by (rule fill_oldest_distinct) (use assms in blast)+
  moreover have "set (fill_oldest limit pick result) \<subseteq> set result \<union> C" by (rule fill_oldest_set) (use assms in blast)
  ultimately show ?thesis using fill_oldest_length [OF assms(2)] assms(4) by blast
qed

lemma outageProbeTargets_bounds:
  assumes "0 \<le> ep_batch p"
  shows "\<exists>ts. outageProbeTargets now candidates item p = Some ts \<and> int (length ts) \<le> ep_batch p \<and> distinct ts \<and> set ts \<subseteq> set candidates"
proof (cases "ep_batch p = 0")
  case False
  define interval where "interval = (if ph_Selected item \<noteq> ''block'' then min (ep_backup p) (ep_blockRecovery p) else ep_blockRecovery p)"
  define hot where "hot = (if ph_Selected item = ''block'' \<and> blockedRecoveryHasHistory item
      then fill_oldest (hot_limit now candidates item p interval) (pick_hot now candidates item p) [] else [])"
  have h: "pick_hot now candidates item p r \<in> set candidates \<and> pick_hot now candidates item p r \<notin> set r"
    if "pick_hot now candidates item p r \<noteq> []" for r
    using that unfolding pick_hot_def by (metis (no_types, lifting) oldest_loop_mem)
  have o: "pick_outage now candidates item interval r \<in> set candidates \<and> pick_outage now candidates item interval r \<notin> set r"
    if "pick_outage now candidates item interval r \<noteq> []" for r
    using that unfolding pick_outage_def by (metis (no_types, lifting) oldest_loop_mem)
  have limit: "0 \<le> hot_limit now candidates item p interval" "hot_limit now candidates item p interval \<le> ep_batch p"
    using assms False by (auto simp: hot_limit_def Let_def)
  have "int (length hot) \<le> ep_batch p \<and> distinct hot \<and> set hot \<subseteq> set candidates"
    using fill_batch [of "pick_hot now candidates item p" "set candidates" "[]" "hot_limit now candidates item p interval"] h limit assms
    by (auto simp: hot_def)
  then have "int (length (fill_oldest (ep_batch p) (pick_outage now candidates item interval) hot)) \<le> ep_batch p \<and>
      distinct (fill_oldest (ep_batch p) (pick_outage now candidates item interval) hot) \<and>
      set (fill_oldest (ep_batch p) (pick_outage now candidates item interval) hot) \<subseteq> set candidates"
    by (intro fill_batch) (use o in blast)+
  then show ?thesis using assms False by (simp add: outageProbeTargets_def interval_def [symmetric] hot_def [symmetric] Let_def)
qed (simp add: outageProbeTargets_def)

lemma add_new_bounds:
  "int (length result) \<le> batch \<Longrightarrow> distinct result \<Longrightarrow>
   int (length (add_new batch result ts)) \<le> batch \<and> distinct (add_new batch result ts) \<and>
   set result \<subseteq> set (add_new batch result ts) \<and> set (add_new batch result ts) \<subseteq> set result \<union> set ts"
proof (induction batch result ts rule: add_new.induct)
  case (2 batch result t ts)
  show ?case
  proof (cases "batch \<le> int (length result)")
    case False
    then show ?thesis using "2.IH" [OF False] "2.prems" by (cases "contains result t") auto
  qed (use "2.prems" in auto)
qed auto

lemma add_others_bounds:
  "int (length result) \<le> batch \<Longrightarrow> reserve \<in> set result \<Longrightarrow> distinct (result @ filter (\<lambda>t. t \<noteq> reserve) ts) \<Longrightarrow>
   int (length (add_others batch reserve result ts)) \<le> batch \<and> distinct (add_others batch reserve result ts) \<and>
   set (add_others batch reserve result ts) \<subseteq> set result \<union> set ts"
proof (induction batch reserve result ts rule: add_others.induct)
  case (2 batch reserve result t ts)
  show ?case
  proof (cases "batch \<le> int (length result)")
    case False
    then show ?thesis using "2.IH" [OF False] "2.prems" by (cases "t = reserve") auto
  qed (use "2.prems" in auto)
qed auto

text \<open>The plan of an emergency batch keeps the batch size and never probes a path twice.\<close>

lemma emergencyProbePlan_bounds:
  fixes now :: nanos and selected :: string and groups :: "string \<Rightarrow> int" and item :: policyHealthState
  assumes "1 \<le> ep_batch p" and "int (length targets) \<le> ep_batch p" "distinct targets" "set targets \<subseteq> set candidates"
    and "distinct candidates"
  defines "plan \<equiv> emergencyProbePlan now selected targets candidates groups item p"
  shows "int (length (fst plan)) \<le> ep_batch p \<and> distinct (fst plan) \<and> set (fst plan) \<subseteq> set candidates \<and> set (snd plan) \<subseteq> set (fst plan)"
proof -
  let ?open = "withoutClosedCandidates candidates (ph_PreflightClosed item)"
  define fresh where "fresh = knownFreshReserves now selected ?open (ep_mode p) groups item p"
  have fresh: "set fresh \<subseteq> set candidates" "distinct fresh"
    using assms(5) by (auto simp: fresh_def knownFreshReserves_def withoutClosedCandidates_def Let_def)
  have unchanged: ?thesis if "plan = (targets, [])" using that assms(2-4) by simp
  show ?thesis
  proof (cases "ep_mode p = ''best''")
    case False
    define reserve where "reserve = (if fresh = [] then [] else fresh ! 0)"
    have plan: "plan = (prioritizeEmergencyReserve targets reserve (ph_PreflightClosed item) (ep_batch p), [])"
      using False by (simp add: plan_def emergencyProbePlan_def reserve_def fresh_def knownFreshReserve_def Let_def)
    show ?thesis
    proof (cases "reserve = [] \<or> reserve \<in> set (ph_PreflightClosed item)")
      case True
      then have "plan = (targets, [])" unfolding plan prioritizeEmergencyReserve_def by auto
      then show ?thesis by (rule unchanged)
    next
      case ok: False
      then have "reserve \<in> set candidates" using fresh(1) nth_mem [of 0 fresh] by (auto simp: reserve_def split: if_splits)
      moreover have "distinct ([reserve] @ filter (\<lambda>t. t \<noteq> reserve) targets)" using assms(3) by simp
      ultimately show ?thesis
        using add_others_bounds [of "[reserve]" "ep_batch p" reserve targets] assms(1,4) ok plan
        by (auto simp: prioritizeEmergencyReserve_def)
    qed
  next
    case best: True
    show ?thesis
    proof (cases "fresh = []")
      case True
      have "plan = (targets, [])"
        using best True unfolding plan_def emergencyProbePlan_def Let_def fresh_def by (simp only: if_True if_False simp_thms)
      then show ?thesis by (rule unchanged)
    next
      case False
      define start where "start = take (nat (min (int (length fresh)) (max 1 (ep_batch p - 1)))) fresh"
      have plan: "fst plan = add_new (ep_batch p) start targets" "snd plan = filter (contains (fst plan)) fresh"
        using best False unfolding plan_def emergencyProbePlan_def Let_def start_def fresh_def
        by (simp_all only: if_False simp_thms fst_conv snd_conv)
      have "int (length start) \<le> ep_batch p" "distinct start" "set start \<subseteq> set candidates"
        using assms(1) fresh set_take_subset [of _ fresh] by (auto simp: start_def)
      then show ?thesis using add_new_bounds [of start "ep_batch p" targets] assms(4) plan by auto
    qed
  qed
qed

section \<open>The rotation\<close>

text \<open>
  The batch of an ordinary round, as \<open>tickPolicy\<close> composes it when it handles no outage and is not the first round of a policy: the
  rotation, then the refresh of the baseline. \<open>lanes\<close> and \<open>budget\<close> are those of the two functions.
\<close>

definition survey_batch ::
  "nanos \<Rightarrow> int \<Rightarrow> (int \<times> int) option \<Rightarrow> string \<Rightarrow> string list \<Rightarrow> effectivePolicySettings \<Rightarrow> policyHealthState \<Rightarrow> string list" where
  "survey_batch now lanes budget selected candidates p item =
     (let (targets, item) = regularProbeTargets now selected candidates item p
      in fst (withSurveyBaseline now lanes budget selected targets item p))"

lemma survey_batch_cases:
  fixes lanes :: int and budget :: "(int \<times> int) option"
  defines "R \<equiv> \<lambda>now selected candidates item p. fst (regularProbeTargets now selected candidates item p)"
  obtains (plain) "survey_batch now lanes budget selected candidates p item = R now selected candidates item p"
  | (refreshed) "2 \<le> ep_batch p" "selected \<notin> set (R now selected candidates item p)"
      "survey_batch now lanes budget selected candidates p item =
         selected # take (nat (ep_batch p - 1)) (R now selected candidates item p)"
proof -
  let ?r = "regularProbeTargets now selected candidates item p"
  let ?w = "withSurveyBaseline now lanes budget selected (fst ?r) (snd ?r) p"
  have batch: "survey_batch now lanes budget selected candidates p item = fst ?w"
    by (simp add: survey_batch_def split: prod.split)
  have cut: "take (nat (min (int (length xs)) (ep_batch p - 1))) xs = take (nat (ep_batch p - 1)) xs" for xs :: "string list"
    by (cases "int (length xs) \<le> ep_batch p - 1") (simp_all add: min_def)
  have "fst ?w = fst ?r \<or> \<not> baseline_blocked now selected (fst ?r) (snd ?r) p \<and> fst ?w = selected # take (nat (ep_batch p - 1)) (fst ?r)"
    by (simp only: withSurveyBaseline_def Let_def cut fst_conv split: if_split) simp
  then consider "fst ?w = fst ?r" | "\<not> baseline_blocked now selected (fst ?r) (snd ?r) p" "fst ?w = selected # take (nat (ep_batch p - 1)) (fst ?r)"
    by blast
  then show thesis
  proof cases
    case 1
    then show thesis using batch plain by (simp add: R_def)
  next
    case 2
    then have "2 \<le> ep_batch p" "selected \<notin> set (fst ?r)" by (auto simp: baseline_blocked_def)
    then show thesis using batch 2(2) refreshed by (simp add: R_def)
  qed
qed

text \<open>What stands before a candidate \<open>c\<close>: older reserves, the turn of the active path, and its age.\<close>

definition before :: "string \<Rightarrow> string list \<Rightarrow> policyHealthState \<Rightarrow> string \<Rightarrow> string set" where
  "before selected candidates item c = {d \<in> set candidates. d \<noteq> selected \<and> ph_LastProbeAt item d \<le> ph_LastProbeAt item c}"

definition waiting :: "string \<Rightarrow> string list \<Rightarrow> effectivePolicySettings \<Rightarrow> policyHealthState \<Rightarrow> string \<Rightarrow> nat" where
  "waiting selected candidates p item c = 2 * card (before selected candidates item c) +
     (if active_turn selected candidates item p then 1 else 0) +
     (if ph_LastProbeAt item selected \<le> ph_LastProbeAt item c then 1 else 0)"

lemma due_overdue:
  assumes "due now item p c" "1 \<le> ep_active p" "0 < unix now"
  shows "ph_LastProbeAt item c < unix now"
proof -
  have "1 \<le> (of_int (ep_active p) :: rat)" using assms(2) by simp
  then show ?thesis using assms(1,3) by (auto simp: due_def)
qed

text \<open>
  While the due candidate \<open>c\<close> is not in the batch, everything that is added is at least as old; a batch without it is full.
\<close>

lemma regular_round_picks:
  fixes selected :: string
  assumes ne: "[] \<notin> set candidates" and quiet: "ph_OptimizationCandidate item = []" and batch: "1 \<le> ep_batch p"
    and c: "c \<in> set candidates" "due now item p c"
  defines "start \<equiv> if active_turn selected candidates item p \<and> contains candidates selected \<and> due now item p selected then [selected] else []"
  obtains added where
    "fst (regularProbeTargets now selected candidates item p) = start @ added" "distinct (start @ added)"
    "c \<notin> set (start @ added) \<Longrightarrow> int (length (start @ added)) = ep_batch p"
    "\<And>i. i < length added \<Longrightarrow> c \<notin> set (start @ take i added) \<Longrightarrow>
       added ! i \<in> set candidates \<and> ph_LastProbeAt item (added ! i) \<le> ph_LastProbeAt item c"
proof -
  let ?pick = "pick_due now candidates item p"
  let ?out = "fst (regularProbeTargets now selected candidates item p)"
  have "regular_start now selected candidates item p = start"
    using quiet batch ne by (auto simp: optimizationPairProbeTargets_def pendingOptimizationPair_def add_target_def start_def)
  then have out: "?out = fill_oldest (ep_batch p) ?pick start" unfolding regularProbeTargets_eq by simp
  obtain added where added: "?out = start @ added"
      "\<forall>i < length added. added ! i = ?pick (start @ take i added) \<and> added ! i \<noteq> []"
    using fill_oldest_extends [of "ep_batch p" ?pick start] unfolding out by blast
  have "distinct (start @ added)" using regularProbeTargets_bounds(2) [of p now selected candidates item] batch unfolding added(1) by simp
  moreover have "int (length (start @ added)) = ep_batch p" if "c \<notin> set (start @ added)"
  proof -
    have "?pick ?out \<noteq> []" using pick_due_oldest(1) [OF ne c(1) _ c(2)] that unfolding added(1) by blast
    then have "int (length ?out) = ep_batch p"
      using fill_oldest_stops [of "ep_batch p" ?pick start] regularProbeTargets_bounds(1) [of p now selected candidates item] batch
      unfolding out by linarith
    then show ?thesis unfolding added(1) .
  qed
  moreover have "added ! i \<in> set candidates \<and> ph_LastProbeAt item (added ! i) \<le> ph_LastProbeAt item c"
    if "i < length added" "c \<notin> set (start @ take i added)" for i
    using pick_due_oldest(2) [OF ne c(1) that(2) c(2)] pick_due_mem [of now candidates item p "start @ take i added"] added(2) that(1) by metis
  ultimately show thesis by (rule that [OF added(1)])
qed

lemma distinct_singleton: "distinct xs \<Longrightarrow> set xs \<subseteq> {a} \<Longrightarrow> xs \<noteq> [] \<Longrightarrow> xs = [a]"
  by (cases xs; cases "tl xs") auto

text \<open>
  A round that measures its whole batch, but not \<open>c\<close>, has measured a reserve at least as old as \<open>c\<close>, or it had one slot and
  gave it to the active path.
\<close>

lemma survey_batch_progress:
  assumes ne: "[] \<notin> set candidates" and quiet: "ph_OptimizationCandidate item = []" and batch: "1 \<le> ep_batch p"
    and c: "c \<in> set candidates" "due now item p c" "c \<notin> set (survey_batch now lanes budget selected candidates p item)"
  shows "(\<exists>d \<in> set (survey_batch now lanes budget selected candidates p item). d \<in> before selected candidates item c) \<or>
    ep_batch p = 1 \<and> survey_batch now lanes budget selected candidates p item = [selected] \<and>
    (active_turn selected candidates item p \<or> ph_LastProbeAt item selected \<le> ph_LastProbeAt item c)"
proof -
  let ?R = "fst (regularProbeTargets now selected candidates item p)"
  let ?B = "survey_batch now lanes budget selected candidates p item"
  define start where "start = (if active_turn selected candidates item p \<and> contains candidates selected \<and> due now item p selected then [selected] else [])"
  obtain added where R: "?R = start @ added" "distinct (start @ added)" "c \<notin> set (start @ added) \<Longrightarrow> int (length (start @ added)) = ep_batch p"
      and older: "\<And>i. i < length added \<Longrightarrow> c \<notin> set (start @ take i added) \<Longrightarrow>
        added ! i \<in> set candidates \<and> ph_LastProbeAt item (added ! i) \<le> ph_LastProbeAt item c"
    using regular_round_picks [OF ne quiet batch c(1,2)] unfolding start_def by blast
  show ?thesis
  proof (rule survey_batch_cases [of now lanes budget selected candidates p item])
    assume refreshed: "2 \<le> ep_batch p" "selected \<notin> set ?R" "?B = selected # take (nat (ep_batch p - 1)) ?R"
    have start: "start = []" using refreshed(2) R(1) by (auto simp: start_def split: if_splits)
    have "added \<noteq> []"
      using R(3) refreshed(1,3) c(3) unfolding R(1) start by (cases "c \<in> set added") auto
    then have "added ! 0 \<in> set ?R" "added ! 0 \<in> set ?B" "added ! 0 \<in> set candidates \<and> ph_LastProbeAt item (added ! 0) \<le> ph_LastProbeAt item c"
      using older [of 0] refreshed(1,3) unfolding R(1) start by (cases added; simp add: take_Cons')+
    then show ?thesis using refreshed(2) by (metis (mono_tags, lifting) before_def mem_Collect_eq)
  next
    assume plain: "?B = ?R"
    have no: "c \<notin> set (start @ added)" using c(3) unfolding plain R(1) .
    have old: "d \<in> set candidates \<and> ph_LastProbeAt item d \<le> ph_LastProbeAt item c" if d: "d \<in> set added" for d
    proof -
      obtain i where i: "i < length added" "added ! i = d" using d by (auto simp: in_set_conv_nth)
      then show ?thesis using older [OF i(1)] no set_take_subset [of i added] by auto
    qed
    show ?thesis
    proof (cases "\<exists>d \<in> set ?B. d \<in> before selected candidates item c")
      case False
      then have "set (start @ added) \<subseteq> {selected}" using old unfolding plain R(1) by (auto simp: before_def start_def)
      moreover from R(3) [OF no] have "start @ added \<noteq> []" using batch by (intro notI) simp
      ultimately have one: "start @ added = [selected]" using R(2) by (intro distinct_singleton)
      then have "ep_batch p = 1" "?B = [selected]" using R(3) [OF no] plain R(1) by simp_all
      moreover have "active_turn selected candidates item p \<or> ph_LastProbeAt item selected \<le> ph_LastProbeAt item c"
        using one old [of selected] by (auto simp: start_def split: if_splits)
      ultimately show ?thesis by blast
    qed blast
  qed
qed

text \<open>With one slot, a round that does not measure \<open>c\<close> measures a reserve at least as old, or at most the active path.\<close>

lemma survey_batch_single:
  assumes ne: "[] \<notin> set candidates" and quiet: "ph_OptimizationCandidate item = []" and batch: "ep_batch p = 1"
    and c: "c \<in> set candidates" "due now item p c" and m: "M \<subseteq> set (survey_batch now lanes budget selected candidates p item)" "c \<notin> M"
  shows "(\<exists>d \<in> M. d \<in> before selected candidates item c) \<or> M \<subseteq> {selected}"
proof (cases "c \<in> set (survey_batch now lanes budget selected candidates p item)")
  case True
  have "survey_batch now lanes budget selected candidates p item = fst (regularProbeTargets now selected candidates item p)"
    by (rule survey_batch_cases [of now lanes budget selected candidates p item]) (use batch in simp_all)
  then have "length (survey_batch now lanes budget selected candidates p item) \<le> 1"
    using regularProbeTargets_bounds(1) [of p now selected candidates item] batch by simp
  then have "survey_batch now lanes budget selected candidates p item = [c]"
    using True by (cases "survey_batch now lanes budget selected candidates p item") auto
  then show ?thesis using m by auto
next
  case False
  have "survey_batch now lanes budget selected candidates p item = fst (regularProbeTargets now selected candidates item p)"
    by (rule survey_batch_cases [of now lanes budget selected candidates p item]) (use batch in simp_all)
  then have len: "length (survey_batch now lanes budget selected candidates p item) \<le> 1"
    using regularProbeTargets_bounds(1) [of p now selected candidates item] batch by simp
  show ?thesis
    using survey_batch_progress [OF ne quiet _ c False] batch m(1) len
    by (cases "survey_batch now lanes budget selected candidates p item") auto
qed

text \<open>
  One round with the measured paths \<open>M\<close> of its batch: nothing comes before \<open>c\<close> that was not before it, and something leaves when
  the whole batch is measured.
\<close>

lemma waiting_step:
  assumes ne: "[] \<notin> set candidates" and quiet: "ph_OptimizationCandidate item = []" and batch: "1 \<le> ep_batch p" "1 \<le> ep_active p"
    and time: "0 < unix now" "\<And>d. d \<in> set candidates \<Longrightarrow> ph_LastProbeAt item d \<le> unix now"
    and c: "c \<in> set candidates" "due now item p c"
    and m: "M \<subseteq> set (survey_batch now lanes budget selected candidates p item)" "c \<notin> M"
    and after: "\<And>d. d \<in> M \<Longrightarrow> unix now \<le> ph_LastProbeAt item' d" "\<And>d. d \<notin> M \<Longrightarrow> ph_LastProbeAt item' d = ph_LastProbeAt item d"
  shows "waiting selected candidates p item' c \<le> waiting selected candidates p item c"
    "M = set (survey_batch now lanes budget selected candidates p item) \<Longrightarrow>
      waiting selected candidates p item' c < waiting selected candidates p item c"
proof -
  let ?last = "ph_LastProbeAt item" and ?last' = "ph_LastProbeAt item'"
  let ?B = "before selected candidates item c" and ?B' = "before selected candidates item' c"
  have same: "?last' c = ?last c" using after(2) m(2) .
  have probed: "?last c < ?last' d" if "d \<in> M" for d
    using after(1) [OF that] due_overdue [OF c(2) batch(2) time(1)] by linarith
  have grows: "?last d \<le> ?last' d" if "d \<in> set candidates" for d
    using time(2) [OF that] after(1) [of d] after(2) [of d] by (cases "d \<in> M") auto
  have fin: "finite ?B" by (simp add: before_def)
  have sub: "?B' \<subseteq> ?B" using grows same by (fastforce simp: before_def)
  then have le: "card ?B' \<le> card ?B" by (rule card_mono [OF fin])
  have age: "?last' selected \<le> ?last' c \<Longrightarrow> ?last selected \<le> ?last c"
    using probed [of selected] same after(2) [of selected] by (cases "selected \<in> M") auto
  have less: "waiting selected candidates p item' c < waiting selected candidates p item c" if "\<exists>d \<in> M. d \<in> ?B"
  proof -
    obtain d where d: "d \<in> M" "d \<in> ?B" using \<open>\<exists>d \<in> M. d \<in> ?B\<close> by blast
    then have "d \<notin> ?B'" using probed [OF d(1)] same by (simp add: before_def)
    then have "card ?B' < card ?B" using sub d(2) fin by (intro psubset_card_mono) auto
    then show ?thesis using age unfolding waiting_def by (simp split: if_split)
  qed
  have turn: "\<not> active_turn selected candidates item' p" if "M = {selected}" "ep_batch p = 1"
    using that after(1) [of selected] after(2) time by (fastforce simp: active_turn_def list_ex_iff)
  have turns: "active_turn selected candidates item p" if "M \<subseteq> {selected}" "active_turn selected candidates item' p" "ep_batch p = 1"
  proof (cases "M = {selected}")
    case False
    then have "M = {}" using that(1) by blast
    then have "?last' = ?last" using after(2) by blast
    then show ?thesis using that(2) by (simp add: active_turn_def)
  qed (use turn that(2,3) in blast)
  show "waiting selected candidates p item' c \<le> waiting selected candidates p item c"
  proof (cases "ep_batch p = 1")
    case True
    then show ?thesis using survey_batch_single [OF ne quiet True c m] less turns le age unfolding waiting_def by fastforce
  next
    case False
    then have "active_turn selected candidates i p" for i using batch(1) by (simp add: active_turn_def)
    then show ?thesis using le age unfolding waiting_def by simp
  qed
  show "waiting selected candidates p item' c < waiting selected candidates p item c"
    if full: "M = set (survey_batch now lanes budget selected candidates p item)"
  proof -
    have no: "c \<notin> set (survey_batch now lanes budget selected candidates p item)" using m(2) full by blast
    consider "\<exists>d \<in> M. d \<in> ?B" | "ep_batch p = 1" "M = {selected}" "active_turn selected candidates item p \<or> ?last selected \<le> ?last c"
      using survey_batch_progress [OF ne quiet batch(1) c no] full by auto
    then show ?thesis
    proof cases
      case 2
      have "\<not> ?last' selected \<le> ?last' c" using probed [of selected] 2(2) same by simp
      then show ?thesis using turn [OF 2(2,1)] 2(3) le unfolding waiting_def by auto
    qed (rule less)
  qed
qed

lemma waiting_bound: "waiting selected candidates p item c \<le> 2 * length candidates + 2"
proof -
  have "card (before selected candidates item c) \<le> card (set candidates)" by (rule card_mono) (auto simp: before_def)
  also have "\<dots> \<le> length candidates" by (rule card_length)
  finally show ?thesis by (simp add: waiting_def)
qed

section \<open>Properties\<close>

text \<open>Every batch respects the configured size: ordinary, outage and emergency batches have at most that many paths,
  never the same path twice, and only candidates or the active path; choosing an outage batch never panics.\<close>

theorem probe_batches_bounded:
  assumes "1 \<le> ep_batch p" and "distinct candidates"
  shows "(let ts = fst (regularProbeTargets now selected candidates item p) in
      int (length ts) \<le> ep_batch p \<and> distinct ts \<and> set ts \<subseteq> insert selected (set candidates)) \<and>
    (\<exists>ts. outageProbeTargets now candidates item p = Some ts \<and> int (length ts) \<le> ep_batch p \<and> distinct ts \<and> set ts \<subseteq> set candidates \<and>
      (let (plan, preferred) = emergencyProbePlan now selected ts candidates groups item p in
         int (length plan) \<le> ep_batch p \<and> distinct plan \<and> set plan \<subseteq> set candidates \<and> set preferred \<subseteq> set plan))"
proof -
  obtain ts where ts: "outageProbeTargets now candidates item p = Some ts" "int (length ts) \<le> ep_batch p" "distinct ts" "set ts \<subseteq> set candidates"
    using outageProbeTargets_bounds [of p now candidates item] assms(1) by auto
  note plan = emergencyProbePlan_bounds [OF assms(1) ts(2-4) assms(2), of now selected groups item]
  show ?thesis
    using regularProbeTargets_bounds [of p now selected candidates item] assms(1) ts plan
    by (auto simp: Let_def split: prod.split)
qed

theorem probe_batches_bounded_witness:
  "\<exists>ts. outageProbeTargets 0 [''A'', ''B'', ''C''] newPolicyHealthState fast_settings = Some ts \<and> int (length ts) \<le> 2 \<and> set ts \<subseteq> {''A'', ''B'', ''C''}"
proof -
  have "1 \<le> ep_batch fast_settings" "distinct [''A'', ''B'', ''C'']" by (simp_all add: fast_settings_eq)
  from probe_batches_bounded [OF this, of 0 "''A''" newPolicyHealthState "\<lambda>_. 0"] show ?thesis
    by (auto simp: fast_settings_eq)
qed

end
