(* ===== verification/Health_Budget.thy ===== *)
theory Health_Budget
  imports Health_Schedule
begin

text \<open>
  The probe budget that the policies share in one tick, \<^verbatim>\<open>internal/agent/health_probe_budget.go\<close>: the slots
  that a policy claims for its targets, the evidence shared between policies with the same endpoint, and
  the quality batches that use both. Within one call the clock stands still at \<open>now\<close>. The keys of
  \<^verbatim>\<open>Used\<close>, whose number matters, are a list without repetitions.
\<close>

section \<open>Contracts\<close>

record healthNode =
  hn_SubscriptionID :: string
  hn_Label :: string
  hn_Country :: string
  hn_Protocol :: string
  hn_Transport :: string
  hn_Fingerprint :: string

record healthPolicyContract =
  hc_Policy :: healthPolicy
  hc_Mode :: string
  hc_Groups :: "healthGroup list"
  hc_Candidates :: "string list"
  hc_Nodes :: "string \<Rightarrow> healthNode"

record sharedProbeResult =
  sp_At :: nanos
  sp_Evidence :: probeEvidence

record healthProbeBudget =
  pb_Limit :: int
  pb_Used :: "string list"
  pb_Quality :: "string \<rightharpoonup> sharedProbeResult"
  pb_Cursor :: nat
  pb_QualityAttempted :: "string \<Rightarrow> bool"
  pb_DeferredPolicies :: "string \<rightharpoonup> nanos"

abbreviation sharedProbeLifetime :: nanos where "sharedProbeLifetime \<equiv> 15 * second"

definition probeKey :: "string \<Rightarrow> string \<Rightarrow> healthPolicyContract \<Rightarrow> string" where
  "probeKey policyID node contract =
     (let fingerprint = hn_Fingerprint (hc_Nodes contract node) in
      if fingerprint \<noteq> [] then fingerprint else policyID @ '':'' @ node)"

definition probeObservedAt :: "nanos \<Rightarrow> probeEvidence \<Rightarrow> nanos" where
  "probeObservedAt now evidence = (case pe_ObservedAt evidence of Some t \<Rightarrow> t | None \<Rightarrow> now)"

section \<open>Operations\<close>

text \<open>\<open>deferSharedProbe\<close>: the first deferral of a policy keeps its time.\<close>

definition deferSharedProbe :: "nanos \<Rightarrow> string \<Rightarrow> healthProbeBudget \<Rightarrow> healthProbeBudget" where
  "deferSharedProbe now policyID budget =
     (if pb_DeferredPolicies budget policyID = None
      then budget\<lparr>pb_DeferredPolicies := (pb_DeferredPolicies budget)(policyID \<mapsto> now)\<rparr> else budget)"

text \<open>A new tick: all slots are free, and the policies start at the cursor.\<close>

definition rotate_policies :: "nat \<Rightarrow> string list \<Rightarrow> string list" where
  "rotate_policies cursor policyIDs =
     (if 1 < length policyIDs then let offset = cursor mod length policyIDs in drop offset policyIDs @ take offset policyIDs
      else policyIDs)"

definition beginProbeBudget ::
  "int \<Rightarrow> (string \<Rightarrow> bool) \<Rightarrow> string list \<Rightarrow> healthProbeBudget option \<Rightarrow> healthProbeBudget \<times> string list" where
  "beginProbeBudget limit exists policyIDs previous =
     (let budget = (case previous of Some b \<Rightarrow> b
        | None \<Rightarrow> \<lparr>pb_Limit = 0, pb_Used = [], pb_Quality = Map.empty, pb_Cursor = 0, pb_QualityAttempted = (\<lambda>_. False),
                   pb_DeferredPolicies = Map.empty\<rparr>)
      in (budget\<lparr>pb_Limit := limit, pb_Used := [], pb_Quality := Map.empty, pb_QualityAttempted := (\<lambda>_. False),
                 pb_DeferredPolicies := (\<lambda>id. if exists id then pb_DeferredPolicies budget id else None)\<rparr>,
          rotate_policies (pb_Cursor budget) policyIDs))"

definition fresh_shared :: "nanos \<Rightarrow> healthProbeBudget \<Rightarrow> string \<Rightarrow> bool" where
  "fresh_shared now budget key = (case pb_Quality budget key of Some r \<Rightarrow> now - sp_At r \<le> sharedProbeLifetime | None \<Rightarrow> False)"

definition use_slot :: "string \<Rightarrow> healthProbeBudget \<Rightarrow> healthProbeBudget" where
  "use_slot key budget = (if key \<in> set (pb_Used budget) then budget else budget\<lparr>pb_Used := key # pb_Used budget\<rparr>)"

fun claim_loop ::
  "nanos \<Rightarrow> (string \<Rightarrow> string) \<Rightarrow> string list \<Rightarrow> healthProbeBudget \<Rightarrow> string list \<Rightarrow> string list \<Rightarrow>
   string list \<times> string list \<times> healthProbeBudget" where
  "claim_loop now key [] budget accepted deferred = (accepted, deferred, budget)"
| "claim_loop now key (node # nodes) budget accepted deferred =
     (let cached = fresh_shared now budget (key node); attempted = pb_QualityAttempted budget (key node) in
      if \<not> cached \<and> attempted then claim_loop now key nodes budget accepted (deferred @ [node])
      else if cached \<or> key node \<in> set (pb_Used budget) \<or> int (length (pb_Used budget)) < pb_Limit budget
      then claim_loop now key nodes (if cached then budget else use_slot (key node) budget) (accepted @ [node]) deferred
      else claim_loop now key nodes budget accepted (deferred @ [node]))"

definition new_keys :: "(string \<Rightarrow> string) \<Rightarrow> healthProbeBudget \<Rightarrow> string list \<Rightarrow> string list" where
  "new_keys key budget targets = remdups (filter (\<lambda>k. k \<notin> set (pb_Used budget)) (map key targets))"

definition claimProbeTargets ::
  "nanos \<Rightarrow> string \<Rightarrow> healthPolicyContract \<Rightarrow> string list \<Rightarrow> bool \<Rightarrow> healthProbeBudget option \<Rightarrow>
   string list \<times> string list \<times> healthProbeBudget option" where
  "claimProbeTargets now policyID contract targets atomicPair probeBudget =
     (case probeBudget of
        None \<Rightarrow> (targets, [], None)
      | Some budget \<Rightarrow>
          if pb_Limit budget \<le> 0 then (targets, [], probeBudget)
          else
            let key = (\<lambda>node. probeKey policyID node contract) in
            if atomicPair \<and>
               (list_ex (\<lambda>node. pb_QualityAttempted budget (key node) \<and> \<not> fresh_shared now budget (key node)) targets \<or>
                pb_Limit budget < int (length (new_keys key budget targets) + length (pb_Used budget)))
            then ([], targets, Some (deferSharedProbe now policyID budget))
            else
              let (accepted, deferred, budget) = claim_loop now key targets budget [] []
              in (accepted, deferred, Some (if deferred \<noteq> [] then deferSharedProbe now policyID budget else budget)))"

text \<open>A probe of one node through the shared evidence; \<open>probe\<close> is the runtime.\<close>

definition sharedQualityProbe ::
  "nanos \<Rightarrow> (string \<Rightarrow> probeEvidence) \<Rightarrow> string \<Rightarrow> string \<Rightarrow> healthPolicyContract \<Rightarrow> healthProbeBudget option \<Rightarrow>
   probeEvidence \<times> healthProbeBudget option" where
  "sharedQualityProbe now probe policyID node contract probeBudget =
     (case probeBudget of
        None \<Rightarrow> (probe node, None)
      | Some budget \<Rightarrow>
          let key = probeKey policyID node contract in
          if fresh_shared now budget key then (sp_Evidence (the (pb_Quality budget key)), probeBudget)
          else if pb_QualityAttempted budget key then (no_evidence\<lparr>pe_Deferred := True\<rparr>, probeBudget)
          else
            let budget = budget\<lparr>pb_QualityAttempted := (pb_QualityAttempted budget)(key := True)\<rparr>;
                evidence = probe node
            in (evidence, Some (if pe_OK evidence \<and> hn_Fingerprint (hc_Nodes contract node) \<noteq> []
                 then budget\<lparr>pb_Quality := (pb_Quality budget)(key \<mapsto> \<lparr>sp_At = probeObservedAt now evidence, sp_Evidence = evidence\<rparr>)\<rparr>
                 else budget)))"

text \<open>Whether the cached and the pending part of a batch with the active path would spread beyond the pair window.\<close>

definition expiry_scan :: "nanos \<Rightarrow> (string \<Rightarrow> string) \<Rightarrow> healthProbeBudget \<Rightarrow> string list \<Rightarrow> nanos list \<times> nat" where
  "expiry_scan now key budget nodes =
     (let usable = (\<lambda>k. case pb_Quality budget k of Some r \<Rightarrow> 0 \<le> now - sp_At r \<and> now - sp_At r \<le> sharedProbeLifetime | None \<Rightarrow> False)
      in (map (\<lambda>node. sp_At (the (pb_Quality budget (key node)))) (filter (\<lambda>node. usable (key node)) nodes),
          length (filter (\<lambda>node. \<not> usable (key node) \<and> \<not> pb_QualityAttempted budget (key node)) nodes)))"

definition sharedPairWouldExpire ::
  "nanos \<Rightarrow> int \<Rightarrow> string \<Rightarrow> healthPolicyContract \<Rightarrow> policyHealthState option \<Rightarrow> string list \<Rightarrow> healthProbeBudget \<Rightarrow> bool" where
  "sharedPairWouldExpire now lanes policyID contract item nodes budget =
     (case item of
        None \<Rightarrow> False
      | Some item \<Rightarrow>
          if hc_Mode contract \<noteq> ''best'' \<or> \<not> contains nodes (ph_Selected item) \<or> lanes \<le> 0 then False
          else
            let (times, pending) = expiry_scan now (\<lambda>node. probeKey policyID node contract) budget nodes in
            if times = [] then False
            else
              let latest = (if 0 < pending then now + (int pending + lanes - 1) div lanes * qualityProbeTimeout
                    else foldl max (times ! 0) times)
              in optimizationPairSkew < latest - foldl min (times ! 0) times)"

definition release_unattempted :: "(string \<Rightarrow> string) \<Rightarrow> string list \<Rightarrow> healthProbeBudget \<Rightarrow> healthProbeBudget" where
  "release_unattempted key nodes budget =
     budget\<lparr>pb_Used := filter (\<lambda>k. \<not> (k \<in> set (map key nodes) \<and> \<not> pb_QualityAttempted budget k)) (pb_Used budget)\<rparr>"

definition store_shared ::
  "nanos \<Rightarrow> string \<Rightarrow> healthPolicyContract \<Rightarrow> string \<times> probeEvidence \<Rightarrow> healthProbeBudget \<Rightarrow> healthProbeBudget" where
  "store_shared now policyID contract answer budget =
     (let (node, evidence) = answer in
      if pe_OK evidence \<and> hn_Fingerprint (hc_Nodes contract node) \<noteq> []
      then budget\<lparr>pb_Quality := (pb_Quality budget)(probeKey policyID node contract \<mapsto>
             \<lparr>sp_At = probeObservedAt now evidence, sp_Evidence = evidence\<rparr>)\<rparr>
      else budget)"

fun probe_each ::
  "nanos \<Rightarrow> (string \<Rightarrow> probeEvidence) \<Rightarrow> string \<Rightarrow> healthPolicyContract \<Rightarrow> string list \<Rightarrow> (string \<rightharpoonup> probeEvidence) \<times> healthProbeBudget \<Rightarrow>
   (string \<rightharpoonup> probeEvidence) \<times> healthProbeBudget" where
  "probe_each now probe policyID contract [] s = s"
| "probe_each now probe policyID contract (node # nodes) (result, budget) =
     (case sharedQualityProbe now probe policyID node contract (Some budget) of
        (evidence, budget') \<Rightarrow> probe_each now probe policyID contract nodes
          (result(node \<mapsto> evidence), case budget' of Some b \<Rightarrow> b | None \<Rightarrow> budget))"

text \<open>A batch of quality probes; \<open>parallel\<close> is the parallel probe of the runtime when it has one.\<close>

definition sharedQualityBatch ::
  "nanos \<Rightarrow> int \<Rightarrow> (string \<Rightarrow> probeEvidence) \<Rightarrow> (string list \<Rightarrow> (string \<times> probeEvidence) list) option \<Rightarrow> string \<Rightarrow> healthPolicyContract \<Rightarrow>
   policyHealthState option \<Rightarrow> string list \<Rightarrow> healthProbeBudget \<Rightarrow> (string \<rightharpoonup> probeEvidence) \<times> healthProbeBudget" where
  "sharedQualityBatch now lanes probe parallel policyID contract item nodes budget =
     (let key = (\<lambda>node. probeKey policyID node contract) in
      if sharedPairWouldExpire now lanes policyID contract item nodes budget then
        ((\<lambda>node. if contains nodes node then Some (no_evidence\<lparr>pe_Deferred := True\<rparr>) else None),
         deferSharedProbe now policyID (release_unattempted key nodes budget))
      else
        let result = (\<lambda>node. if \<not> contains nodes node then None
              else if fresh_shared now budget (key node) then Some (sp_Evidence (the (pb_Quality budget (key node))))
              else if pb_QualityAttempted budget (key node) then Some (no_evidence\<lparr>pe_Deferred := True\<rparr>)
              else None);
            pending = filter (\<lambda>node. \<not> fresh_shared now budget (key node) \<and> \<not> pb_QualityAttempted budget (key node)) nodes
        in case parallel of
             Some run \<Rightarrow>
               if 1 < length pending then
                 let answers = run pending;
                     budget = budget\<lparr>pb_QualityAttempted := (\<lambda>k. k \<in> set (map key pending) \<or> pb_QualityAttempted budget k)\<rparr>
                 in (result ++ map_of (rev answers), fold (store_shared now policyID contract) answers budget)
               else probe_each now probe policyID contract pending (result, budget)
           | None \<Rightarrow> probe_each now probe policyID contract pending (result, budget))"

text \<open>An interrupted batch shares nothing: partial results must not cross a change of the generation or of a policy.\<close>

definition takeSharedProbeInterruption :: "string option \<Rightarrow> healthProbeBudget option \<Rightarrow> string option \<times> healthProbeBudget option" where
  "takeSharedProbeInterruption err probeBudget =
     (err, if err \<noteq> None then map_option (\<lambda>budget. budget\<lparr>pb_Quality := Map.empty\<rparr>) probeBudget else probeBudget)"

section \<open>The budget as a transition system\<close>

inductive budget_step :: "healthProbeBudget \<Rightarrow> healthProbeBudget \<Rightarrow> bool" where
  new_tick: "budget_step b (fst (beginProbeBudget limit exists policyIDs (Some b)))"
| claim: "claimProbeTargets now policyID contract targets atomicPair (Some b) = (accepted, deferred, Some b') \<Longrightarrow> budget_step b b'"
| probe: "sharedQualityProbe now probe policyID node contract (Some b) = (evidence, Some b') \<Longrightarrow> budget_step b b'"
| batch: "budget_step b (snd (sharedQualityBatch now lanes probe parallel policyID contract item nodes b))"
| interruption: "takeSharedProbeInterruption err (Some b) = (err', Some b') \<Longrightarrow> budget_step b b'"

inductive_cases budget_stepE: "budget_step b b'"

definition budget_ok :: "healthProbeBudget \<Rightarrow> bool" where
  "budget_ok b \<longleftrightarrow> distinct (pb_Used b) \<and> (0 < pb_Limit b \<longrightarrow> int (length (pb_Used b)) \<le> pb_Limit b)"

named_theorems budget_simps \<open>fields that the operations of the budget leave alone\<close>

lemma defer_simps [budget_simps, simp]:
  "pb_Used (deferSharedProbe now policyID b) = pb_Used b" "pb_Limit (deferSharedProbe now policyID b) = pb_Limit b"
  by (simp_all add: deferSharedProbe_def)

lemma use_slot_simps [budget_simps, simp]:
  "pb_Limit (use_slot k b) = pb_Limit b" "pb_Quality (use_slot k b) = pb_Quality b"
  "pb_QualityAttempted (use_slot k b) = pb_QualityAttempted b" "set (pb_Used (use_slot k b)) = insert k (set (pb_Used b))"
  by (auto simp: use_slot_def)

lemma fresh_shared_cong [simp]: "fresh_shared now (use_slot k b) = fresh_shared now b"
  by (intro ext) (simp add: fresh_shared_def)

lemma use_slot_ok:
  "budget_ok b \<Longrightarrow> k \<in> set (pb_Used b) \<or> int (length (pb_Used b)) < pb_Limit b \<Longrightarrow> budget_ok (use_slot k b)"
  by (auto simp: budget_ok_def use_slot_def)

lemma claim_loop_ok:
  "budget_ok b \<Longrightarrow> claim_loop now key nodes b accepted deferred = (acc, def, b') \<Longrightarrow> budget_ok b' \<and> pb_Limit b' = pb_Limit b"
proof (induction now key nodes b accepted deferred rule: claim_loop.induct)
  case (2 now key node nodes budget accepted deferred)
  let ?cached = "fresh_shared now budget (key node)" and ?attempted = "pb_QualityAttempted budget (key node)"
  let ?room = "?cached \<or> key node \<in> set (pb_Used budget) \<or> int (length (pb_Used budget)) < pb_Limit budget"
  consider "\<not> ?cached \<and> ?attempted" | "\<not> (\<not> ?cached \<and> ?attempted)" ?room | "\<not> (\<not> ?cached \<and> ?attempted)" "\<not> ?room" by blast
  then show ?case
  proof cases
    case 1
    then show ?thesis using "2.IH"(1) [OF refl refl 1] "2.prems" by (simp add: Let_def)
  next
    case 2
    have "budget_ok (if ?cached then budget else use_slot (key node) budget)" using "2.prems"(1) 2(2) use_slot_ok by auto
    then show ?thesis using "2.IH"(2) [OF refl refl 2] "2.prems"(2) 2 by (auto simp: Let_def split: if_splits)
  next
    case 3
    then show ?thesis using "2.IH"(3) [OF refl refl 3] "2.prems" by (simp add: Let_def)
  qed
qed simp

text \<open>Every target is either accepted or deferred, and an accepted one has a slot or fresh shared evidence.\<close>

lemma claim_loop_partition:
  "claim_loop now key nodes b accepted deferred = (acc, def, b') \<Longrightarrow>
   mset acc + mset def = mset accepted + mset deferred + mset nodes \<and> set (pb_Used b) \<subseteq> set (pb_Used b') \<and> pb_Quality b' = pb_Quality b \<and>
   (\<forall>n \<in> set acc - set accepted. fresh_shared now b (key n) \<or> key n \<in> set (pb_Used b'))"
proof (induction now key nodes b accepted deferred rule: claim_loop.induct)
  case (2 now key node nodes budget accepted deferred)
  let ?cached = "fresh_shared now budget (key node)" and ?attempted = "pb_QualityAttempted budget (key node)"
  let ?room = "?cached \<or> key node \<in> set (pb_Used budget) \<or> int (length (pb_Used budget)) < pb_Limit budget"
  consider "\<not> ?cached \<and> ?attempted" | "\<not> (\<not> ?cached \<and> ?attempted)" ?room | "\<not> (\<not> ?cached \<and> ?attempted)" "\<not> ?room" by blast
  then show ?case
  proof cases
    case 1
    then show ?thesis using "2.IH"(1) [OF refl refl 1] "2.prems" by (simp add: Let_def)
  next
    case 2
    let ?b = "if ?cached then budget else use_slot (key node) budget"
    have run: "claim_loop now key nodes ?b (accepted @ [node]) deferred = (acc, def, b')"
      using "2.prems" 2 by (simp add: Let_def)
    have same: "fresh_shared now ?b = fresh_shared now budget" "pb_Quality ?b = pb_Quality budget" by simp_all
    have "set (pb_Used budget) \<subseteq> set (pb_Used ?b)" "?cached \<or> key node \<in> set (pb_Used ?b)" by auto
    then show ?thesis using "2.IH"(2) [OF refl refl 2 run] unfolding same by auto
  next
    case 3
    then show ?thesis using "2.IH"(3) [OF refl refl 3] "2.prems" by (simp add: Let_def)
  qed
qed simp

text \<open>When all new keys fit and no uncached key was attempted, everything is accepted.\<close>

lemma claim_loop_all:
  assumes "distinct (pb_Used b)"
    and "\<And>n. n \<in> set nodes \<Longrightarrow> pb_QualityAttempted b (key n) \<Longrightarrow> fresh_shared now b (key n)"
    and "int (card (key ` set nodes \<union> set (pb_Used b))) \<le> pb_Limit b"
  shows "\<exists>b'. claim_loop now key nodes b accepted [] = (accepted @ nodes, [], b')"
  using assms
proof (induction nodes arbitrary: b accepted)
  case (Cons n nodes)
  let ?cached = "fresh_shared now b (key n)"
  let ?b = "if ?cached then b else use_slot (key n) b"
  have "set (pb_Used b) \<subset> key ` set (n # nodes) \<union> set (pb_Used b)" if "key n \<notin> set (pb_Used b)" using that by auto
  then have "card (set (pb_Used b)) < card (key ` set (n # nodes) \<union> set (pb_Used b))" if "key n \<notin> set (pb_Used b)"
    using that by (intro psubset_card_mono) auto
  then have "int (length (pb_Used b)) < pb_Limit b" if "key n \<notin> set (pb_Used b)"
    using that Cons.prems(1,3) distinct_card [of "pb_Used b"] by fastforce
  then have step: "claim_loop now key (n # nodes) b accepted [] = claim_loop now key nodes ?b (accepted @ [n]) []"
    using Cons.prems(2) [of n] by (auto simp: Let_def)
  have "distinct (pb_Used ?b)" using Cons.prems(1) by (simp add: use_slot_def)
  moreover have "pb_QualityAttempted ?b (key m) \<Longrightarrow> fresh_shared now ?b (key m)" if "m \<in> set nodes" for m
    using Cons.prems(2) [of m] that by (simp split: if_splits)
  moreover have "int (card (key ` set nodes \<union> set (pb_Used ?b))) \<le> pb_Limit ?b"
  proof -
    have "card (key ` set nodes \<union> set (pb_Used ?b)) \<le> card (key ` set (n # nodes) \<union> set (pb_Used b))"
      by (rule card_mono) auto
    moreover have "pb_Limit ?b = pb_Limit b" by simp
    ultimately show ?thesis using Cons.prems(3) by (simp only: of_nat_le_iff [symmetric, where 'a = int])
  qed
  ultimately obtain b' where "claim_loop now key nodes ?b (accepted @ [n]) [] = ((accepted @ [n]) @ nodes, [], b')"
    using Cons.IH [of ?b "accepted @ [n]"] by blast
  then show ?case using step by simp
qed simp

lemma card_new_keys:
  assumes "distinct (pb_Used b)"
  shows "card (key ` set targets \<union> set (pb_Used b)) = length (new_keys key b targets) + length (pb_Used b)"
proof -
  have "key ` set targets \<union> set (pb_Used b) = set (new_keys key b targets) \<union> set (pb_Used b)" by (auto simp: new_keys_def)
  moreover have "set (new_keys key b targets) \<inter> set (pb_Used b) = {}" by (auto simp: new_keys_def)
  moreover have "card (set (new_keys key b targets)) = length (new_keys key b targets)" "card (set (pb_Used b)) = length (pb_Used b)"
    using assms distinct_card [of "new_keys key b targets"] by (simp_all add: new_keys_def distinct_card)
  ultimately show ?thesis by (simp add: card_Un_disjoint)
qed

lemma budget_ok_same_slots: "pb_Used b' = pb_Used b \<Longrightarrow> pb_Limit b' = pb_Limit b \<Longrightarrow> budget_ok b' = budget_ok b"
  by (simp add: budget_ok_def)

lemma sharedQualityProbe_slots:
  "sharedQualityProbe now probe policyID node contract (Some b) = (evidence, b') \<Longrightarrow>
   \<exists>c. b' = Some c \<and> pb_Used c = pb_Used b \<and> pb_Limit c = pb_Limit b"
  by (auto simp: sharedQualityProbe_def Let_def split: if_splits)

lemma probe_each_slots:
  "pb_Used (snd (probe_each now probe policyID contract nodes s)) = pb_Used (snd s) \<and>
   pb_Limit (snd (probe_each now probe policyID contract nodes s)) = pb_Limit (snd s)"
proof (induction now probe policyID contract nodes s rule: probe_each.induct)
  case (2 now probe policyID contract node nodes result budget)
  obtain e b' where p: "sharedQualityProbe now probe policyID node contract (Some budget) = (e, b')" by fastforce
  then obtain c where c: "b' = Some c" "pb_Used c = pb_Used budget" "pb_Limit c = pb_Limit budget"
    using sharedQualityProbe_slots by blast
  show ?case using "2.IH" [OF p [symmetric]] p c by simp
qed simp

lemma store_shared_slots [budget_simps]:
  "pb_Used (fold (store_shared now policyID contract) answers b) = pb_Used b"
  "pb_Limit (fold (store_shared now policyID contract) answers b) = pb_Limit b"
  by (induction answers arbitrary: b) (simp_all add: store_shared_def Let_def split: prod.split)

lemma release_ok: "budget_ok b \<Longrightarrow> budget_ok (release_unattempted key nodes b)"
proof -
  assume "budget_ok b"
  moreover have "length (pb_Used (release_unattempted key nodes b)) \<le> length (pb_Used b)" by (simp add: release_unattempted_def)
  moreover have "pb_Limit (release_unattempted key nodes b) = pb_Limit b" "distinct (pb_Used b) \<Longrightarrow> distinct (pb_Used (release_unattempted key nodes b))"
    by (simp_all add: release_unattempted_def)
  ultimately show ?thesis unfolding budget_ok_def by auto
qed

lemma sharedQualityBatch_ok:
  assumes "budget_ok b"
  shows "budget_ok (snd (sharedQualityBatch now lanes probe parallel policyID contract item nodes b))"
proof (cases "sharedPairWouldExpire now lanes policyID contract item nodes b")
  case True
  then show ?thesis
    using release_ok [OF assms] by (simp add: sharedQualityBatch_def Let_def budget_ok_same_slots [OF defer_simps])
next
  case False
  have "pb_Used (snd (sharedQualityBatch now lanes probe parallel policyID contract item nodes b)) = pb_Used b \<and>
      pb_Limit (snd (sharedQualityBatch now lanes probe parallel policyID contract item nodes b)) = pb_Limit b"
    using False by (simp add: sharedQualityBatch_def Let_def probe_each_slots budget_simps split: option.split)
  then show ?thesis using assms by (simp add: budget_ok_def)
qed

lemma claim_ok:
  assumes "budget_ok b" and "claimProbeTargets now policyID contract targets atomicPair (Some b) = (accepted, deferred, Some b')"
  shows "budget_ok b'"
proof -
  let ?key = "\<lambda>node. probeKey policyID node contract"
  obtain acc de c where l: "claim_loop now ?key targets b [] [] = (acc, de, c)" by (metis prod_cases3)
  have "budget_ok c" using claim_loop_ok [OF assms(1) l] by blast
  moreover have "b' = b \<or> b' = deferSharedProbe now policyID b \<or> b' = c \<or> b' = deferSharedProbe now policyID c"
    using assms(2) l by (auto simp: claimProbeTargets_def Let_def split: if_splits)
  ultimately show ?thesis using assms(1) by (auto simp: budget_ok_same_slots [OF defer_simps])
qed

lemma budget_step_ok: "budget_step b b' \<Longrightarrow> budget_ok b \<Longrightarrow> budget_ok b'"
proof (induction rule: budget_step.induct)
  case (new_tick b limit exists policyIDs)
  then show ?case by (simp add: beginProbeBudget_def budget_ok_def)
next
  case (probe now probe policyID node contract b evidence b')
  then show ?case using sharedQualityProbe_slots by (metis budget_ok_same_slots option.inject)
next
  case (interruption err b err' b')
  then show ?case by (auto simp: takeSharedProbeInterruption_def budget_ok_def split: if_splits)
qed (simp_all add: claim_ok sharedQualityBatch_ok)

section \<open>Properties\<close>

text \<open>C19: The shared budget is never exceeded and never leaks a target. In every sequence of ticks, claims, probes and
  batches the used slots are distinct and at most the limit. A claim splits its targets into accepted and deferred
  ones, every accepted target has a slot or fresh shared evidence, and a claim for a pair is all or nothing.\<close>

theorem probe_budget_never_exceeded:
  assumes "budget_step\<^sup>*\<^sup>* (fst (beginProbeBudget limit exists policyIDs None)) b"
    and "claimProbeTargets now policyID contract targets atomicPair (Some b) = (accepted, deferred, b')" and "0 < pb_Limit b"
  shows "\<exists>c. b' = Some c \<and> distinct (pb_Used c) \<and> int (length (pb_Used c)) \<le> pb_Limit c \<and> pb_Limit c = pb_Limit b \<and>
    mset accepted + mset deferred = mset targets \<and>
    (\<forall>n \<in> set accepted. fresh_shared now b (probeKey policyID n contract) \<or> probeKey policyID n contract \<in> set (pb_Used c)) \<and>
    (atomicPair \<longrightarrow> accepted = [] \<and> deferred = targets \<or> accepted = targets \<and> deferred = [])"
proof -
  let ?key = "\<lambda>node. probeKey policyID node contract"
  have "budget_ok (fst (beginProbeBudget limit exists policyIDs None))" by (simp add: beginProbeBudget_def budget_ok_def)
  with assms(1) have ok: "budget_ok b" by (induction rule: rtranclp_induct) (auto intro: budget_step_ok)
  obtain acc de c where l: "claim_loop now ?key targets b [] [] = (acc, de, c)" by (metis prod_cases3)
  note loop = claim_loop_ok [OF ok l] claim_loop_partition [OF l]
  define blocked where "blocked \<longleftrightarrow> atomicPair \<and> (list_ex (\<lambda>node. pb_QualityAttempted b (?key node) \<and> \<not> fresh_shared now b (?key node)) targets \<or>
      pb_Limit b < int (length (new_keys ?key b targets) + length (pb_Used b)))"
  have result: "(accepted, deferred, b') = (if blocked then ([], targets, Some (deferSharedProbe now policyID b))
      else (acc, de, Some (if de \<noteq> [] then deferSharedProbe now policyID c else c)))"
    unfolding assms(2) [symmetric] claimProbeTargets_def option.case Let_def blocked_def [symmetric] l prod.case using assms(3) by simp
  have all: "de = []" "acc = targets" if "\<not> blocked" "atomicPair"
  proof -
    have "int (card (?key ` set targets \<union> set (pb_Used b))) \<le> pb_Limit b"
      using that ok card_new_keys [of b ?key targets] by (auto simp: blocked_def budget_ok_def)
    then have "\<exists>b'. claim_loop now ?key targets b [] [] = ([] @ targets, [], b')"
      using that ok by (intro claim_loop_all) (auto simp: blocked_def budget_ok_def list_ex_iff)
    then show "de = []" "acc = targets" using l by auto
  qed
  show ?thesis
  proof (cases blocked)
    case True
    then show ?thesis using result ok assms(3) by (auto simp: budget_ok_def)
  next
    case False
    let ?c = "if de \<noteq> [] then deferSharedProbe now policyID c else c"
    have c: "pb_Used ?c = pb_Used c" "pb_Limit ?c = pb_Limit c" by simp_all
    have "distinct (pb_Used ?c) \<and> int (length (pb_Used ?c)) \<le> pb_Limit ?c \<and> pb_Limit ?c = pb_Limit b"
      unfolding c using loop(1) assms(3) by (auto simp: budget_ok_def)
    moreover have "\<forall>n \<in> set acc. fresh_shared now b (?key n) \<or> ?key n \<in> set (pb_Used ?c)" unfolding c using loop(2) by simp
    moreover have "mset acc + mset de = mset targets" using loop(2) by simp
    ultimately show ?thesis using result False all by auto
  qed
qed

definition one_node :: healthPolicyContract where
  "one_node = \<lparr>hc_Policy = \<lparr>hp_SwitchImprovementMS = 50, hp_ActiveCheckSeconds = 60, hp_ProbeBatchSize = 10, hp_ActiveLivenessSeconds = 3,
     hp_CandidateServiceIDs = [], hp_CandidateServiceAccess = (\<lambda>_. [])\<rparr>,
     hc_Mode = ''best'', hc_Groups = [], hc_Candidates = [''A'', ''B''],
     hc_Nodes = (\<lambda>_. \<lparr>hn_SubscriptionID = [], hn_Label = [], hn_Country = [], hn_Protocol = [], hn_Transport = [], hn_Fingerprint = []\<rparr>)\<rparr>"

theorem probe_budget_never_exceeded_witness:
  "\<exists>c. claimProbeTargets 0 ''p'' one_node [''A'', ''B''] False (Some (fst (beginProbeBudget 1 (\<lambda>_. True) [] None))) = ([''A''], [''B''], Some c) \<and>
     int (length (pb_Used c)) \<le> pb_Limit c"
proof -
  let ?b = "fst (beginProbeBudget 1 (\<lambda>_. True) [] None)"
  obtain c where r: "claimProbeTargets 0 ''p'' one_node [''A'', ''B''] False (Some ?b) = ([''A''], [''B''], c)"
    by (simp add: claimProbeTargets_def beginProbeBudget_def one_node_def probeKey_def fresh_shared_def use_slot_def Let_def)
  have "0 < pb_Limit ?b" by (simp add: beginProbeBudget_def)
  from probe_budget_never_exceeded [OF rtranclp.rtrancl_refl r this] show ?thesis using r by blast
qed

end
