(* ===== verification/Health_Liveness.thy ===== *)
theory Health_Liveness
  imports Health_Budget
begin

text \<open>
  The fast check of the active path: \<^verbatim>\<open>internal/agent/health_liveness.go\<close>, with the confirmation thresholds and
  the underlay check of \<^verbatim>\<open>internal/agent/health_failover.go\<close> and \<^verbatim>\<open>rememberWorkingSelection\<close> of
  \<^verbatim>\<open>internal/agent/health_startup.go\<close>. The runtime (the selector, the probes and the underlay probe) is a
  parameter of the model; events, traces and published comparisons are left out.
\<close>

section \<open>Confirmation thresholds\<close>

definition failureConfirmationThreshold :: "probeFailureClass \<Rightarrow> int \<Rightarrow> int" where
  "failureConfirmationThreshold failure configured = (case failure of
     FailureFatal \<Rightarrow> 1 | FailureTLS \<Rightarrow> 1 | FailureTimeout \<Rightarrow> min configured 2 | _ \<Rightarrow> configured)"

definition startupFailureConfirmationThreshold :: "probeFailureClass \<Rightarrow> int \<Rightarrow> bool \<Rightarrow> int" where
  "startupFailureConfirmationThreshold failure configured warm =
     (let threshold = failureConfirmationThreshold failure configured in
      if warm \<and> failure \<noteq> FailureTLS \<and> 1 < configured \<and> threshold < 2 then 2 else threshold)"

lemma threshold_bounds:
  assumes "1 \<le> configured"
  shows "1 \<le> failureConfirmationThreshold failure configured" "failureConfirmationThreshold failure configured \<le> configured"
    "1 \<le> startupFailureConfirmationThreshold failure configured warm" "startupFailureConfirmationThreshold failure configured warm \<le> configured"
  using assms
  by (auto simp: failureConfirmationThreshold_def startupFailureConfirmationThreshold_def Let_def split: probeFailureClass.splits)

section \<open>Underlay\<close>

record underlayEvidence =
  ue_Known :: bool
  ue_WANOK :: bool
  ue_DNSOK :: bool

text \<open>\<open>probe\<close> is the underlay status when the runtime has an underlay probe.\<close>

definition suppressForUnderlayFailure ::
  "nanos \<Rightarrow> underlayEvidence option \<Rightarrow> probeFailureClass \<Rightarrow> policyHealthState \<Rightarrow> bool \<times> policyHealthState" where
  "suppressForUnderlayFailure now probe failure item =
     (if failure = FailureTLS then (False, item\<lparr>ph_UnderlayFailure := [], ph_UnderlayCheckedAt := None\<rparr>)
      else case probe of
        None \<Rightarrow> (False, item)
      | Some status \<Rightarrow>
          if \<not> ue_Known status then (False, item)
          else
            let item = item\<lparr>ph_UnderlayCheckedAt := Some now\<rparr> in
            if \<not> ue_WANOK status then (True, item\<lparr>ph_UnderlayFailure := ''wan''\<rparr>)
            else if \<not> ue_DNSOK status then (True, item\<lparr>ph_UnderlayFailure := ''dns''\<rparr>)
            else (False, item\<lparr>ph_UnderlayFailure := []\<rparr>))"

definition clearUnderlayFailure :: "policyHealthState \<Rightarrow> bool \<times> policyHealthState" where
  "clearUnderlayFailure item =
     (ph_UnderlayFailure item \<noteq> [] \<or> ph_UnderlayCheckedAt item \<noteq> None,
      item\<lparr>ph_UnderlayFailure := [], ph_UnderlayCheckedAt := None\<rparr>)"

lemma suppress_frame:
  assumes "suppressForUnderlayFailure now probe failure item = (s, item')"
  shows "ph_AvailabilityFailures item' = ph_AvailabilityFailures item" "ph_Selected item' = ph_Selected item"
    "ph_LastProbeAt item' = ph_LastProbeAt item" "ph_FailureClass item' = ph_FailureClass item"
    "s \<longleftrightarrow> failure \<noteq> FailureTLS \<and> (\<exists>u. probe = Some u \<and> ue_Known u \<and> \<not> (ue_WANOK u \<and> ue_DNSOK u))"
    "s \<Longrightarrow> ph_UnderlayFailure item' \<noteq> []"
  using assms by (auto simp: suppressForUnderlayFailure_def Let_def split: if_splits option.splits)

section \<open>The working selection\<close>

definition join_lines :: "string list \<Rightarrow> string" where
  "join_lines xs = (case xs of [] \<Rightarrow> [] | x # ys \<Rightarrow> x @ concat (map (\<lambda>y. CHR 0x0A # y) ys))"

definition rememberWorkingSelection :: "healthPolicyContract \<Rightarrow> policyHealthState \<Rightarrow> bool \<times> policyHealthState" where
  "rememberWorkingSelection contract item =
     (let selected = ph_Selected item;
          w = \<lparr>ws_Selected = selected, ws_Mode = ph_Mode item, ws_CandidateSignature = ph_CandidateSignature item\<rparr>
      in if \<not> ph_RuntimeConfirmed item \<or> ph_RuntimeSelected item \<noteq> selected \<or> \<not> ph_AvailabilityOK item selected \<or>
            selected = ''block'' \<or>
            ep_failureThreshold (policySettings (hc_Policy contract) (hc_Mode contract)) \<le> ph_AvailabilityFailures item selected \<or>
            \<not> contains (hc_Candidates contract) selected \<or> ph_Mode item \<noteq> hc_Mode contract \<or>
            ph_CandidateSignature item \<noteq> join_lines (uniqueCandidates (hc_Candidates contract))
         then (False, item)
         else if ph_LastWorkingSelection item = Some w then (False, item)
         else (True, item\<lparr>ph_LastWorkingSelection := Some w\<rparr>))"

lemma remember_frame [simp]:
  "ph_AvailabilityFailures (snd (rememberWorkingSelection contract item)) = ph_AvailabilityFailures item"
  "ph_Selected (snd (rememberWorkingSelection contract item)) = ph_Selected item"
  "ph_LastProbeAt (snd (rememberWorkingSelection contract item)) = ph_LastProbeAt item"
  "ph_UnderlayFailure (snd (rememberWorkingSelection contract item)) = ph_UnderlayFailure item"
  "ph_FailureClass (snd (rememberWorkingSelection contract item)) = ph_FailureClass item"
  by (simp_all add: rememberWorkingSelection_def Let_def)

text \<open>
  Whether an encrypted path that timed out is kept instead of blocking; \<open>online\<close> asks the runtime for a
  reverse session: \<open>None\<close> when it cannot, \<open>Inl\<close> an error (\<open>True\<close> for a yield).
\<close>

datatype health_error = HealthYield | ProbeSelectorUnavailable | RuntimeError string

definition retainTimedOutSelection ::
  "(string \<Rightarrow> (bool + bool) option) \<Rightarrow> string \<Rightarrow> string list \<Rightarrow> healthPolicyContract \<Rightarrow> policyHealthState \<Rightarrow> health_error + bool" where
  "retainTimedOutSelection online selected candidates contract item =
     (if \<not> ph_RuntimeConfirmed item \<or> selected = [] \<or> selected = ''block'' \<or> \<not> contains candidates selected \<or>
         ph_FailureClass item selected \<noteq> FailureTimeout
      then Inr False
      else
        let protocol = hn_Protocol (hc_Nodes contract selected) in
        if protocol = ''vless'' \<or> protocol = ''reality'' then Inr True
        else if protocol = ''xray-reverse'' then
          (case online selected of
             None \<Rightarrow> Inr False
           | Some (Inl yield) \<Rightarrow> Inl (if yield then HealthYield else ProbeSelectorUnavailable)
           | Some (Inr on) \<Rightarrow> Inr on)
        else Inr False)"

section \<open>The fast check\<close>

text \<open>What the runtime answers during one check.\<close>

record fast_runtime =
  fr_Current :: "string + string"
  fr_Availability :: probeEvidence
  fr_Confirmation :: "probeEvidence option"
  fr_Interruption :: "health_error option"
  fr_Underlay :: "underlayEvidence option"

text \<open>
  The check returns whether the state changed and an error, or goes on with \<open>tickPolicy\<close>. The controller
  state it uses is the time of the last check of the policy and the request to check now.
\<close>

datatype fast_result = Return bool "health_error option" | TickPolicy

record fast_state =
  fs_item :: policyHealthState
  fs_livenessAt :: "nanos option"
  fs_force :: bool

definition leave :: "bool \<Rightarrow> fast_result" where
  "leave recoverNow = (if recoverNow then TickPolicy else Return True (Some HealthYield))"

text \<open>The evaluation of a failed probe.\<close>

definition active_failed ::
  "nanos \<Rightarrow> fast_runtime \<Rightarrow> probeEvidence \<Rightarrow> bool \<Rightarrow> effectivePolicySettings \<Rightarrow> policyHealthState \<Rightarrow> fast_result \<times> policyHealthState" where
  "active_failed now runtime evidence recoverNow p item =
     (let selected = ph_Selected item;
          item = item\<lparr>ph_FailureClass := (ph_FailureClass item)(selected := pe_Failure evidence)\<rparr>;
          recoveringFromUnderlay = (ph_UnderlayFailure item \<noteq> []);
          (suppressed, item) = suppressForUnderlayFailure now (fr_Underlay runtime) (pe_Failure evidence) item
      in if suppressed then (Return True None, item\<lparr>ph_AvailabilityFailures := (ph_AvailabilityFailures item)(selected := 0)\<rparr>)
         else if recoveringFromUnderlay \<and> ph_UnderlayFailure item = [] \<and> pe_Failure evidence \<noteq> FailureTLS
         then (Return True None, item\<lparr>ph_AvailabilityFailures := (ph_AvailabilityFailures item)(selected := 0)\<rparr>)
         else
           let failures = ph_AvailabilityFailures item selected + 1;
               item = item\<lparr>ph_AvailabilityFailures := (ph_AvailabilityFailures item)(selected := failures)\<rparr>
           in if failureConfirmationThreshold (pe_Failure evidence) (ep_failureThreshold p) \<le> failures
              then (leave recoverNow,
                item\<lparr>ph_AvailabilityFailures := (ph_AvailabilityFailures item)(selected := ep_failureThreshold p),
                     ph_LastProbeAt := (ph_LastProbeAt item)(selected := unix now)\<rparr>)
              else (Return True None, item))"

definition active_answered ::
  "healthPolicyContract \<Rightarrow> bool \<Rightarrow> policyHealthState \<Rightarrow> fast_result \<times> policyHealthState" where
  "active_answered contract changed item =
     (let selected = ph_Selected item;
          wasFailed = (0 < ph_AvailabilityFailures item selected);
          item = item\<lparr>ph_AvailabilityFailures := (ph_AvailabilityFailures item)(selected := 0),
                      ph_FailureClass := (ph_FailureClass item)(selected := FailureNone)\<rparr>;
          (cleared, item) = clearUnderlayFailure item;
          (remembered, item) = rememberWorkingSelection contract item
      in (Return (wasFailed \<or> changed \<or> cleared \<or> remembered) None, item))"

definition checkActiveAvailability ::
  "nanos \<Rightarrow> fast_runtime \<Rightarrow> healthPolicyContract \<Rightarrow> bool \<Rightarrow> fast_state \<Rightarrow> fast_result \<times> fast_state" where
  "checkActiveAvailability now runtime contract recoverNow s =
     (let item = fs_item s; selected = ph_Selected item; p = policySettings (hc_Policy contract) (hc_Mode contract) in
      if \<not> contains (hc_Candidates contract) selected then (leave recoverNow, s)
      else
        let interval = (if 0 < ph_AvailabilityFailures item selected then ep_failureRetry p else ep_liveness p) * second;
            full = \<lfloor>ph_LastProbeAt item selected\<rfloor> * second;
            recent = (case fs_livenessAt s of None \<Rightarrow> full | Some t \<Rightarrow> max t full)
        in if \<not> fs_force s \<and> now - recent < interval then (Return False None, s)
           else
             let (savedChanged, item) = rememberWorkingSelection contract item;
                 s = s\<lparr>fs_force := False, fs_item := item\<rparr>
             in case fr_Current runtime of
                  Inl err \<Rightarrow> (Return True (Some (RuntimeError err)), s\<lparr>fs_item := item\<lparr>ph_RuntimeConfirmed := False\<rparr>\<rparr>)
                | Inr actual \<Rightarrow>
                    if actual \<noteq> selected then (leave recoverNow, s\<lparr>fs_livenessAt := None\<rparr>)
                    else
                      let statusChanged = (\<not> ph_RuntimeConfirmed item \<or> ph_RuntimeError item \<noteq> []);
                          item = item\<lparr>ph_RuntimeConfirmed := True, ph_RuntimeSelected := actual, ph_RuntimeError := []\<rparr>;
                          evidence = (case fr_Confirmation runtime of
                              Some e \<Rightarrow> if 0 < ph_AvailabilityFailures item selected \<and> ph_FailureClass item selected = FailureTimeout
                                then e else fr_Availability runtime
                            | None \<Rightarrow> fr_Availability runtime)
                      in case fr_Interruption runtime of
                           Some err \<Rightarrow> (Return True (Some err), s\<lparr>fs_item := item\<rparr>)
                         | None \<Rightarrow>
                             if pe_LocalFailure evidence
                             then (Return True (Some ProbeSelectorUnavailable), s\<lparr>fs_item := item, fs_livenessAt := Some now\<rparr>)
                             else
                               let (result, item) = (if pe_OK evidence then active_answered contract (statusChanged \<or> savedChanged) item
                                     else active_failed now runtime evidence recoverNow p item)
                               in (result, s\<lparr>fs_item := item, fs_livenessAt := Some now\<rparr>))"

definition tickActiveAvailability ::
  "nanos \<Rightarrow> fast_runtime \<Rightarrow> healthPolicyContract \<Rightarrow> fast_state \<Rightarrow> fast_result \<times> fast_state" where
  "tickActiveAvailability now runtime contract s = checkActiveAvailability now runtime contract True s"

section \<open>Confirmed failures\<close>

definition underlay_down :: "underlayEvidence option \<Rightarrow> bool" where
  "underlay_down probe \<longleftrightarrow> (case probe of Some u \<Rightarrow> ue_Known u \<and> \<not> (ue_WANOK u \<and> ue_DNSOK u) | None \<Rightarrow> False)"

text \<open>A failure that counts: it is not explained by the shared underlay.\<close>

definition counts :: "fast_runtime \<Rightarrow> probeEvidence \<Rightarrow> policyHealthState \<Rightarrow> bool" where
  "counts runtime evidence item \<longleftrightarrow> pe_Failure evidence = FailureTLS \<or> \<not> underlay_down (fr_Underlay runtime) \<and>
     (ph_UnderlayFailure item = [] \<or> (case fr_Underlay runtime of Some u \<Rightarrow> \<not> ue_Known u | None \<Rightarrow> True))"

lemma active_failed_cases:
  fixes item :: policyHealthState
  assumes "active_failed now runtime evidence recoverNow p item = (result, item')"
  defines "selected \<equiv> ph_Selected item" and "n \<equiv> ph_AvailabilityFailures item (ph_Selected item)"
  shows "ph_Selected item' = selected"
    "\<not> counts runtime evidence item \<Longrightarrow> result = Return True None \<and> ph_AvailabilityFailures item' = (ph_AvailabilityFailures item)(selected := 0)"
    "counts runtime evidence item \<Longrightarrow> n + 1 < failureConfirmationThreshold (pe_Failure evidence) (ep_failureThreshold p) \<Longrightarrow>
     result = Return True None \<and> ph_AvailabilityFailures item' = (ph_AvailabilityFailures item)(selected := n + 1)"
    "counts runtime evidence item \<Longrightarrow> failureConfirmationThreshold (pe_Failure evidence) (ep_failureThreshold p) \<le> n + 1 \<Longrightarrow>
     result = leave recoverNow \<and> ph_AvailabilityFailures item' = (ph_AvailabilityFailures item)(selected := ep_failureThreshold p)"
proof -
  let ?item = "item\<lparr>ph_FailureClass := (ph_FailureClass item)(ph_Selected item := pe_Failure evidence)\<rparr>"
  obtain sup item1 where sup: "suppressForUnderlayFailure now (fr_Underlay runtime) (pe_Failure evidence) ?item = (sup, item1)" by fastforce
  note frame = suppress_frame [OF sup]
  define skip where "skip \<longleftrightarrow> sup \<or> (ph_UnderlayFailure item \<noteq> [] \<and> ph_UnderlayFailure item1 = [] \<and> pe_Failure evidence \<noteq> FailureTLS)"
  have counts: "counts runtime evidence item \<longleftrightarrow> \<not> skip"
    using sup unfolding skip_def
    by (auto simp: counts_def underlay_down_def suppressForUnderlayFailure_def Let_def split: if_splits option.splits)
  have eq: "active_failed now runtime evidence recoverNow p item =
      (if skip then (Return True None, item1\<lparr>ph_AvailabilityFailures := (ph_AvailabilityFailures item)(selected := 0)\<rparr>)
       else if failureConfirmationThreshold (pe_Failure evidence) (ep_failureThreshold p) \<le> n + 1
       then (leave recoverNow, item1\<lparr>ph_AvailabilityFailures := (ph_AvailabilityFailures item)(selected := ep_failureThreshold p),
               ph_LastProbeAt := (ph_LastProbeAt item)(selected := unix now)\<rparr>)
       else (Return True None, item1\<lparr>ph_AvailabilityFailures := (ph_AvailabilityFailures item)(selected := n + 1)\<rparr>))"
    using sup frame by (auto simp: active_failed_def Let_def skip_def selected_def n_def)
  show "ph_Selected item' = selected" using assms(1) eq frame(2) by (auto simp: selected_def split: if_splits)
  show "\<not> counts runtime evidence item \<Longrightarrow> result = Return True None \<and> ph_AvailabilityFailures item' = (ph_AvailabilityFailures item)(selected := 0)"
    "counts runtime evidence item \<Longrightarrow> n + 1 < failureConfirmationThreshold (pe_Failure evidence) (ep_failureThreshold p) \<Longrightarrow>
     result = Return True None \<and> ph_AvailabilityFailures item' = (ph_AvailabilityFailures item)(selected := n + 1)"
    "counts runtime evidence item \<Longrightarrow> failureConfirmationThreshold (pe_Failure evidence) (ep_failureThreshold p) \<le> n + 1 \<Longrightarrow>
     result = leave recoverNow \<and> ph_AvailabilityFailures item' = (ph_AvailabilityFailures item)(selected := ep_failureThreshold p)"
    using assms(1) eq counts by auto
qed

lemma active_answered_frame:
  "active_answered contract changed item = (result, item') \<Longrightarrow>
   ph_Selected item' = ph_Selected item \<and> ph_AvailabilityFailures item' = (ph_AvailabilityFailures item)(ph_Selected item := 0) \<and>
   (\<exists>b. result = Return b None)"
  by (auto simp: active_answered_def clearUnderlayFailure_def Let_def split: prod.splits dest!: arg_cong [of _ _ snd])

text \<open>The probe that a check uses: the confirmation probe after a timeout, when there is one.\<close>

definition check_evidence :: "fast_runtime \<Rightarrow> policyHealthState \<Rightarrow> probeEvidence" where
  "check_evidence runtime item = (case fr_Confirmation runtime of
     Some e \<Rightarrow> if 0 < ph_AvailabilityFailures item (ph_Selected item) \<and> ph_FailureClass item (ph_Selected item) = FailureTimeout
       then e else fr_Availability runtime
   | None \<Rightarrow> fr_Availability runtime)"

lemma check_cases:
  fixes s :: fast_state
  assumes run: "checkActiveAvailability now runtime contract recoverNow s = (result, s')"
    and here: "contains (hc_Candidates contract) (ph_Selected (fs_item s))"
  defines "item \<equiv> fs_item s" and "p \<equiv> policySettings (hc_Policy contract) (hc_Mode contract)"
  obtains (quiet) "ph_AvailabilityFailures (fs_item s') = ph_AvailabilityFailures item" "ph_Selected (fs_item s') = ph_Selected item"
      "result \<noteq> TickPolicy \<or> (\<exists>actual. fr_Current runtime = Inr actual \<and> actual \<noteq> ph_Selected item)"
    | (probed) item1 changed where "ph_AvailabilityFailures item1 = ph_AvailabilityFailures item" "ph_Selected item1 = ph_Selected item"
      "ph_UnderlayFailure item1 = ph_UnderlayFailure item" "\<not> pe_LocalFailure (check_evidence runtime item)"
      "(if pe_OK (check_evidence runtime item) then active_answered contract changed item1
        else active_failed now runtime (check_evidence runtime item) recoverNow p item1) = (result, fs_item s')"
proof -
  obtain saved remembered where rem: "rememberWorkingSelection contract item = (saved, remembered)" by fastforce
  have frame: "ph_AvailabilityFailures remembered = ph_AvailabilityFailures item" "ph_Selected remembered = ph_Selected item"
      "ph_UnderlayFailure remembered = ph_UnderlayFailure item" "ph_FailureClass remembered = ph_FailureClass item"
    using remember_frame [of contract item] unfolding rem by simp_all
  define recent where "recent = (case fs_livenessAt s of None \<Rightarrow> \<lfloor>ph_LastProbeAt item (ph_Selected item)\<rfloor> * second
      | Some t \<Rightarrow> max t (\<lfloor>ph_LastProbeAt item (ph_Selected item)\<rfloor> * second))"
  define early where "early \<longleftrightarrow> \<not> fs_force s \<and>
      now - recent < (if 0 < ph_AvailabilityFailures item (ph_Selected item) then ep_failureRetry p else ep_liveness p) * second"
  let ?item1 = "remembered\<lparr>ph_RuntimeConfirmed := True, ph_RuntimeSelected := ph_Selected item, ph_RuntimeError := []\<rparr>"
  let ?changed = "(\<not> ph_RuntimeConfirmed remembered \<or> ph_RuntimeError remembered \<noteq> []) \<or> saved"
  let ?e = "check_evidence runtime item"
  have e: "(case fr_Confirmation runtime of
        Some e \<Rightarrow> if 0 < ph_AvailabilityFailures ?item1 (ph_Selected item) \<and> ph_FailureClass ?item1 (ph_Selected item) = FailureTimeout
          then e else fr_Availability runtime
      | None \<Rightarrow> fr_Availability runtime) = ?e"
    by (simp add: check_evidence_def frame split: option.split)
  note run' = run [unfolded checkActiveAvailability_def Let_def, folded item_def p_def, folded recent_def, folded early_def,
      unfolded rem prod.case, simplified here [folded item_def] not_not if_True if_False]
  consider "early" | err where "\<not> early" "fr_Current runtime = Inl err"
    | actual where "\<not> early" "fr_Current runtime = Inr actual" "actual \<noteq> ph_Selected item"
    | err where "\<not> early" "fr_Current runtime = Inr (ph_Selected item)" "fr_Interruption runtime = Some err"
    | "\<not> early" "fr_Current runtime = Inr (ph_Selected item)" "fr_Interruption runtime = None" "pe_LocalFailure ?e"
    | "\<not> early" "fr_Current runtime = Inr (ph_Selected item)" "fr_Interruption runtime = None" "\<not> pe_LocalFailure ?e"
    by (metis option.exhaust sum.exhaust)
  then show thesis
  proof cases
    case 1
    then show thesis using run' by (intro quiet) (auto simp: item_def)
  next
    case 2
    then show thesis using run' frame by (intro quiet) auto
  next
    case 3
    then show thesis using run' frame by (intro quiet) auto
  next
    case 4
    then show thesis using run' frame by (intro quiet) auto
  next
    case 5
    then show thesis using run' frame e by (intro quiet) auto
  next
    case 6
    have "(if pe_OK ?e then active_answered contract ?changed ?item1 else active_failed now runtime ?e recoverNow p ?item1) = (result, fs_item s')"
      using run' 6 e by (auto split: prod.splits if_splits)
    then show thesis using 6 frame by (intro probed [of ?item1 ?changed]) simp_all
  qed
qed

section \<open>Properties\<close>

text \<open>C21: The fast check gives up the active path only on a confirmed failure. For an active path that is a candidate and
  that the selector shows, the check changes neither the selection nor the count of another path. It goes on to
  the failover only after a failed probe that is neither local nor explained by the shared WAN or DNS, and only
  when the count reaches the threshold of its failure class; the count is then the configured maximum. In every
  other case the count stays, is cleared, or grows by one and remains below that threshold.\<close>

theorem fast_check_confirms_failures:
  assumes run: "checkActiveAvailability now runtime contract True s = (result, s')"
    and here: "contains (hc_Candidates contract) (ph_Selected (fs_item s))"
    and current: "fr_Current runtime = Inr (ph_Selected (fs_item s))"
  defines "item \<equiv> fs_item s" and "p \<equiv> policySettings (hc_Policy contract) (hc_Mode contract)"
  defines "n \<equiv> ph_AvailabilityFailures item (ph_Selected item)" and "n' \<equiv> ph_AvailabilityFailures (fs_item s') (ph_Selected item)"
  defines "evidence \<equiv> check_evidence runtime item"
  shows "ph_Selected (fs_item s') = ph_Selected item \<and>
    (result = TickPolicy \<longrightarrow> \<not> pe_OK evidence \<and> \<not> pe_LocalFailure evidence \<and> counts runtime evidence item \<and>
       failureConfirmationThreshold (pe_Failure evidence) (ep_failureThreshold p) \<le> n + 1 \<and> n' = ep_failureThreshold p) \<and>
    (result \<noteq> TickPolicy \<longrightarrow> n' = n \<or> n' = 0 \<or>
       n' = n + 1 \<and> \<not> pe_OK evidence \<and> n' < failureConfirmationThreshold (pe_Failure evidence) (ep_failureThreshold p)) \<and>
    (\<forall>c. c \<noteq> ph_Selected item \<longrightarrow> ph_AvailabilityFailures (fs_item s') c = ph_AvailabilityFailures item c)"
  using run here
proof (cases rule: check_cases)
  case quiet
  then show ?thesis using current by (auto simp: n_def n'_def item_def)
next
  case (probed item1 changed)
  show ?thesis
  proof (cases "pe_OK evidence")
    case True
    then have "active_answered contract changed item1 = (result, fs_item s')"
      using probed(5) by (simp add: evidence_def item_def)
    from active_answered_frame [OF this] show ?thesis using probed(1,2) by (auto simp: n'_def item_def)
  next
    case False
    then have f: "active_failed now runtime evidence True p item1 = (result, fs_item s')"
      using probed(5) by (simp add: evidence_def item_def p_def)
    have same: "counts runtime evidence item1 \<longleftrightarrow> counts runtime evidence item" using probed(3) by (simp add: counts_def item_def)
    show ?thesis
      using active_failed_cases [OF f] False probed(1,2,4) unfolding same
      by (cases "counts runtime evidence item";
          cases "failureConfirmationThreshold (pe_Failure evidence) (ep_failureThreshold p) \<le> n + 1")
        (auto simp: n_def n'_def item_def evidence_def leave_def not_le)
  qed
qed

definition timed_out :: fast_runtime where
  "timed_out = \<lparr>fr_Current = Inr ''A'', fr_Availability = no_evidence\<lparr>pe_Failure := FailureTimeout\<rparr>, fr_Confirmation = None,
     fr_Interruption = None, fr_Underlay = None\<rparr>"

definition on_A :: "int \<Rightarrow> fast_state" where
  "on_A n = \<lparr>fs_item = newPolicyHealthState\<lparr>ph_Selected := ''A'', ph_AvailabilityFailures := (\<lambda>_. n)\<rparr>, fs_livenessAt = None, fs_force = True\<rparr>"

theorem fast_check_confirms_failures_witness:
  "fst (checkActiveAvailability 0 timed_out one_node True (on_A 1)) = TickPolicy \<and>
   ph_AvailabilityFailures (fs_item (snd (checkActiveAvailability 0 timed_out one_node True (on_A 1)))) ''A'' = 3 \<and>
   fst (checkActiveAvailability 0 timed_out one_node True (on_A 0)) = Return True None"
proof -
  have run: "checkActiveAvailability 0 timed_out one_node True (on_A 1) = (TickPolicy, snd (checkActiveAvailability 0 timed_out one_node True (on_A 1)))"
      "fst (checkActiveAvailability 0 timed_out one_node True (on_A 0)) = Return True None"
    by (simp_all add: checkActiveAvailability_def active_failed_def suppressForUnderlayFailure_def failureConfirmationThreshold_def
        rememberWorkingSelection_def timed_out_def on_A_def one_node_def newPolicyHealthState_def no_evidence_def leave_def
        policySettings_def defaultInt_def Let_def)
  have "ph_AvailabilityFailures (fs_item (snd (checkActiveAvailability 0 timed_out one_node True (on_A 1)))) ''A'' = 3"
    using fast_check_confirms_failures [OF run(1)] by (simp add: on_A_def one_node_def timed_out_def policySettings_def)
  then show ?thesis using run by (metis fst_conv)
qed

end
