(* ===== verification/Health_Tick.thy ===== *)
theory Health_Tick
  imports Health_Liveness
begin

text \<open>
  The second half of \<^verbatim>\<open>tickPolicy\<close> in \<^verbatim>\<open>internal/agent/health.go\<close>: from the evidence that the probes of a tick
  gave to the committed state. The evidence is an association list, as the code iterates over it; the answers
  of the runtime (a retained selection, a failing \<^verbatim>\<open>Select\<close>) are arguments, the \<^verbatim>\<open>Select\<close> calls that succeed are
  part of the result, and the trace and the fields that are only published are left out.
\<close>

section \<open>Committing evidence\<close>

type_synonym evidence_list = "(string \<times> probeEvidence) list"

definition commit_now :: "evidence_list \<Rightarrow> nanos \<Rightarrow> nanos" where
  "commit_now measured now =
     fold (\<lambda>(_, e) t. case pe_ObservedAt e of Some observed \<Rightarrow> if t < observed then observed else t | None \<Rightarrow> t) measured now"

definition put_good :: "string \<Rightarrow> rat \<Rightarrow> (string \<times> rat) list \<Rightarrow> (string \<times> rat) list" where
  "put_good c t goods = (c, t) # filter (\<lambda>(d, _). d \<noteq> c) goods"

definition commit_time :: "nanos \<Rightarrow> string \<times> probeEvidence \<Rightarrow> policyHealthState \<Rightarrow> policyHealthState" where
  "commit_time now answer item =
     (let (c, e) = answer; observed = unix (probeObservationTime now e);
          item = item\<lparr>ph_LastProbeAt := (ph_LastProbeAt item)(c := observed)\<rparr>
      in if pe_OK e then item\<lparr>ph_LastGoodAt := put_good c observed (ph_LastGoodAt item)\<rparr> else item)"

definition drop_unmeasured :: "evidence_list \<Rightarrow> evidence_list" where
  "drop_unmeasured measured = map (\<lambda>(c, e). (c, if pe_QualityUnmeasured e then e\<lparr>pe_DelayMS := None\<rparr> else e)) measured"

section \<open>Evaluating a candidate\<close>

definition new_sample :: "nanos \<Rightarrow> probeEvidence \<Rightarrow> healthSample" where
  "new_sample now e = \<lparr>hs_At = unix (probeObservationTime now e), hs_ObservedAt = qualityObservationAt now e, hs_OK = pe_OK e,
     hs_DelayMS = pe_DelayMS e\<rparr>"

definition next_samples ::
  "nanos \<Rightarrow> string \<Rightarrow> effectivePolicySettings \<Rightarrow> probeEvidence option \<Rightarrow> healthSample list \<Rightarrow> healthSample list" where
  "next_samples now mode p evidence samples =
     (let samples = (case evidence of
          Some e \<Rightarrow> if \<not> pe_OK e \<or> pe_PrimaryQualityFailed e \<or> pe_DelayMS e \<noteq> None \<and> \<not> pe_QualityUnmeasured e
            then samples @ [new_sample now e] else samples
        | None \<Rightarrow> samples)
      in if mode = ''best'' then recentQualitySamples now samples p
         else if 1 < length samples then [last samples] else samples)"

definition typical_delay :: "healthSample list \<Rightarrow> int option" where
  "typical_delay samples =
     (if good_delays samples \<noteq> [] \<and> samples \<noteq> [] \<and> hs_OK (last samples) \<and> hs_DelayMS (last samples) \<noteq> None
      then medianInt (good_delays samples) else None)"

text \<open>The counters of a measured candidate.\<close>

definition count_evidence ::
  "string \<Rightarrow> bool \<Rightarrow> effectivePolicySettings \<Rightarrow> string \<Rightarrow> probeEvidence \<Rightarrow> policyHealthState \<Rightarrow> policyHealthState" where
  "count_evidence selected warm p c e item =
     (let item = (if pe_OK e then
             (let item = item\<lparr>ph_FailureClass := (ph_FailureClass item)(c := FailureNone)\<rparr>
              in if c = selected then snd (clearUnderlayFailure item) else item)
           else item\<lparr>ph_FailureClass := (ph_FailureClass item)(c := pe_Failure e)\<rparr>);
          probeQuality = (pe_OK e \<and> pe_DelayMS e \<noteq> None \<and> \<not> pe_QualityUnmeasured e);
          failures = (if probeQuality \<or> pe_OK e \<and> pe_DelayMS e = None \<and> \<not> pe_PrimaryQualityFailed e then 0 else ph_Failures item c + 1);
          unavailable = (if pe_OK e then 0
            else if startupFailureConfirmationThreshold (pe_Failure e) (ep_failureThreshold p) (warm \<and> c = selected) \<le>
                   ph_AvailabilityFailures item c + 1
              then ep_failureThreshold p else ph_AvailabilityFailures item c + 1);
          recoveries = (if pe_OK e \<and> pe_DelayMS e = None then 0 else if probeQuality then ph_Recoveries item c + 1 else 0)
      in item\<lparr>ph_Failures := (ph_Failures item)(c := failures),
              ph_AvailabilityFailures := (ph_AvailabilityFailures item)(c := unavailable),
              ph_Recoveries := (ph_Recoveries item)(c := recoveries)\<rparr>)"

record tick_view =
  tv_medians :: "string \<Rightarrow> int option"
  tv_quality :: "string \<Rightarrow> bool"
  tv_available :: "string \<Rightarrow> bool"

definition evaluate_candidate ::
  "nanos \<Rightarrow> string \<Rightarrow> string \<Rightarrow> bool \<Rightarrow> effectivePolicySettings \<Rightarrow> (string \<rightharpoonup> probeEvidence) \<Rightarrow> string \<Rightarrow>
   policyHealthState \<times> tick_view \<Rightarrow> policyHealthState \<times> tick_view" where
  "evaluate_candidate now mode selected warm p measured c s =
     (let (item, view) = s;
          samples = next_samples now mode p (measured c) (ph_Samples item c);
          item = item\<lparr>ph_Samples := (ph_Samples item)(c := samples)\<rparr>;
          typical = typical_delay samples;
          failed = (samples \<noteq> [] \<and> \<not> hs_OK (last samples));
          item = (case measured c of Some e \<Rightarrow> count_evidence selected warm p c e item | None \<Rightarrow> item);
          available = (case measured c of Some e \<Rightarrow> pe_OK e | None \<Rightarrow> False) \<or>
            (samples \<noteq> [] \<and> hs_OK (last samples) \<and> ph_AvailabilityFailures item c < ep_failureThreshold p);
          queue = (case measured c of
              Some e \<Rightarrow> pe_OK e \<and> 0 < ph_Recoveries item c \<and> ph_Recoveries item c < ep_recoveryThreshold p \<and> \<not> contains (ph_ScanQueue item) c
            | None \<Rightarrow> False);
          item = (if queue then item\<lparr>ph_ScanQueue := ph_ScanQueue item @ [c]\<rparr> else item)
      in (item, view\<lparr>tv_medians := (tv_medians view)(c := typical),
                     tv_quality := (tv_quality view)(c := (typical \<noteq> None \<and> \<not> failed)),
                     tv_available := (tv_available view)(c := available)\<rparr>))"

definition empty_view :: tick_view where
  "empty_view = \<lparr>tv_medians = (\<lambda>_. None), tv_quality = (\<lambda>_. False), tv_available = (\<lambda>_. False)\<rparr>"

definition evaluate_candidates ::
  "nanos \<Rightarrow> string \<Rightarrow> string \<Rightarrow> bool \<Rightarrow> effectivePolicySettings \<Rightarrow> (string \<rightharpoonup> probeEvidence) \<Rightarrow> string list \<Rightarrow> policyHealthState \<Rightarrow>
   policyHealthState \<times> tick_view" where
  "evaluate_candidates now mode selected warm p measured candidates item =
     fold (evaluate_candidate now mode selected warm p measured) candidates (item, empty_view)"

section \<open>Deciding\<close>

fun cold_loop :: "(string \<rightharpoonup> probeEvidence) \<Rightarrow> string list \<Rightarrow> string \<Rightarrow> int \<Rightarrow> string" where
  "cold_loop measured [] best delay = best"
| "cold_loop measured (c # cs) best delay =
     (case measured c of
        Some e \<Rightarrow> (case (pe_OK e, pe_DelayMS e) of
           (True, Some d) \<Rightarrow> if 0 < d \<and> (best = [] \<or> d < delay) then cold_loop measured cs c d else cold_loop measured cs best delay
         | _ \<Rightarrow> cold_loop measured cs best delay)
      | None \<Rightarrow> cold_loop measured cs best delay)"

text \<open>
  \<open>retain\<close> is the answer of \<open>retainTimedOutSelection\<close>, \<open>cold\<close> that the policy has no history,
  \<open>emergency\<close> the reason of a switch that the emergency batch already made, and \<open>replaced\<close> that the
  tick replaced a removed path.
\<close>

definition tick_desire ::
  "nanos \<Rightarrow> string \<Rightarrow> string \<Rightarrow> string list \<Rightarrow> (string \<Rightarrow> int) \<Rightarrow> (string \<rightharpoonup> probeEvidence) \<Rightarrow> tick_view \<Rightarrow> policyHealthState \<Rightarrow>
   effectivePolicySettings \<Rightarrow> bool \<Rightarrow> bool \<Rightarrow> string option \<Rightarrow> bool \<Rightarrow> string \<times> string" where
  "tick_desire now mode selected candidates groups measured view item p retain cold emergency replaced =
     (let (desired, reason) = selectDesired now mode selected candidates groups (tv_medians view) measured (tv_quality view) (tv_available view) item p;
          (desired, reason) = (if desired = ''block'' \<and> reason = ''all-candidates-unavailable'' \<and> retain then (selected, []) else (desired, reason));
          best = cold_loop measured candidates [] 0;
          (desired, reason) = (if cold \<and> mode = ''best'' \<and> emergency = None \<and> best \<noteq> [] \<and> best \<noteq> selected
            then (best, ''initial-lowest-latency'') else (desired, reason))
      in case emergency of
           Some why \<Rightarrow> (selected, why)
         | None \<Rightarrow> if replaced \<and> selected \<noteq> ''block'' \<and> ph_AvailabilityFailures item selected < ep_failureThreshold p
             then (selected, []) else (desired, reason))"

definition tick_comparison ::
  "nanos \<Rightarrow> string \<Rightarrow> string \<Rightarrow> string \<Rightarrow> string \<Rightarrow> (string \<rightharpoonup> probeEvidence) \<Rightarrow> tick_view \<Rightarrow> policyHealthState \<Rightarrow> effectivePolicySettings \<Rightarrow>
   optimizationComparison option" where
  "tick_comparison now mode selected desired reason measured view item p =
     (if mode = ''best'' \<and> reason = ''meaningfully-faster''
      then regularOptimizationComparison now selected desired measured item (tv_quality view desired) (tv_available view desired) p
      else if mode = ''best'' \<and> ph_OptimizationCandidate item \<noteq> []
      then (let c = ph_OptimizationCandidate item in
            regularOptimizationComparison now selected c measured item (tv_quality view c) (tv_available view c) p)
      else None)"

definition tick_decide ::
  "nanos \<Rightarrow> string \<Rightarrow> string \<Rightarrow> string list \<Rightarrow> (string \<Rightarrow> int) \<Rightarrow> (string \<rightharpoonup> probeEvidence) \<Rightarrow> tick_view \<Rightarrow> policyHealthState \<Rightarrow>
   effectivePolicySettings \<Rightarrow> bool \<Rightarrow> bool \<Rightarrow> string option \<Rightarrow> bool \<Rightarrow> (string \<times> string) \<times> policyHealthState" where
  "tick_decide now mode selected candidates groups measured view item p retain cold emergency replaced =
     (let (desired, reason) = tick_desire now mode selected candidates groups measured view item p retain cold emergency replaced
      in gatePlannedOptimization now selected desired reason
           (tick_comparison now mode selected desired reason measured view item p) item p)"

section \<open>Settling a tick\<close>

definition tick_settings :: "healthPolicyContract \<Rightarrow> string list \<Rightarrow> effectivePolicySettings" where
  "tick_settings contract candidates =
     (let p = policySettings (hc_Policy contract) (hc_Mode contract) in
      if hc_Mode contract = ''priority'' then p\<lparr>ep_shortlist := int (length candidates)\<rparr> else p)"

text \<open>What a tick knows when its probes are done; \<open>ti_sha\<close> is the hexadecimal SHA-256 of the library.\<close>

record tick_input =
  ti_policyID :: string
  ti_contract :: healthPolicyContract
  ti_candidates :: "string list"
  ti_selected :: string
  ti_warm :: bool
  ti_cold :: bool
  ti_emergency :: "string option"
  ti_replaced :: bool
  ti_batchStarted :: "nanos option"
  ti_sha :: "string \<Rightarrow> string"
  ti_online :: "string \<Rightarrow> (bool + bool) option"
  ti_select :: "string \<Rightarrow> string \<Rightarrow> health_error option"

definition tick_groups :: "tick_input \<Rightarrow> string \<Rightarrow> int" where
  "tick_groups t c =
     (case fst (candidateGroups (hc_Groups (ti_contract t)) (ti_candidates t) (hc_Mode (ti_contract t))) c of Some n \<Rightarrow> n | None \<Rightarrow> 0)"

definition tick_selector :: "tick_input \<Rightarrow> string \<Rightarrow> string" where
  "tick_selector t c =
     (case fst (snd (candidateGroups (hc_Groups (ti_contract t)) (ti_candidates t) (hc_Mode (ti_contract t)))) c of Some g \<Rightarrow> g | None \<Rightarrow> [])"

definition serviceSelectorTag :: "(string \<Rightarrow> string) \<Rightarrow> string \<Rightarrow> string \<Rightarrow> string" where
  "serviceSelectorTag sha policyID serviceID = ''svc-'' @ take 20 (sha (policyID @ CHR 0x00 # serviceID))"

definition serviceBlockTag :: "(string \<Rightarrow> string) \<Rightarrow> string \<Rightarrow> string" where
  "serviceBlockTag sha policyID = ''svc-block-'' @ take 16 (sha policyID)"

definition service_allowed :: "tick_input \<Rightarrow> string \<Rightarrow> string \<Rightarrow> bool" where
  "service_allowed t desired serviceID \<longleftrightarrow>
     desired \<noteq> ''block'' \<and> contains (hp_CandidateServiceAccess (hc_Policy (ti_contract t)) (tick_selector t desired)) serviceID"

definition service_calls :: "tick_input \<Rightarrow> string \<Rightarrow> (string \<times> string) list" where
  "service_calls t desired =
     (if hc_Mode (ti_contract t) = ''priority'' \<and> hp_CandidateServiceIDs (hc_Policy (ti_contract t)) \<noteq> []
      then map (\<lambda>serviceID. (serviceSelectorTag (ti_sha t) (ti_policyID t) serviceID,
             if service_allowed t desired serviceID then desired else serviceBlockTag (ti_sha t) (ti_policyID t)))
             (hp_CandidateServiceIDs (hc_Policy (ti_contract t)))
      else [])"

text \<open>The \<^verbatim>\<open>Select\<close> calls in order, up to the first that fails.\<close>

fun run_calls ::
  "(string \<Rightarrow> string \<Rightarrow> health_error option) \<Rightarrow> (string \<times> string) list \<Rightarrow> (string \<times> string) list \<times> health_error option" where
  "run_calls select [] = ([], None)"
| "run_calls select ((selector, target) # calls) =
     (case select selector target of
        Some err \<Rightarrow> ([], Some err)
      | None \<Rightarrow> let (made, err) = run_calls select calls in ((selector, target) # made, err))"

definition publish_choice ::
  "nanos \<Rightarrow> tick_input \<Rightarrow> string \<times> string \<Rightarrow> tick_view \<Rightarrow> policyHealthState \<Rightarrow> policyHealthState" where
  "publish_choice now t choice view item =
     (let (desired, reason) = choice;
          p = tick_settings (ti_contract t) (ti_candidates t);
          item = (if desired \<noteq> ti_selected t
            then item\<lparr>ph_Selected := desired, ph_LastSwitchAt := Some (now div second * second), ph_LastSwitchReason := reason\<rparr>
            else item\<lparr>ph_Selected := ti_selected t\<rparr>)
      in item\<lparr>ph_RuntimeSelected := ph_Selected item, ph_RuntimeConfirmed := True, ph_RuntimeError := [],
              ph_MedianDelayMS := tv_medians view, ph_QualityOK := tv_quality view, ph_AvailabilityOK := tv_available view,
              ph_CandidateSignature := join_lines (ti_candidates t), ph_Mode := hc_Mode (ti_contract t),
              ph_ProbeLimits := \<lparr>pl_Batch = ep_batch p, pl_Shortlist = ep_shortlist p, pl_ActiveSeconds = ep_active p,
                pl_BackupSeconds = ep_backup p, pl_LivenessSeconds = ep_liveness p, pl_FailureRetrySeconds = ep_failureRetry p,
                pl_BlockRecoverySeconds = ep_blockRecovery p\<rparr>\<rparr>)"

definition publish_tick ::
  "nanos \<Rightarrow> tick_input \<Rightarrow> bool \<Rightarrow> string \<times> string \<Rightarrow> tick_view \<Rightarrow> policyHealthState \<Rightarrow> policyHealthState go" where
  "publish_tick now t measuredAny choice view item = do {
     let p = tick_settings (ti_contract t) (ti_candidates t);
     let item = publish_choice now t choice view item;
     _ \<leftarrow> currentLatencyComparisons now item (ti_candidates t) p;
     shortlist \<leftarrow> workingShortlist (ph_Selected item) (ti_candidates t) (hc_Mode (ti_contract t)) (tick_groups t) item p;
     let item = item\<lparr>ph_Shortlist := shortlist\<rparr>;
     targets \<leftarrow> (if ph_Selected item = ''block''
       then outageProbeTargets now (withoutClosedCandidates (ti_candidates t) (ph_PreflightClosed item)) item p else Some []);
     let pending = (ph_Selected item = ''block'' \<and> targets \<noteq> []);
     let item = item\<lparr>ph_OutageProbePending := pending\<rparr>;
     let item = (if pending \<and> measuredAny then item\<lparr>ph_OutageBatchStartedAt := ti_batchStarted t\<rparr> else item);
     Some (snd (rememberWorkingSelection (ti_contract t) item))
   }"

text \<open>The decision with the answer about a retained selection, then the switch in the runtime, then the commit.\<close>

definition settle_choice ::
  "nanos \<Rightarrow> tick_input \<Rightarrow> evidence_list \<Rightarrow> policyHealthState \<times> tick_view \<Rightarrow>
   (policyHealthState \<times> (string \<times> string) list \<times> health_error option) go" where
  "settle_choice now t measured evaluated =
     (let (item, view) = evaluated; mode = hc_Mode (ti_contract t); selected = ti_selected t;
          p = tick_settings (ti_contract t) (ti_candidates t);
          wished = selectDesired now mode selected (ti_candidates t) (tick_groups t) (tv_medians view) (map_of measured)
            (tv_quality view) (tv_available view) item p;
          retain = (if wished = (''block'', ''all-candidates-unavailable'')
            then retainTimedOutSelection (ti_online t) selected (ti_candidates t) (ti_contract t) item else Inr False)
      in case retain of
           Inl err \<Rightarrow> Some (item, [], Some err)
         | Inr keep \<Rightarrow>
             let (choice, item) = tick_decide now mode selected (ti_candidates t) (tick_groups t) (map_of measured) view item p keep
                   (ti_cold t) (ti_emergency t) (ti_replaced t);
                 calls = service_calls t (fst choice) @ (if fst choice \<noteq> selected then [(ti_policyID t, fst choice)] else []);
                 (made, err) = run_calls (ti_select t) calls
             in if err \<noteq> None then Some (item, made, err)
                else do {
                  item \<leftarrow> publish_tick now t (measured \<noteq> []) choice view item;
                  Some (item, made, None)
                })"

definition settle_tick ::
  "nanos \<Rightarrow> tick_input \<Rightarrow> evidence_list \<Rightarrow> policyHealthState \<Rightarrow>
   (policyHealthState \<times> (string \<times> string) list \<times> health_error option) go" where
  "settle_tick started t answers item = do {
     let now = commit_now answers started;
     let item = fold (commit_time now) answers item;
     let measured = drop_unmeasured answers;
     (item, _) \<leftarrow> refreshHistoryStatistics item (ti_candidates t) (map_of measured) now;
     settle_choice now t measured
       (evaluate_candidates now (hc_Mode (ti_contract t)) (ti_selected t) (ti_warm t) (tick_settings (ti_contract t) (ti_candidates t))
         (map_of measured) (ti_candidates t) item)
   }"

section \<open>Frames\<close>

text \<open>The gate changes nothing but the pending comparison.\<close>

definition forget_opt :: "policyHealthState \<Rightarrow> policyHealthState" where
  "forget_opt item = item\<lparr>ph_OptimizationBaseline := [], ph_OptimizationCandidate := [], ph_OptimizationChecks := 0,
     ph_OptimizationLastResult := None\<rparr>"

lemma forget_opt_simps [simp]:
  "forget_opt (item\<lparr>ph_OptimizationBaseline := b\<rparr>) = forget_opt item"
  "forget_opt (item\<lparr>ph_OptimizationCandidate := b\<rparr>) = forget_opt item"
  "forget_opt (item\<lparr>ph_OptimizationChecks := n\<rparr>) = forget_opt item"
  "forget_opt (item\<lparr>ph_OptimizationLastResult := l\<rparr>) = forget_opt item"
  "forget_opt (clearOptimizationCandidate item) = forget_opt item"
  by (simp_all add: forget_opt_def clearOptimizationCandidate_def)

lemma forget_opt_if: "forget_opt (snd (if b then x else y)) = (if b then forget_opt (snd x) else forget_opt (snd y))"
  by simp

lemma confirm_win_frame: "forget_opt (snd (confirm_win now selected desired c item p)) = forget_opt item"
proof -
  define restart where "restart \<longleftrightarrow> ph_OptimizationCandidate item \<noteq> desired \<or> \<not> freshComparisonAt now (ph_OptimizationLastResult item) p \<or>
            (case ph_OptimizationLastResult item of None \<Rightarrow> True | Some c \<Rightarrow> oc_ActiveSampleAt c \<le> 0 \<or> oc_CandidateSampleAt c \<le> 0)"
  define item1 where "item1 = (if restart then item\<lparr>ph_OptimizationBaseline := selected, ph_OptimizationCandidate := desired, ph_OptimizationChecks := 0\<rparr>
                  else item)"
  have "forget_opt item1 = forget_opt item" by (simp add: item1_def)
  then show ?thesis
    unfolding confirm_win_def Let_def restart_def [symmetric] item1_def [symmetric] forget_opt_if snd_conv forget_opt_simps by simp
qed

lemma gate_frame: "forget_opt (snd (gatePlannedOptimization now selected desired reason comparison item p)) = forget_opt item"
proof -
  define r where "r = \<lparr>or_now = now, or_selected = selected, or_desired = desired, or_reason = reason, or_comparison = comparison\<rparr>"
  have "forget_opt (snd (gate_round p r item)) = forget_opt item"
    by (cases p r item rule: gate_round_cases) (simp_all add: confirm_win_frame)
  then show ?thesis by (simp add: gate_round_def r_def)
qed

lemma forget_opt_fields:
  assumes "forget_opt item' = forget_opt item"
  shows "ph_Failures item' = ph_Failures item" "ph_AvailabilityFailures item' = ph_AvailabilityFailures item"
    "ph_Recoveries item' = ph_Recoveries item" "ph_Samples item' = ph_Samples item"
proof -
  have same: "ph_Failures (forget_opt x) = ph_Failures x" "ph_AvailabilityFailures (forget_opt x) = ph_AvailabilityFailures x"
      "ph_Recoveries (forget_opt x) = ph_Recoveries x" "ph_Samples (forget_opt x) = ph_Samples x" for x
    by (simp_all add: forget_opt_def)
  show "ph_Failures item' = ph_Failures item" "ph_AvailabilityFailures item' = ph_AvailabilityFailures item"
    "ph_Recoveries item' = ph_Recoveries item" "ph_Samples item' = ph_Samples item"
    using same [of item'] same [of item] unfolding assms by simp_all
qed

section \<open>Counters\<close>

definition counters_ok :: "effectivePolicySettings \<Rightarrow> policyHealthState \<Rightarrow> bool" where
  "counters_ok p item \<longleftrightarrow> (\<forall>c. 0 \<le> ph_Failures item c \<and> 0 \<le> ph_AvailabilityFailures item c \<and>
     ph_AvailabilityFailures item c \<le> ep_failureThreshold p \<and> 0 \<le> ph_Recoveries item c \<and> length (ph_Samples item c) \<le> 3)"

text \<open>The failure count after the evidence of a tick.\<close>

definition next_unavailable :: "effectivePolicySettings \<Rightarrow> bool \<Rightarrow> probeEvidence option \<Rightarrow> int \<Rightarrow> int" where
  "next_unavailable p warm evidence n = (case evidence of
     None \<Rightarrow> n
   | Some e \<Rightarrow> if pe_OK e then 0
       else if startupFailureConfirmationThreshold (pe_Failure e) (ep_failureThreshold p) warm \<le> n + 1 then ep_failureThreshold p else n + 1)"

lemma count_evidence_fields:
  "ph_AvailabilityFailures (count_evidence selected warm p c e item) =
     (ph_AvailabilityFailures item)(c := next_unavailable p (warm \<and> c = selected) (Some e) (ph_AvailabilityFailures item c))"
  "ph_Samples (count_evidence selected warm p c e item) = ph_Samples item"
  "ph_Failures (count_evidence selected warm p c e item) d = ph_Failures item d \<or>
   ph_Failures (count_evidence selected warm p c e item) d = 0 \<or> ph_Failures (count_evidence selected warm p c e item) d = ph_Failures item d + 1"
  "ph_Recoveries (count_evidence selected warm p c e item) d = ph_Recoveries item d \<or>
   ph_Recoveries (count_evidence selected warm p c e item) d = 0 \<or> ph_Recoveries (count_evidence selected warm p c e item) d = ph_Recoveries item d + 1"
  by (simp_all add: count_evidence_def clearUnderlayFailure_def next_unavailable_def Let_def)

lemma next_unavailable_bounds:
  assumes "1 \<le> ep_failureThreshold p" and "0 \<le> n" "n \<le> ep_failureThreshold p"
  shows "0 \<le> next_unavailable p warm evidence n \<and> next_unavailable p warm evidence n \<le> ep_failureThreshold p"
    "ep_failureThreshold p \<le> next_unavailable p warm evidence n \<longleftrightarrow> (case evidence of
       None \<Rightarrow> n = ep_failureThreshold p
     | Some e \<Rightarrow> \<not> pe_OK e \<and> startupFailureConfirmationThreshold (pe_Failure e) (ep_failureThreshold p) warm \<le> n + 1)"
proof -
  note b = threshold_bounds(4) [OF assms(1)]
  show "0 \<le> next_unavailable p warm evidence n \<and> next_unavailable p warm evidence n \<le> ep_failureThreshold p"
    using assms b by (auto simp: next_unavailable_def not_le split: option.split intro: order_trans less_imp_le)
  show "ep_failureThreshold p \<le> next_unavailable p warm evidence n \<longleftrightarrow> (case evidence of
       None \<Rightarrow> n = ep_failureThreshold p
     | Some e \<Rightarrow> \<not> pe_OK e \<and> startupFailureConfirmationThreshold (pe_Failure e) (ep_failureThreshold p) warm \<le> n + 1)"
    using assms b by (auto simp: next_unavailable_def split: option.split) (smt (verit, best))+
qed

lemma length_next_samples: "length samples \<le> 3 \<Longrightarrow> length (next_samples now mode p evidence samples) \<le> 3"
  by (auto simp: next_samples_def recentQualitySamples_def length_keep_last Let_def split: option.split)

lemma evaluate_candidate_fields:
  fixes s :: "policyHealthState \<times> tick_view" and now mode selected warm p measured c
  defines "s' \<equiv> evaluate_candidate now mode selected warm p measured c s"
  shows "ph_AvailabilityFailures (fst s') =
      (ph_AvailabilityFailures (fst s))(c := next_unavailable p (warm \<and> c = selected) (measured c) (ph_AvailabilityFailures (fst s) c))"
    "ph_Samples (fst s') = (ph_Samples (fst s))(c := next_samples now mode p (measured c) (ph_Samples (fst s) c))"
    "ph_Failures (fst s') d = ph_Failures (fst s) d \<or> ph_Failures (fst s') d = 0 \<or> ph_Failures (fst s') d = ph_Failures (fst s) d + 1"
    "ph_Recoveries (fst s') d = ph_Recoveries (fst s) d \<or> ph_Recoveries (fst s') d = 0 \<or> ph_Recoveries (fst s') d = ph_Recoveries (fst s) d + 1"
proof -
  obtain item view where s: "s = (item, view)" by fastforce
  let ?item = "item\<lparr>ph_Samples := (ph_Samples item)(c := next_samples now mode p (measured c) (ph_Samples item c))\<rparr>"
  define item1 where "item1 = (case measured c of Some e \<Rightarrow> count_evidence selected warm p c e ?item | None \<Rightarrow> ?item)"
  have "fst s' = item1 \<or> fst s' = item1\<lparr>ph_ScanQueue := ph_ScanQueue item1 @ [c]\<rparr>"
    unfolding s'_def s evaluate_candidate_def Let_def prod.case item1_def [symmetric] fst_conv by (simp split: if_split)
  then have f: "ph_AvailabilityFailures (fst s') = ph_AvailabilityFailures item1" "ph_Samples (fst s') = ph_Samples item1"
      "ph_Failures (fst s') = ph_Failures item1" "ph_Recoveries (fst s') = ph_Recoveries item1"
    by auto
  show "ph_AvailabilityFailures (fst s') =
      (ph_AvailabilityFailures (fst s))(c := next_unavailable p (warm \<and> c = selected) (measured c) (ph_AvailabilityFailures (fst s) c))"
    unfolding f s by (cases "measured c") (simp_all add: item1_def count_evidence_fields, simp add: next_unavailable_def)
  show "ph_Samples (fst s') = (ph_Samples (fst s))(c := next_samples now mode p (measured c) (ph_Samples (fst s) c))"
    unfolding f s by (cases "measured c") (simp_all add: item1_def count_evidence_fields)
  show "ph_Failures (fst s') d = ph_Failures (fst s) d \<or> ph_Failures (fst s') d = 0 \<or> ph_Failures (fst s') d = ph_Failures (fst s) d + 1"
    unfolding f s using count_evidence_fields(3) [of selected warm p c _ ?item d] by (cases "measured c") (simp_all add: item1_def)
  show "ph_Recoveries (fst s') d = ph_Recoveries (fst s) d \<or> ph_Recoveries (fst s') d = 0 \<or> ph_Recoveries (fst s') d = ph_Recoveries (fst s) d + 1"
    unfolding f s using count_evidence_fields(4) [of selected warm p c _ ?item d] by (cases "measured c") (simp_all add: item1_def)
qed

lemma evaluate_candidates_fields:
  fixes s :: "policyHealthState \<times> tick_view" and now mode selected warm p measured cs
  defines "s' \<equiv> fold (evaluate_candidate now mode selected warm p measured) cs s"
  assumes "1 \<le> ep_failureThreshold p" and "counters_ok p (fst s)" and "distinct cs"
  shows "counters_ok p (fst s')"
    "ph_AvailabilityFailures (fst s') c = (if c \<in> set cs
       then next_unavailable p (warm \<and> c = selected) (measured c) (ph_AvailabilityFailures (fst s) c) else ph_AvailabilityFailures (fst s) c)"
proof -
  have step: "counters_ok p (fst (evaluate_candidate now mode selected warm p measured d s))" if ok: "counters_ok p (fst s)" for d s
    unfolding counters_ok_def
  proof (intro allI)
    fix c
    note f = evaluate_candidate_fields [of now mode selected warm p measured d s]
    have o: "0 \<le> ph_Failures (fst s) c" "0 \<le> ph_AvailabilityFailures (fst s) c" "ph_AvailabilityFailures (fst s) c \<le> ep_failureThreshold p"
        "0 \<le> ph_Recoveries (fst s) c" "length (ph_Samples (fst s) c) \<le> 3"
      using ok unfolding counters_ok_def by blast+
    note nu = next_unavailable_bounds(1) [OF assms(2) o(2,3)]
    show "0 \<le> ph_Failures (fst (evaluate_candidate now mode selected warm p measured d s)) c \<and>
        0 \<le> ph_AvailabilityFailures (fst (evaluate_candidate now mode selected warm p measured d s)) c \<and>
        ph_AvailabilityFailures (fst (evaluate_candidate now mode selected warm p measured d s)) c \<le> ep_failureThreshold p \<and>
        0 \<le> ph_Recoveries (fst (evaluate_candidate now mode selected warm p measured d s)) c \<and>
        length (ph_Samples (fst (evaluate_candidate now mode selected warm p measured d s)) c) \<le> 3"
      using f(3) [of c] f(4) [of c] o nu length_next_samples [OF o(5)] unfolding f(1,2)
      by (cases "c = d") (simp_all, linarith+)
  qed
  show "counters_ok p (fst s')"
    unfolding s'_def using assms(3) by (induction cs arbitrary: s) (simp_all add: step)
  show "ph_AvailabilityFailures (fst s') c = (if c \<in> set cs
       then next_unavailable p (warm \<and> c = selected) (measured c) (ph_AvailabilityFailures (fst s) c) else ph_AvailabilityFailures (fst s) c)"
    unfolding s'_def using assms(4) by (induction cs arbitrary: s) (auto simp: evaluate_candidate_fields(1))
qed

section \<open>Settling\<close>

text \<open>The part of the state that the counters are; what does not touch it keeps their invariant.\<close>

definition counters where
  "counters item = (ph_Failures item, ph_AvailabilityFailures item, ph_Recoveries item, ph_Samples item)"

lemma counters_ok_cong: "counters item = counters item' \<Longrightarrow> counters_ok p item = counters_ok p item'"
  by (simp add: counters_def counters_ok_def)

lemma counters_forget:
  assumes "forget_opt item' = forget_opt item"
  shows "counters item' = counters item"
  by (simp only: counters_def forget_opt_fields [OF assms])

lemma forget_opt_Selected: "forget_opt item' = forget_opt item \<Longrightarrow> ph_Selected item' = ph_Selected item"
  by (drule arg_cong [where f = ph_Selected]) (simp add: forget_opt_def)

lemma commit_times_frame:
  "counters (fold (commit_time now) answers item) = counters item \<and>
   ph_Selected (fold (commit_time now) answers item) = ph_Selected item"
proof (induction answers arbitrary: item)
  case (Cons a answers)
  have "counters (commit_time now a item) = counters item" "ph_Selected (commit_time now a item) = ph_Selected item"
    by (simp_all add: commit_time_def counters_def Let_def split: prod.split)
  then show ?case using Cons.IH [of "commit_time now a item"] by simp
qed simp

lemma updateHistories_frame:
  "counters (fst (updateHistories item cs measured now)) = counters item \<and>
   ph_Selected (fst (updateHistories item cs measured now)) = ph_Selected item"
proof (induction item cs measured now rule: updateHistories.induct)
  case (2 item a cs measured now)
  obtain h d ch where u: "update_history now (measured a) (ph_DailySamples item a) (ph_HistoryDays item a) = (h, d, ch)"
    by (metis prod_cases3)
  let ?item = "item\<lparr>ph_DailySamples := (ph_DailySamples item)(a \<mapsto> h), ph_HistoryDays := (ph_HistoryDays item)(a \<mapsto> d)\<rparr>"
  obtain item1 changes1 where r: "updateHistories ?item cs measured now = (item1, changes1)" by fastforce
  have "fst (updateHistories item (a # cs) measured now) = item1"
    unfolding updateHistories.simps u prod.case Let_def r by simp
  moreover have "counters ?item = counters item" "ph_Selected ?item = ph_Selected item" by (simp_all add: counters_def)
  ultimately show ?case using "2.IH" [OF u [symmetric] refl refl refl] unfolding r by simp
qed simp

lemma bind_total: "\<exists>x. m = Some x \<Longrightarrow> (\<And>x. f x \<noteq> None) \<Longrightarrow> Option.bind m f \<noteq> None"
  by (elim exE) (simp only: Option.bind.bind_lunit simp_thms)

lemma refresh_stats_total: "refresh_stats item changes previous today cs next \<noteq> None"
proof (induction cs arbitrary: "next")
  case (Cons c cs)
  have reuse: "\<exists>d. (case cached of Some s \<Rightarrow> if changed then full else Some s | None \<Rightarrow> full) = Some d"
    if "full \<noteq> None" for full :: "healthStats go" and cached changed
    using that by (cases cached) auto
  show ?case
    unfolding refresh_stats.simps Let_def
    by (rule bind_total, rule reuse, rule summarize_total(1), rule bind_total, rule reuse, rule summarize_total(2),
        rule bind_total, rule reuse, rule summarize_total(2), rule Cons.IH)
qed simp

lemma refreshHistoryStatistics_frame:
  "\<exists>item' stats. refreshHistoryStatistics item cs measured now = Some (item', stats) \<and>
     counters item' = counters item \<and> ph_Selected item' = ph_Selected item"
proof -
  obtain item1 changes where u: "updateHistories item cs measured now = (item1, changes)" by fastforce
  obtain stats where "refresh_stats item1 changes (ph_historyStatsCache item1) (day_of (unix now)) cs
      \<lparr>hy_day = day_of (unix now), hy_daily = Map.empty, hy_week = Map.empty, hy_month = Map.empty\<rparr> = Some stats"
    using refresh_stats_total by blast
  then show ?thesis
    using u updateHistories_frame [of item cs measured now] by (simp add: refreshHistoryStatistics_def counters_def)
qed

lemma tick_settings_bounds:
  "ep_failureThreshold (tick_settings contract candidates) = 3" "0 \<le> ep_shortlist (tick_settings contract candidates)"
  "0 \<le> ep_batch (tick_settings contract candidates)"
  by (simp_all add: tick_settings_def policySettings_def defaultInt_def Let_def)

lemma publish_choice_fields:
  "counters (publish_choice now t choice view item) = counters item"
  "ph_Selected (publish_choice now t choice view item) = fst choice"
  "ph_RuntimeSelected (publish_choice now t choice view item) = fst choice"
  "ph_RuntimeConfirmed (publish_choice now t choice view item)"
  by (simp_all add: publish_choice_def counters_def Let_def case_prod_unfold)

lemma remember_counters:
  "counters (snd (rememberWorkingSelection contract item)) = counters item"
  "ph_RuntimeSelected (snd (rememberWorkingSelection contract item)) = ph_RuntimeSelected item"
  "ph_RuntimeConfirmed (snd (rememberWorkingSelection contract item)) = ph_RuntimeConfirmed item"
  by (simp_all add: rememberWorkingSelection_def counters_def Let_def)

lemma publish_tick_total:
  "\<exists>item'. publish_tick now t some choice view item = Some item' \<and> counters item' = counters item \<and>
     ph_Selected item' = fst choice \<and> ph_RuntimeSelected item' = fst choice \<and> ph_RuntimeConfirmed item'"
proof -
  let ?p = "tick_settings (ti_contract t) (ti_candidates t)"
  let ?item = "publish_choice now t choice view item"
  obtain cs where cs: "currentLatencyComparisons now ?item (ti_candidates t) ?p = Some cs"
    using currentLatencyComparisons_total by blast
  obtain shortlist where sl:
      "workingShortlist (ph_Selected ?item) (ti_candidates t) (hc_Mode (ti_contract t)) (tick_groups t) ?item ?p = Some shortlist"
    using tick_settings_bounds(2) [of "ti_contract t" "ti_candidates t"] by (simp add: workingShortlist_def Let_def)
  define item1 where "item1 = ?item\<lparr>ph_Shortlist := shortlist\<rparr>"
  obtain targets where ts: "(if ph_Selected item1 = ''block''
      then outageProbeTargets now (withoutClosedCandidates (ti_candidates t) (ph_PreflightClosed item1)) item1 ?p else Some []) = Some targets"
    using outageProbeTargets_bounds [OF tick_settings_bounds(3)] by (metis (full_types))
  define pending where "pending \<longleftrightarrow> ph_Selected item1 = ''block'' \<and> targets \<noteq> []"
  define item2 where "item2 = item1\<lparr>ph_OutageProbePending := pending\<rparr>"
  define item3 where "item3 = (if pending \<and> some then item2\<lparr>ph_OutageBatchStartedAt := ti_batchStarted t\<rparr> else item2)"
  have run: "publish_tick now t some choice view item = Some (snd (rememberWorkingSelection (ti_contract t) item3))"
    unfolding publish_tick_def Let_def cs sl Option.bind.bind_lunit item1_def [symmetric] ts pending_def [symmetric]
      item2_def [symmetric] item3_def [symmetric] ..
  have "counters item3 = counters ?item" "ph_Selected item3 = ph_Selected ?item" "ph_RuntimeSelected item3 = ph_RuntimeSelected ?item"
      "ph_RuntimeConfirmed item3 = ph_RuntimeConfirmed ?item"
    by (simp_all add: item3_def item2_def item1_def counters_def)
  then show ?thesis unfolding run by (simp add: remember_counters publish_choice_fields)
qed

text \<open>The calls of a tick: the service selectors in order, then the selector of the policy when the path changes.\<close>

definition tick_calls :: "tick_input \<Rightarrow> string \<Rightarrow> (string \<times> string) list" where
  "tick_calls t desired = service_calls t desired @ (if desired \<noteq> ti_selected t then [(ti_policyID t, desired)] else [])"

lemma run_calls_result:
  "run_calls select calls = (made, err) \<Longrightarrow>
   (\<forall>(selector, target) \<in> set made. select selector target = None) \<and>
   (case err of None \<Rightarrow> made = calls
    | Some e \<Rightarrow> \<exists>selector target rest. calls = made @ (selector, target) # rest \<and> select selector target = Some e)"
proof (induction calls arbitrary: made)
  case (Cons call calls)
  obtain selector target where call: "call = (selector, target)" by fastforce
  obtain made1 err1 where r: "run_calls select calls = (made1, err1)" by fastforce
  show ?case
  proof (cases "select selector target")
    case None
    then have e: "made = call # made1" "err = err1" using Cons.prems r call by auto
    show ?thesis using Cons.IH [of made1] r None unfolding e call by (cases err1) auto
  next
    case (Some e)
    then have "made = []" "err = Some e" using Cons.prems call by simp_all
    then show ?thesis using Some call by simp
  qed
qed auto

lemma evaluate_candidates_Selected:
  "ph_Selected (fst (evaluate_candidates now mode selected warm p measured candidates item)) = ph_Selected item"
proof -
  have step: "ph_Selected (fst (evaluate_candidate now mode selected warm p measured c s)) = ph_Selected (fst s)" for c s
    by (cases "measured c")
      (simp_all add: evaluate_candidate_def count_evidence_def clearUnderlayFailure_def Let_def case_prod_unfold)
  have "ph_Selected (fst (fold (evaluate_candidate now mode selected warm p measured) candidates s)) = ph_Selected (fst s)" for s
    by (induction candidates arbitrary: s) (simp_all add: step)
  then show ?thesis by (simp add: evaluate_candidates_def)
qed

lemma tick_decide_frame:
  "forget_opt (snd (tick_decide now mode selected candidates groups measured view item p retain cold emergency replaced)) = forget_opt item"
  by (simp add: tick_decide_def gate_frame split: prod.split)

text \<open>Settling a choice returns; it keeps the counters, and the selection is the one the runtime was asked for or the old one.\<close>

lemma settle_choice_total:
  "\<exists>item' calls err. settle_choice now t measured (item, view) = Some (item', calls, err) \<and> counters item' = counters item \<and>
     (\<forall>(selector, target) \<in> set calls. ti_select t selector target = None) \<and>
     (case err of
        None \<Rightarrow> calls = tick_calls t (ph_Selected item') \<and> ph_RuntimeSelected item' = ph_Selected item' \<and> ph_RuntimeConfirmed item'
      | Some e \<Rightarrow> ph_Selected item' = ph_Selected item)"
proof -
  let ?p = "tick_settings (ti_contract t) (ti_candidates t)" and ?mode = "hc_Mode (ti_contract t)"
  define retain where "retain = (if selectDesired now ?mode (ti_selected t) (ti_candidates t) (tick_groups t) (tv_medians view) (map_of measured)
      (tv_quality view) (tv_available view) item ?p = (''block'', ''all-candidates-unavailable'')
    then retainTimedOutSelection (ti_online t) (ti_selected t) (ti_candidates t) (ti_contract t) item else Inr False)"
  show ?thesis
  proof (cases retain)
    case (Inl err)
    then have "settle_choice now t measured (item, view) = Some (item, [], Some err)"
      unfolding settle_choice_def Let_def prod.case retain_def [symmetric] by simp
    then show ?thesis by simp
  next
    case (Inr keep)
    obtain choice item1 where d: "tick_decide now ?mode (ti_selected t) (ti_candidates t) (tick_groups t) (map_of measured) view item ?p keep
        (ti_cold t) (ti_emergency t) (ti_replaced t) = (choice, item1)" by fastforce
    obtain made err where r: "run_calls (ti_select t) (tick_calls t (fst choice)) = (made, err)" by fastforce
    obtain item2 where pub: "publish_tick now t (measured \<noteq> []) choice view item1 = Some item2" "counters item2 = counters item1"
        "ph_Selected item2 = fst choice" "ph_RuntimeSelected item2 = fst choice" "ph_RuntimeConfirmed item2"
      using publish_tick_total by blast
    have "forget_opt item1 = forget_opt item" using tick_decide_frame d by (metis snd_conv)
    note f = counters_forget [OF this] forget_opt_Selected [OF this]
    have run: "settle_choice now t measured (item, view) = (if err \<noteq> None then Some (item1, made, err) else Some (item2, made, None))"
      unfolding settle_choice_def Let_def prod.case retain_def [symmetric] Inr sum.case d tick_calls_def [symmetric] r pub(1)
        Option.bind.bind_lunit ..
    show ?thesis
      using run_calls_result [OF r] f pub(2-5) unfolding run by (cases err) simp_all
  qed
qed

lemma drop_unmeasured_failures:
  "next_unavailable p warm (map_of (drop_unmeasured answers) c) n = next_unavailable p warm (map_of answers c) n"
proof -
  let ?f = "\<lambda>e. if pe_QualityUnmeasured e then e\<lparr>pe_DelayMS := None\<rparr> else e"
  have "map_of (drop_unmeasured answers) c = map_option ?f (map_of answers c)"
    unfolding drop_unmeasured_def by (induction answers) auto
  then show ?thesis by (cases "map_of answers c") (simp_all add: next_unavailable_def)
qed

lemma confirmed_count:
  assumes "counters_ok (tick_settings contract candidates) item"
  shows "next_unavailable (tick_settings contract candidates) warm evidence (ph_AvailabilityFailures item c) = 3 \<longleftrightarrow> (case evidence of
     None \<Rightarrow> ph_AvailabilityFailures item c = 3
   | Some e \<Rightarrow> \<not> pe_OK e \<and> startupFailureConfirmationThreshold (pe_Failure e) 3 warm \<le> ph_AvailabilityFailures item c + 1)"
proof -
  let ?p = "tick_settings contract candidates"
  have th: "1 \<le> ep_failureThreshold ?p" by (simp add: tick_settings_bounds)
  have b: "0 \<le> ph_AvailabilityFailures item c" "ph_AvailabilityFailures item c \<le> ep_failureThreshold ?p"
    using assms unfolding counters_ok_def by blast+
  have eq3: "next_unavailable ?p warm evidence (ph_AvailabilityFailures item c) = 3 \<longleftrightarrow>
      3 \<le> next_unavailable ?p warm evidence (ph_AvailabilityFailures item c)"
    using next_unavailable_bounds(1) [OF th b, of warm evidence] unfolding tick_settings_bounds(1) by linarith
  show ?thesis
    unfolding eq3 using next_unavailable_bounds(2) [OF th b, of warm evidence] unfolding tick_settings_bounds(1) .
qed

section \<open>Committed probe times\<close>

lemma commit_now_bounds:
  assumes "\<And>d e t. (d, e) \<in> set answers \<Longrightarrow> pe_ObservedAt e = Some t \<Longrightarrow> t \<le> later" "now \<le> later"
  shows "now \<le> commit_now answers now" "commit_now answers now \<le> later"
proof -
  have "now \<le> commit_now answers now \<and> commit_now answers now \<le> later" using assms
  proof (induction answers arbitrary: now)
    case (Cons a answers)
    let ?now = "case pe_ObservedAt (snd a) of Some t \<Rightarrow> if now < t then t else now | None \<Rightarrow> now"
    have "now \<le> ?now" "?now \<le> later"
      using Cons.prems(1) [of "fst a" "snd a"] Cons.prems(2) by (auto split: option.split)
    then show ?case using Cons.IH [of ?now] Cons.prems(1) by (fastforce simp: commit_now_def split: prod.splits)
  qed (simp add: commit_now_def)
  then show "now \<le> commit_now answers now" "commit_now answers now \<le> later" by simp_all
qed

lemma commit_times_probed:
  "ph_LastProbeAt (fold (commit_time now) answers item) d = ph_LastProbeAt item d \<and> d \<notin> fst ` set answers \<or>
   (\<exists>e. (d, e) \<in> set answers \<and> ph_LastProbeAt (fold (commit_time now) answers item) d = unix (probeObservationTime now e))"
proof (induction answers arbitrary: item)
  case (Cons a answers)
  have one: "ph_LastProbeAt (commit_time now a item) d =
      (if d = fst a then unix (probeObservationTime now (snd a)) else ph_LastProbeAt item d)"
    by (simp add: commit_time_def Let_def split: prod.split)
  show ?case
  proof (cases "d = fst a")
    case True
    then have "(d, snd a) \<in> set (a # answers)" by simp
    then show ?thesis using Cons.IH [of "commit_time now a item"] one True by fastforce
  next
    case False
    then show ?thesis using Cons.IH [of "commit_time now a item"] one by auto
  qed
qed simp

text \<open>A measured path is dated inside its round, any other keeps its date.\<close>

lemma commit_round:
  fixes item :: policyHealthState
  assumes "\<And>d e t. (d, e) \<in> set answers \<Longrightarrow> pe_ObservedAt e = Some t \<Longrightarrow> now \<le> t \<and> t \<le> later" "now \<le> later"
  defines "item' \<equiv> fold (commit_time (commit_now answers now)) answers item"
  shows "d \<in> fst ` set answers \<Longrightarrow> unix now \<le> ph_LastProbeAt item' d \<and> ph_LastProbeAt item' d \<le> unix later"
    "d \<notin> fst ` set answers \<Longrightarrow> ph_LastProbeAt item' d = ph_LastProbeAt item d"
proof -
  have now: "now \<le> commit_now answers now" "commit_now answers now \<le> later"
    using commit_now_bounds [of answers later now] assms(1,2) by blast+
  have mono: "unix a \<le> unix b" if "a \<le> b" for a b using that by (simp add: unix_def zdiv_mono1)
  show "unix now \<le> ph_LastProbeAt item' d \<and> ph_LastProbeAt item' d \<le> unix later" if d: "d \<in> fst ` set answers"
  proof -
    obtain e where e: "(d, e) \<in> set answers" "ph_LastProbeAt item' d = unix (probeObservationTime (commit_now answers now) e)"
      using commit_times_probed [of "commit_now answers now" answers item d] d unfolding item'_def by blast
    have "now \<le> probeObservationTime (commit_now answers now) e \<and> probeObservationTime (commit_now answers now) e \<le> later"
      using assms(1) [OF e(1)] now by (auto simp: probeObservationTime_def split: option.split)
    then show ?thesis unfolding e(2) using mono by blast
  qed
  show "ph_LastProbeAt item' d = ph_LastProbeAt item d" if "d \<notin> fst ` set answers"
    using commit_times_probed [of "commit_now answers now" answers item d] that unfolding item'_def by force
qed

text \<open>
  A run of ordinary rounds that never measures \<open>c\<close>: what stands before \<open>c\<close> shrinks with every round whose whole batch is measured.
\<close>

lemma survey_run_waiting:
  fixes state :: "nat \<Rightarrow> policyHealthState"
  assumes ne: "[] \<notin> set candidates" and batch: "1 \<le> ep_batch p" "1 \<le> ep_active p"
    and quiet: "\<And>k. ph_OptimizationCandidate (state k) = []"
    and time: "0 < unix (now 0)" "\<And>k. now k \<le> now (Suc k)" "\<And>d. d \<in> set candidates \<Longrightarrow> ph_LastProbeAt (state 0) d \<le> unix (now 0)"
    and observed: "\<And>k d e t. (d, e) \<in> set (answers k) \<Longrightarrow> pe_ObservedAt e = Some t \<Longrightarrow> now k \<le> t \<and> t \<le> now (Suc k)"
    and commit: "\<And>k. ph_LastProbeAt (state (Suc k)) =
        ph_LastProbeAt (fold (commit_time (commit_now (answers k) (now k))) (answers k) (state k))"
    and measured: "\<And>k. fst ` set (answers k) \<subseteq> set (survey_batch (now k) (lanes k) (budget k) selected candidates p (state k))"
    and c: "c \<in> set candidates" "due (now 0) (state 0) p c"
    and missed: "\<And>k. k < n \<Longrightarrow> c \<notin> fst ` set (answers k)"
  shows "waiting selected candidates p (state n) c + card {k. k < n \<and>
      fst ` set (answers k) = set (survey_batch (now k) (lanes k) (budget k) selected candidates p (state k))} \<le>
    waiting selected candidates p (state 0) c \<and> ph_LastProbeAt (state n) c = ph_LastProbeAt (state 0) c \<and>
    (\<forall>d \<in> set candidates. ph_LastProbeAt (state n) d \<le> unix (now n)) \<and> now 0 \<le> now n"
  using missed
proof (induction n)
  case (Suc n)
  let ?full = "\<lambda>k. fst ` set (answers k) = set (survey_batch (now k) (lanes k) (budget k) selected candidates p (state k))"
  have ih: "waiting selected candidates p (state n) c + card {k. k < n \<and> ?full k} \<le> waiting selected candidates p (state 0) c"
      "ph_LastProbeAt (state n) c = ph_LastProbeAt (state 0) c" "\<And>d. d \<in> set candidates \<Longrightarrow> ph_LastProbeAt (state n) d \<le> unix (now n)"
      "now 0 \<le> now n"
    using Suc by simp_all
  have mono: "unix a \<le> unix b" if "a \<le> b" for a b using that by (simp add: unix_def zdiv_mono1)
  have pos: "0 < unix (now n)" using mono [OF ih(4)] time(1) by (rule less_le_trans [rotated])
  have due: "due (now n) (state n) p c" using c(2) mono [OF ih(4)] ih(2) by (auto simp: due_def)
  have no: "c \<notin> fst ` set (answers n)" using Suc.prems by blast
  have after: "d \<in> fst ` set (answers n) \<Longrightarrow> unix (now n) \<le> ph_LastProbeAt (state (Suc n)) d \<and>
        ph_LastProbeAt (state (Suc n)) d \<le> unix (now (Suc n))"
      "d \<notin> fst ` set (answers n) \<Longrightarrow> ph_LastProbeAt (state (Suc n)) d = ph_LastProbeAt (state n) d" for d
    unfolding commit by (rule commit_round [where later = "now (Suc n)"], rule observed, assumption+, rule time(2), assumption)+
  have set_after: "\<And>d. d \<in> fst ` set (answers n) \<Longrightarrow> unix (now n) \<le> ph_LastProbeAt (state (Suc n)) d"
    using after(1) by blast
  note step = waiting_step [OF ne quiet batch pos ih(3) c(1) due measured no set_after after(2)]
  have "card {k. k < Suc n \<and> ?full k} = card {k. k < n \<and> ?full k} + (if ?full n then 1 else 0)"
  proof -
    have "{k. k < Suc n \<and> ?full k} = {k. k < n \<and> ?full k} \<union> (if ?full n then {n} else {})" by (auto simp: less_Suc_eq)
    then show ?thesis by simp
  qed
  then have "waiting selected candidates p (state (Suc n)) c + card {k. k < Suc n \<and> ?full k} \<le> waiting selected candidates p (state 0) c"
    using step ih(1) by (cases "?full n") simp_all
  moreover have "ph_LastProbeAt (state (Suc n)) d \<le> unix (now (Suc n))" if "d \<in> set candidates" for d
    using after(1,2) [of d] ih(3) [OF that] mono [OF time(2) [of n]] by (cases "d \<in> fst ` set (answers n)") auto
  ultimately show ?case using after(2) [OF no] ih(2,4) time(2) [of n] by auto
qed (use time(3) in simp)

section \<open>Properties\<close>

text \<open>C7: The rotation starves nobody. Take any run of ordinary rounds with the same candidates, the same active path and the same
  settings while no comparison is pending and the clock does not run backwards. In each round the batch is what the rotation
  chose, with the active path put in front when its baseline has to be refreshed; any part of it may be left out by the shared
  probe budget or stay unmeasured; the measured paths are dated with the time of their evidence, which lies in the round; all
  other parts of the state may change in any way. A candidate that is due is measured before the batch has been measured
  completely in more than 2 n + 2 of the rounds, for n candidates and every batch size, even when a single slot is shared
  with the active path.\<close>

theorem rotation_reaches_every_candidate:
  fixes state :: "nat \<Rightarrow> policyHealthState"
  assumes "[] \<notin> set candidates" and "1 \<le> ep_batch p" "1 \<le> ep_active p" and "\<And>k. ph_OptimizationCandidate (state k) = []"
    and "0 < unix (now 0)" and "\<And>k. now k \<le> now (Suc k)" and "\<And>d. d \<in> set candidates \<Longrightarrow> ph_LastProbeAt (state 0) d \<le> unix (now 0)"
    and "\<And>k d e t. (d, e) \<in> set (answers k) \<Longrightarrow> pe_ObservedAt e = Some t \<Longrightarrow> now k \<le> t \<and> t \<le> now (Suc k)"
    and "\<And>k. ph_LastProbeAt (state (Suc k)) = ph_LastProbeAt (fold (commit_time (commit_now (answers k) (now k))) (answers k) (state k))"
    and "\<And>k. fst ` set (answers k) \<subseteq> set (survey_batch (now k) (lanes k) (budget k) selected candidates p (state k))"
    and "c \<in> set candidates" "due (now 0) (state 0) p c"
    and "2 * length candidates + 2 < card {k. k < n \<and>
      fst ` set (answers k) = set (survey_batch (now k) (lanes k) (budget k) selected candidates p (state k))}"
  shows "\<exists>k < n. c \<in> fst ` set (answers k)"
proof (rule ccontr)
  assume "\<not> ?thesis"
  then have missed: "\<And>k. k < n \<Longrightarrow> c \<notin> fst ` set (answers k)" by blast
  have "waiting selected candidates p (state n) c + card {k. k < n \<and>
        fst ` set (answers k) = set (survey_batch (now k) (lanes k) (budget k) selected candidates p (state k))} \<le>
      waiting selected candidates p (state 0) c \<and> ph_LastProbeAt (state n) c = ph_LastProbeAt (state 0) c \<and>
      (\<forall>d \<in> set candidates. ph_LastProbeAt (state n) d \<le> unix (now n)) \<and> now 0 \<le> now n"
    by (rule survey_run_waiting) (fact assms missed)+
  then show False using waiting_bound [of selected candidates p "state 0" c] assms(13) by simp
qed

text \<open>A run with one slot, in which every round measures its batch.\<close>

abbreviation survey_slot :: effectivePolicySettings where "survey_slot \<equiv> fast_settings\<lparr>ep_batch := 1\<rparr>"

definition survey_answers :: "nat \<Rightarrow> policyHealthState \<Rightarrow> evidence_list" where
  "survey_answers k item = map (\<lambda>d. (d, no_evidence))
     (survey_batch ((int k + 1000) * second) 1 None ''A'' [''A'', ''B'', ''C''] survey_slot item)"

primrec survey_run :: "nat \<Rightarrow> policyHealthState" where
  "survey_run 0 = newPolicyHealthState"
| "survey_run (Suc k) = (survey_run k)\<lparr>ph_LastProbeAt := ph_LastProbeAt
     (fold (commit_time (commit_now (survey_answers k (survey_run k)) ((int k + 1000) * second))) (survey_answers k (survey_run k)) (survey_run k))\<rparr>"

theorem rotation_reaches_every_candidate_witness:
  "\<exists>k < 9. ''C'' \<in> fst ` set (survey_answers k (survey_run k))"
proof (rule rotation_reaches_every_candidate [where state = survey_run and now = "\<lambda>k. (int k + 1000) * second" and p = survey_slot and
      candidates = "[''A'', ''B'', ''C'']" and selected = "''A''" and lanes = "\<lambda>_. 1" and budget = "\<lambda>_. None"])
  show "ph_OptimizationCandidate (survey_run k) = []" for k by (induction k) (simp_all add: newPolicyHealthState_def)
  show "ph_LastProbeAt (survey_run (Suc k)) = ph_LastProbeAt (fold (commit_time (commit_now (survey_answers k (survey_run k)) ((int k + 1000) * second)))
      (survey_answers k (survey_run k)) (survey_run k))" for k by simp
  show "fst ` set (survey_answers k (survey_run k)) \<subseteq> set (survey_batch ((int k + 1000) * second) 1 None ''A'' [''A'', ''B'', ''C''] survey_slot (survey_run k))" for k
    by (auto simp: survey_answers_def)
  have "{k. k < 9 \<and> fst ` set (survey_answers k (survey_run k)) =
      set (survey_batch ((int k + 1000) * second) 1 None ''A'' [''A'', ''B'', ''C''] survey_slot (survey_run k))} = {..<9}"
    by (auto simp: survey_answers_def image_image)
  then show "2 * length [''A'', ''B'', ''C''] + 2 < card {k. k < 9 \<and> fst ` set (survey_answers k (survey_run k)) =
      set (survey_batch ((int k + 1000) * second) 1 None ''A'' [''A'', ''B'', ''C''] survey_slot (survey_run k))}" by simp
  show "now \<le> t \<and> t \<le> later" if "(d, e) \<in> set (survey_answers k (survey_run k))" "pe_ObservedAt e = Some t" for k d e t now later
    using that by (auto simp: survey_answers_def no_evidence_def)
qed (simp_all add: newPolicyHealthState_def fast_settings_eq unix_def due_def)

text \<open>C8: A tick always settles. From the answers of its probes it commits without a panic and keeps the counters well
  formed: no negative count, at most three samples, and a failure count of at most the threshold, which a
  candidate reaches exactly when it failed often enough for its kind of failure, or had reached it and was not
  probed. Without an error the runtime was asked for exactly the service selectors of the new selection and, on
  a change, for the selection itself; after an error the old selection stays.\<close>

theorem tick_settles:
  assumes "distinct (ti_candidates t)" and "counters_ok (tick_settings (ti_contract t) (ti_candidates t)) item"
  shows "\<exists>item' calls err. settle_tick started t answers item = Some (item', calls, err) \<and>
     counters_ok (tick_settings (ti_contract t) (ti_candidates t)) item' \<and>
     (\<forall>c. c \<in> set (ti_candidates t) \<longrightarrow> (ph_AvailabilityFailures item' c = 3 \<longleftrightarrow> (case map_of answers c of
        None \<Rightarrow> ph_AvailabilityFailures item c = 3
      | Some e \<Rightarrow> \<not> pe_OK e \<and>
          startupFailureConfirmationThreshold (pe_Failure e) 3 (ti_warm t \<and> c = ti_selected t) \<le> ph_AvailabilityFailures item c + 1))) \<and>
     (\<forall>(selector, target) \<in> set calls. ti_select t selector target = None) \<and>
     (case err of
        None \<Rightarrow> calls = tick_calls t (ph_Selected item') \<and> ph_RuntimeSelected item' = ph_Selected item' \<and> ph_RuntimeConfirmed item'
      | Some e \<Rightarrow> ph_Selected item' = ph_Selected item)"
proof -
  let ?p = "tick_settings (ti_contract t) (ti_candidates t)"
  define now where "now = commit_now answers started"
  define measured where "measured = drop_unmeasured answers"
  define item0 where "item0 = fold (commit_time now) answers item"
  have f0: "counters item0 = counters item" "ph_Selected item0 = ph_Selected item"
    using commit_times_frame unfolding item0_def by blast+
  obtain item1 stats where h: "refreshHistoryStatistics item0 (ti_candidates t) (map_of measured) now = Some (item1, stats)"
      and f1: "counters item1 = counters item0" "ph_Selected item1 = ph_Selected item0"
    using refreshHistoryStatistics_frame by blast
  let ?eval = "evaluate_candidates now (hc_Mode (ti_contract t)) (ti_selected t) (ti_warm t) ?p (map_of measured) (ti_candidates t) item1"
  obtain item2 view where e: "?eval = (item2, view)" by fastforce
  have ok1: "counters_ok ?p (fst (item1, empty_view))" using assms(2) counters_ok_cong [OF trans [OF f1(1) f0(1)]] by simp
  have th: "1 \<le> ep_failureThreshold ?p" by (simp add: tick_settings_bounds)
  note ev = evaluate_candidates_fields [OF th ok1 assms(1), of now "hc_Mode (ti_contract t)" "ti_selected t" "ti_warm t" "map_of measured",
      folded evaluate_candidates_def, unfolded e fst_conv]
  have s2: "ph_Selected item2 = ph_Selected item"
    using evaluate_candidates_Selected [of now "hc_Mode (ti_contract t)" "ti_selected t" "ti_warm t" ?p "map_of measured" "ti_candidates t" item1]
    unfolding e by (simp add: f0 f1)
  obtain item' calls err where run: "settle_choice now t measured (item2, view) = Some (item', calls, err)" "counters item' = counters item2"
      "\<forall>(selector, target) \<in> set calls. ti_select t selector target = None"
      "case err of
        None \<Rightarrow> calls = tick_calls t (ph_Selected item') \<and> ph_RuntimeSelected item' = ph_Selected item' \<and> ph_RuntimeConfirmed item'
      | Some e \<Rightarrow> ph_Selected item' = ph_Selected item2"
    using settle_choice_total by blast
  have "settle_tick started t answers item = Some (item', calls, err)"
    unfolding settle_tick_def Let_def now_def [symmetric] measured_def [symmetric] item0_def [symmetric] h Option.bind.bind_lunit prod.case e
    by (rule run(1))
  moreover have "counters_ok ?p item'" using ev(1) counters_ok_cong [OF run(2)] by simp
  moreover have "ph_AvailabilityFailures item' c = 3 \<longleftrightarrow> (case map_of answers c of
        None \<Rightarrow> ph_AvailabilityFailures item c = 3
      | Some e \<Rightarrow> \<not> pe_OK e \<and>
          startupFailureConfirmationThreshold (pe_Failure e) 3 (ti_warm t \<and> c = ti_selected t) \<le> ph_AvailabilityFailures item c + 1)"
    if c: "c \<in> set (ti_candidates t)" for c
  proof -
    have same: "ph_AvailabilityFailures item1 = ph_AvailabilityFailures item" "ph_AvailabilityFailures item' = ph_AvailabilityFailures item2"
      using f0(1) f1(1) run(2) by (simp_all add: counters_def)
    have "ph_AvailabilityFailures item' c =
        next_unavailable ?p (ti_warm t \<and> c = ti_selected t) (map_of answers c) (ph_AvailabilityFailures item c)"
      unfolding same ev(2) using c by (simp add: same measured_def drop_unmeasured_failures)
    then show ?thesis by (simp only: confirmed_count [OF assms(2)])
  qed
  ultimately show ?thesis
    using run(3) run(4) [unfolded s2] by (intro exI [of _ item'] exI [of _ calls] exI [of _ err] conjI allI impI) blast+
qed

definition one_tick :: tick_input where
  "one_tick = \<lparr>ti_policyID = ''p'', ti_contract = one_node, ti_candidates = [''A'', ''B''], ti_selected = ''A'', ti_warm = False,
     ti_cold = False, ti_emergency = None, ti_replaced = False, ti_batchStarted = None, ti_sha = (\<lambda>s. s), ti_online = (\<lambda>_. None),
     ti_select = (\<lambda>_ _. None)\<rparr>"

theorem tick_settles_witness:
  "\<exists>item' calls err. settle_tick 0 one_tick [(''A'', no_evidence), (''B'', answered)]
       (newPolicyHealthState\<lparr>ph_AvailabilityFailures := (\<lambda>_. 2)\<rparr>) = Some (item', calls, err) \<and>
     ph_AvailabilityFailures item' ''A'' = 3 \<and> ph_AvailabilityFailures item' ''B'' \<noteq> 3"
proof -
  let ?item = "newPolicyHealthState\<lparr>ph_AvailabilityFailures := (\<lambda>_. 2)\<rparr>"
  have d: "distinct (ti_candidates one_tick)" and cs: "ti_candidates one_tick = [''A'', ''B'']" by (simp_all add: one_tick_def)
  have ok: "counters_ok (tick_settings (ti_contract one_tick) (ti_candidates one_tick)) ?item"
    by (simp add: counters_ok_def tick_settings_bounds newPolicyHealthState_def)
  have e: "\<not> pe_OK no_evidence" "pe_OK answered" by (simp_all add: no_evidence_def answered_def)
  have t: "startupFailureConfirmationThreshold f 3 w \<le> 2 + 1" for f w using threshold_bounds(4) [of 3] by simp
  obtain item' calls err where r: "settle_tick 0 one_tick [(''A'', no_evidence), (''B'', answered)] ?item = Some (item', calls, err)"
    and f: "\<forall>c. c \<in> set (ti_candidates one_tick) \<longrightarrow> (ph_AvailabilityFailures item' c = 3 \<longleftrightarrow>
      (case map_of [(''A'', no_evidence), (''B'', answered)] c of
        None \<Rightarrow> ph_AvailabilityFailures ?item c = 3
      | Some e \<Rightarrow> \<not> pe_OK e \<and>
          startupFailureConfirmationThreshold (pe_Failure e) 3 (ti_warm one_tick \<and> c = ti_selected one_tick) \<le> ph_AvailabilityFailures ?item c + 1))"
    using tick_settles [OF d ok, of 0 "[(''A'', no_evidence), (''B'', answered)]"] by blast
  have "ph_AvailabilityFailures item' ''A'' = 3" "ph_AvailabilityFailures item' ''B'' \<noteq> 3"
    using f [rule_format, of "''A''"] f [rule_format, of "''B''"] e t unfolding cs by simp_all
  then show ?thesis using r by blast
qed

end
