(* ===== verification/Routeros_Transaction.thy ===== *)
theory Routeros_Transaction
  imports Go_Strings "HOL-Library.State_Monad"
begin

text \<open>
  The guarded transaction that applies a candidate to the router, \<^verbatim>\<open>internal/routeros/transaction.go\<close>. The
  transaction is sequential code over an interface (\<^verbatim>\<open>transactionREST\<close> and the function fields of
  \<^verbatim>\<open>Transaction\<close>), so its model is a state monad whose state is the history of the calls with their answers;
  the router and the network are an arbitrary function from the history and the next call to the answer. The
  SHA-256 in the names of scripts and the prohibited patterns of the validation are arguments. Contexts only
  bound the calls and are left out; the deadline that a call receives is kept. The transaction is one that
  \<^verbatim>\<open>NewTransaction\<close> built, so its upload and cleanup functions are set.
\<close>

section \<open>Errors\<close>

datatype transactionFailureState = RolledBack | RecoveryPending | StateUnconfirmed

datatype transport_error = RollbackGuardPending | RollbackGuardUnconfirmed | OtherError string

datatype tx_error =
    Transport transport_error
  | TransactionFailure transactionFailureState "tx_error list"
  | Joined "tx_error list"

definition errors_Join :: "tx_error option list \<Rightarrow> tx_error option" where
  "errors_Join errs = (let es = List.map_filter id errs in if es = [] then None else Some (Joined es))"

definition transactionFailure :: "transactionFailureState \<Rightarrow> tx_error option list \<Rightarrow> tx_error" where
  "transactionFailure state errs = TransactionFailure state (List.map_filter id errs)"

text \<open>\<open>errors.As\<close> for a transaction failure: the first one in the tree.\<close>

fun transactionFailureStateOf :: "tx_error \<Rightarrow> transactionFailureState option"
  and failure_state_list :: "tx_error list \<Rightarrow> transactionFailureState option" where
  "transactionFailureStateOf (Transport e) = None"
| "transactionFailureStateOf (TransactionFailure state es) = Some state"
| "transactionFailureStateOf (Joined es) = failure_state_list es"
| "failure_state_list [] = None"
| "failure_state_list (e # es) =
     (case transactionFailureStateOf e of Some state \<Rightarrow> Some state | None \<Rightarrow> failure_state_list es)"

section \<open>Calls\<close>

datatype call =
    EnsureNoPendingRollbackGuard
  | PrepareDirectDelta string string
  | PrepareImportScript string string
  | Upload string string
  | ArmRollback string nanos string
  | DisarmRollback string
  | WaitSafeModeSettled nanos
  | RunScript string
  | BeginSafeMode string
  | CommitSession nanos
  | AbortSession
  | CleanupImports "string list"
  | HealthCheck
  | BeforeApply
  | Finalize

text \<open>
  An answer: the error, the name of a created scheduler, whether a Safe Mode session was released at the
  history limit, and whether the router carried a request out although the reply was an error.
\<close>

record answer =
  an_err :: "transport_error option"
  an_name :: string
  an_capped :: bool
  an_lost :: bool

type_synonym history = "(call \<times> answer) list"
type_synonym environment = "history \<Rightarrow> call \<Rightarrow> answer"
type_synonym 'a tx = "(history, 'a) state"

definition logged :: "history \<Rightarrow> call \<Rightarrow> answer \<Rightarrow> history" where
  "logged h c a = h @ [(c, a)]"

definition ask :: "environment \<Rightarrow> call \<Rightarrow> answer tx" where
  "ask env c = State (\<lambda>h. (env h c, logged h c (env h c)))"

definition try_call :: "environment \<Rightarrow> call \<Rightarrow> tx_error option tx" where
  "try_call env c = do { a \<leftarrow> ask env c; State_Monad.return (map_option Transport (an_err a)) }"

section \<open>Names and validation\<close>

definition managedScriptName :: "(string \<Rightarrow> string) \<Rightarrow> string \<Rightarrow> string \<Rightarrow> string" where
  "managedScriptName sha role source = ''SB-GATEWAY-'' @ role @ ''-'' @ take 12 (sha source)"

definition managedImportName :: "(string \<Rightarrow> string) \<Rightarrow> string \<Rightarrow> string \<Rightarrow> string" where
  "managedImportName sha role source = ''SB-GATEWAY-'' @ role @ ''-'' @ take 12 (sha source) @ ''.rsc''"

definition import_source :: "string \<Rightarrow> string" where
  "import_source importName = ''/import file-name='' @ [CHR 0x22] @ importName @ [CHR 0x22] @ '' verbose=no''"

abbreviation maxDirectScriptBytes :: nat where "maxDirectScriptBytes \<equiv> 16384"
abbreviation maxManagedImportBytes :: nat where "maxManagedImportBytes \<equiv> 2097152"

definition delta_header :: string where
  "delta_header = ''# SB-GATEWAY generated minimal delta; complete managed sections'' @ [CHR 0x0A]"

definition validateImportedDelta :: "(string \<Rightarrow> bool) \<Rightarrow> string \<Rightarrow> tx_error option" where
  "validateImportedDelta prohibited source =
     (if source = [] \<or> maxManagedImportBytes < length source \<or> CHR 0x00 \<in> set source
      then Some (Transport (OtherError ''imported RouterOS delta must fit in 2 MiB and contain no NUL''))
      else if \<not> hasPrefix source delta_header
      then Some (Transport (OtherError ''direct RouterOS script is not a generated section delta''))
      else if prohibited source then Some (Transport (OtherError ''direct RouterOS delta contains a prohibited command''))
      else None)"

section \<open>Rolling back\<close>

record transactionOptions =
  to_RollbackDelay :: nanos
  to_SettleTimeout :: nanos
  to_HealthCheck :: bool
  to_BeforeApply :: bool
  to_Finalize :: bool
  to_SchedulerGuardOnly :: bool

record transactionResult =
  tr_ApplyScript :: string
  tr_RollbackScript :: string
  tr_HistoryCapReached :: bool
  tr_CleanupPending :: bool
  tr_GuardMode :: string

definition cleanup_imports :: "environment \<Rightarrow> string list \<Rightarrow> tx_error option tx" where
  "cleanup_imports env imports = (if imports \<noteq> [] then try_call env (CleanupImports imports) else State_Monad.return None)"

definition rollbackCommitted :: "environment \<Rightarrow> string \<Rightarrow> string \<Rightarrow> string list \<Rightarrow> nanos \<Rightarrow> tx_error option tx" where
  "rollbackCommitted env rollbackName scheduler imports settleTimeout = do {
     err \<leftarrow> try_call env (RunScript rollbackName);
     if err \<noteq> None then State_Monad.return err
     else do {
       err \<leftarrow> try_call env (WaitSafeModeSettled settleTimeout);
       if err \<noteq> None then State_Monad.return err
       else do {
         err \<leftarrow> try_call env (DisarmRollback scheduler);
         if err \<noteq> None then State_Monad.return err else cleanup_imports env imports
       }
     }
   }"

definition rollbackPrepared :: "environment \<Rightarrow> string \<Rightarrow> string \<Rightarrow> string list \<Rightarrow> nanos \<Rightarrow> tx_error option tx" where
  "rollbackPrepared env rollbackName scheduler imports settleTimeout =
     rollbackCommitted env rollbackName scheduler imports settleTimeout"

definition guardedFailure :: "string \<Rightarrow> tx_error option \<Rightarrow> tx_error option \<Rightarrow> tx_error" where
  "guardedFailure message cause rollbackErr =
     transactionFailure (if rollbackErr \<noteq> None then RecoveryPending else RolledBack)
       [Some (Transport (OtherError message)), cause, rollbackErr]"

definition restoreWhileGuardArmed :: "environment \<Rightarrow> string \<Rightarrow> nanos \<Rightarrow> tx_error option tx" where
  "restoreWhileGuardArmed env rollbackName settleTimeout = do {
     err \<leftarrow> try_call env (RunScript rollbackName);
     if err \<noteq> None then State_Monad.return err else try_call env (WaitSafeModeSettled settleTimeout)
   }"

definition restoreAfterGuardDisarmed :: "environment \<Rightarrow> string \<Rightarrow> string list \<Rightarrow> nanos \<Rightarrow> tx_error option tx" where
  "restoreAfterGuardDisarmed env rollbackName imports settleTimeout = do {
     err \<leftarrow> try_call env (RunScript rollbackName);
     if err \<noteq> None then State_Monad.return err
     else do {
       err \<leftarrow> try_call env (WaitSafeModeSettled settleTimeout);
       if err \<noteq> None then State_Monad.return err else cleanup_imports env imports
     }
   }"

text \<open>\<open>autoReleased\<close> tells whether the session was released at the history limit.\<close>

definition cleanupAfterAbort ::
  "environment \<Rightarrow> string \<Rightarrow> string \<Rightarrow> bool \<Rightarrow> nanos \<Rightarrow> string list \<Rightarrow> tx_error option tx" where
  "cleanupAfterAbort env scheduler rollbackName autoReleased settleTimeout imports = do {
     abortErr \<leftarrow> try_call env AbortSession;
     runErr \<leftarrow> (if autoReleased then try_call env (RunScript rollbackName) else State_Monad.return None);
     let rollbackErr = errors_Join [abortErr, runErr];
     err \<leftarrow> try_call env (WaitSafeModeSettled settleTimeout);
     if err \<noteq> None then State_Monad.return (errors_Join [rollbackErr, err])
     else if rollbackErr \<noteq> None then State_Monad.return rollbackErr
     else do {
       err \<leftarrow> try_call env (DisarmRollback scheduler);
       if err \<noteq> None then State_Monad.return err else cleanup_imports env imports
     }
   }"

definition cleanupUnarmedImports :: "environment \<Rightarrow> string list \<Rightarrow> tx_error option tx" where
  "cleanupUnarmedImports env imports = do {
     err \<leftarrow> try_call env EnsureNoPendingRollbackGuard;
     if err \<noteq> None then State_Monad.return (Some (transactionFailure RecoveryPending [err]))
     else try_call env (CleanupImports imports)
   }"

section \<open>Applying\<close>

type_synonym tx_result = "transactionResult \<times> tx_error option"

text \<open>The common end of both ways to apply: disarm the guard, finalize, remove the imports.\<close>

definition finish_apply ::
  "environment \<Rightarrow> transactionResult \<Rightarrow> string \<Rightarrow> transactionOptions \<Rightarrow> string list \<Rightarrow> tx_result tx" where
  "finish_apply env result scheduler options imports = do {
     err \<leftarrow> try_call env (DisarmRollback scheduler);
     if err \<noteq> None then do {
       rollbackErr \<leftarrow> restoreWhileGuardArmed env (tr_RollbackScript result) (to_SettleTimeout options);
       State_Monad.return (result, Some (transactionFailure (if rollbackErr \<noteq> None then RecoveryPending else RolledBack)
         [Some (Transport (OtherError ''RouterOS rollback guard could not be disarmed'')), err, rollbackErr]))
     }
     else do {
       err \<leftarrow> (if to_Finalize options then try_call env Finalize else State_Monad.return None);
       if err \<noteq> None then do {
         rollbackErr \<leftarrow> restoreAfterGuardDisarmed env (tr_RollbackScript result) imports (to_SettleTimeout options);
         State_Monad.return (result, Some (transactionFailure (if rollbackErr \<noteq> None then StateUnconfirmed else RolledBack)
           [Some (Transport (OtherError ''RouterOS candidate finalization failed'')), err, rollbackErr]))
       }
       else do {
         err \<leftarrow> cleanup_imports env imports;
         State_Monad.return (if err \<noteq> None then result\<lparr>tr_CleanupPending := True\<rparr> else result, None)
       }
     }
   }"

definition applyWithSchedulerGuard ::
  "environment \<Rightarrow> transactionResult \<Rightarrow> string \<Rightarrow> transactionOptions \<Rightarrow> string list \<Rightarrow> tx_result tx" where
  "applyWithSchedulerGuard env result scheduler options imports = do {
     err \<leftarrow> try_call env (RunScript (tr_ApplyScript result));
     if err \<noteq> None then do {
       rollbackErr \<leftarrow> rollbackPrepared env (tr_RollbackScript result) scheduler imports (to_SettleTimeout options);
       State_Monad.return (result, Some (guardedFailure ''RouterOS guarded candidate failed'' err rollbackErr))
     }
     else do {
       err \<leftarrow> try_call env HealthCheck;
       if err \<noteq> None then do {
         rollbackErr \<leftarrow> rollbackPrepared env (tr_RollbackScript result) scheduler imports (to_SettleTimeout options);
         State_Monad.return (result, Some (guardedFailure ''RouterOS candidate failed post-apply health check'' err rollbackErr))
       }
       else finish_apply env result scheduler options imports
     }
   }"

text \<open>The way through a Safe Mode session that has begun.\<close>

definition apply_in_session ::
  "environment \<Rightarrow> transactionResult \<Rightarrow> string \<Rightarrow> transactionOptions \<Rightarrow> string list \<Rightarrow> tx_result tx" where
  "apply_in_session env result scheduler options imports = do {
     err \<leftarrow> try_call env HealthCheck;
     if err \<noteq> None then do {
       cleanupErr \<leftarrow> cleanupAfterAbort env scheduler (tr_RollbackScript result) (tr_HistoryCapReached result) (to_SettleTimeout options) imports;
       State_Monad.return (result, Some (guardedFailure ''RouterOS candidate failed post-apply health check'' err cleanupErr))
     }
     else do {
       err \<leftarrow> try_call env (CommitSession (to_SettleTimeout options));
       if err \<noteq> None then State_Monad.return (result, Some (transactionFailure RecoveryPending [err]))
       else do {
         err \<leftarrow> try_call env (WaitSafeModeSettled (to_SettleTimeout options));
         if err \<noteq> None then State_Monad.return (result, Some (transactionFailure RecoveryPending [err]))
         else finish_apply env result scheduler options imports
       }
     }
   }"

definition applyPrepared ::
  "environment \<Rightarrow> transactionResult \<Rightarrow> string \<Rightarrow> transactionOptions \<Rightarrow> string list \<Rightarrow> tx_result tx" where
  "applyPrepared env result scheduler options imports = do {
     err \<leftarrow> (if to_BeforeApply options then try_call env BeforeApply else State_Monad.return None);
     if err \<noteq> None then do {
       rollbackErr \<leftarrow> rollbackPrepared env (tr_RollbackScript result) scheduler imports (to_SettleTimeout options);
       State_Monad.return (result, Some (guardedFailure ''RouterOS pre-apply runtime guard failed'' err rollbackErr))
     }
     else if to_SchedulerGuardOnly options
     then applyWithSchedulerGuard env (result\<lparr>tr_GuardMode := ''rollback_scheduler''\<rparr>) scheduler options imports
     else do {
       session \<leftarrow> ask env (BeginSafeMode (tr_ApplyScript result));
       if an_err session \<noteq> None then do {
         settleErr \<leftarrow> try_call env (WaitSafeModeSettled (to_SettleTimeout options));
         if settleErr \<noteq> None
         then State_Monad.return (result, Some (transactionFailure RecoveryPending [map_option Transport (an_err session), settleErr]))
         else applyWithSchedulerGuard env (result\<lparr>tr_GuardMode := ''rollback_scheduler_fallback''\<rparr>) scheduler options imports
       }
       else apply_in_session env (result\<lparr>tr_GuardMode := ''ssh_safe_mode'', tr_HistoryCapReached := an_capped session\<rparr>)
              scheduler options imports
     }
   }"

definition classifyRollbackArmFailure :: "transport_error \<Rightarrow> tx_error" where
  "classifyRollbackArmFailure err =
     (if err = RollbackGuardPending \<or> err = RollbackGuardUnconfirmed then transactionFailure RecoveryPending [Some (Transport err)]
      else Transport err)"

definition empty_result :: transactionResult where
  "empty_result = \<lparr>tr_ApplyScript = [], tr_RollbackScript = [], tr_HistoryCapReached = False, tr_CleanupPending = False, tr_GuardMode = []\<rparr>"

definition missing_check :: tx_error where
  "missing_check = Transport (OtherError ''RouterOS post-apply health check is required'')"

definition with_settle :: "transactionOptions \<Rightarrow> transactionOptions" where
  "with_settle options = (if to_SettleTimeout options \<le> 0 then options\<lparr>to_SettleTimeout := 30 * second\<rparr> else options)"

text \<open>Before the guard is armed, a failure removes the imports and reports the join of both errors.\<close>

definition give_up :: "environment \<Rightarrow> transactionResult \<Rightarrow> tx_error option \<Rightarrow> string list \<Rightarrow> tx_result tx" where
  "give_up env result err imports = do {
     cleanupErr \<leftarrow> cleanupUnarmedImports env imports;
     State_Monad.return (result, errors_Join [err, cleanupErr])
   }"

definition ApplyCandidate ::
  "environment \<Rightarrow> (string \<Rightarrow> string) \<Rightarrow> string \<Rightarrow> string \<Rightarrow> transactionOptions \<Rightarrow> tx_result tx" where
  "ApplyCandidate env sha applySource rollbackSource options =
     (if \<not> to_HealthCheck options then State_Monad.return (empty_result, Some missing_check)
      else do {
        let options = with_settle options;
        let rollbackImport = managedImportName sha ''rollback'' rollbackSource;
        let applyImport = managedImportName sha ''apply'' applySource;
        let imports = [applyImport, rollbackImport];
        let rollbackName = managedScriptName sha ''rollback'' (import_source rollbackImport);
        let applyName = managedScriptName sha ''apply'' (import_source applyImport);
        err \<leftarrow> try_call env EnsureNoPendingRollbackGuard;
        if err \<noteq> None then State_Monad.return (empty_result, Some (transactionFailure RecoveryPending [err]))
        else do {
          err \<leftarrow> try_call env (Upload ''rollback'' rollbackSource);
          if err \<noteq> None then State_Monad.return (empty_result, err)
          else do {
            err \<leftarrow> try_call env (Upload ''apply'' applySource);
            if err \<noteq> None then give_up env empty_result err [rollbackImport]
            else do {
              err \<leftarrow> try_call env (PrepareImportScript ''rollback'' rollbackImport);
              if err \<noteq> None then give_up env empty_result err imports
              else do {
                let result = empty_result\<lparr>tr_RollbackScript := rollbackName\<rparr>;
                err \<leftarrow> try_call env (PrepareImportScript ''apply'' applyImport);
                if err \<noteq> None then give_up env result err imports
                else do {
                  let result = result\<lparr>tr_ApplyScript := applyName\<rparr>;
                  armed \<leftarrow> ask env (ArmRollback rollbackName (to_RollbackDelay options) rollbackImport);
                  case an_err armed of
                    Some err \<Rightarrow>
                      let failure = classifyRollbackArmFailure err in
                      if transactionFailureStateOf failure \<noteq> None then State_Monad.return (result, Some failure)
                      else give_up env result (Some failure) imports
                  | None \<Rightarrow> applyPrepared env result (an_name armed) options imports
                }
              }
            }
          }
        }
      })"

definition ApplyDelta ::
  "environment \<Rightarrow> (string \<Rightarrow> string) \<Rightarrow> (string \<Rightarrow> bool) \<Rightarrow> string \<Rightarrow> string \<Rightarrow> transactionOptions \<Rightarrow> tx_result tx" where
  "ApplyDelta env sha prohibited applySource rollbackSource options =
     (if maxDirectScriptBytes < length applySource \<or> maxDirectScriptBytes < length rollbackSource then
        (case validateImportedDelta prohibited applySource of
           Some err \<Rightarrow> State_Monad.return (empty_result, Some err)
         | None \<Rightarrow>
             (case validateImportedDelta prohibited rollbackSource of
                Some err \<Rightarrow> State_Monad.return (empty_result, Some err)
              | None \<Rightarrow> ApplyCandidate env sha applySource rollbackSource options))
      else if \<not> to_HealthCheck options then State_Monad.return (empty_result, Some missing_check)
      else do {
        let options = with_settle options;
        let rollbackName = managedScriptName sha ''rollback'' rollbackSource;
        let applyName = managedScriptName sha ''apply'' applySource;
        err \<leftarrow> try_call env (PrepareDirectDelta ''rollback'' rollbackSource);
        if err \<noteq> None then State_Monad.return (empty_result, err)
        else do {
          let result = empty_result\<lparr>tr_RollbackScript := rollbackName\<rparr>;
          err \<leftarrow> try_call env (PrepareDirectDelta ''apply'' applySource);
          if err \<noteq> None then State_Monad.return (result, err)
          else do {
            let result = result\<lparr>tr_ApplyScript := applyName\<rparr>;
            armed \<leftarrow> ask env (ArmRollback rollbackName (to_RollbackDelay options) []);
            case an_err armed of
              Some err \<Rightarrow> State_Monad.return (result, Some (classifyRollbackArmFailure err))
            | None \<Rightarrow> applyPrepared env result (an_name armed) options []
          }
        }
      })"

section \<open>What a history did to the router\<close>

text \<open>
  The state of the router that a history proves: its configuration (\<open>Unsure\<close> after a script that failed), Safe Mode
  changes that still float and whether their session was dropped, the armed scheduler, the health check of the
  candidate, a failed finalization, and a request to disarm that was carried out although its reply was an error. A dropped
  session is undone when the floating history has settled. An attempt to arm that stays unconfirmed may have armed the
  scheduler; any other error of arming is a definitive rejection. The view follows the calls of the transaction only: the
  armed scheduler is not taken to run by itself while they are made, which it does after one minute at the earliest.
\<close>

datatype router_config = Previous | Candidate | Unsure

record router_view =
  rv_config :: router_config
  rv_floating :: bool
  rv_dropped :: bool
  rv_armed :: bool
  rv_healthy :: bool
  rv_unfinalized :: bool
  rv_lost :: bool

definition initial_view :: router_view where
  "initial_view = \<lparr>rv_config = Previous, rv_floating = False, rv_dropped = False, rv_armed = False, rv_healthy = False,
     rv_unfinalized = False, rv_lost = False\<rparr>"

definition is_rollback :: "string \<Rightarrow> bool" where
  "is_rollback name \<longleftrightarrow> hasPrefix name ''SB-GATEWAY-rollback-''"

definition router_step :: "router_view \<Rightarrow> call \<times> answer \<Rightarrow> router_view" where
  "router_step v e = (let a = snd e; ok = (an_err a = None) in case fst e of
     ArmRollback name delay file \<Rightarrow> if ok \<or> an_err a = Some RollbackGuardUnconfirmed \<and> an_lost a then v\<lparr>rv_armed := True\<rparr> else v
   | DisarmRollback name \<Rightarrow>
       if ok then v\<lparr>rv_armed := False\<rparr> else if an_lost a then v\<lparr>rv_armed := False, rv_lost := True\<rparr> else v
   | RunScript name \<Rightarrow>
       if is_rollback name then v\<lparr>rv_config := if ok then Previous else Unsure\<rparr>
       else v\<lparr>rv_config := if ok then Candidate else Unsure, rv_healthy := False\<rparr>
   | BeginSafeMode name \<Rightarrow>
       v\<lparr>rv_config := if ok then Candidate else Unsure, rv_healthy := False, rv_floating := ok \<and> \<not> an_capped a, rv_dropped := False\<rparr>
   | AbortSession \<Rightarrow> if ok then v\<lparr>rv_dropped := True\<rparr> else v
   | WaitSafeModeSettled timeout \<Rightarrow>
       if ok \<and> rv_floating v \<and> rv_dropped v then v\<lparr>rv_config := Previous, rv_floating := False\<rparr> else v
   | CommitSession timeout \<Rightarrow> if ok then v\<lparr>rv_floating := False\<rparr> else v\<lparr>rv_config := Unsure\<rparr>
   | HealthCheck \<Rightarrow> v\<lparr>rv_healthy := ok\<rparr>
   | Finalize \<Rightarrow> if ok then v else v\<lparr>rv_unfinalized := True\<rparr>
   | _ \<Rightarrow> v)"

definition router_of :: "history \<Rightarrow> router_view" where
  "router_of h = foldl router_step initial_view h"

text \<open>
  A point in a history is guarded when the process may die there: the old configuration is in place, or the
  scheduler on the router will restore it, or the candidate in place passed its health check. Two windows are left: after a
  failed finalization, and after a disarm that was carried out but answered with an error, when the script that restores the
  old configuration has failed as well.
\<close>

definition guarded :: "router_view \<Rightarrow> bool" where
  "guarded v \<longleftrightarrow> rv_config v = Previous \<or> rv_armed v \<or> rv_config v = Candidate \<and> rv_healthy v \<or> rv_unfinalized v \<or>
     rv_lost v \<and> rv_config v = Unsure"

definition always_guarded :: "history \<Rightarrow> bool" where
  "always_guarded h \<longleftrightarrow> (\<forall>n. guarded (router_of (take n h)))"

definition honest :: "tx_error option \<Rightarrow> router_view \<Rightarrow> bool" where
  "honest err v \<longleftrightarrow> (case err of
     None \<Rightarrow> rv_config v = Candidate \<and> rv_healthy v \<and> \<not> rv_armed v \<and> \<not> rv_floating v
   | Some e \<Rightarrow> (case transactionFailureStateOf e of
       None \<Rightarrow> rv_config v = Previous \<and> \<not> rv_armed v
     | Some RolledBack \<Rightarrow> rv_config v = Previous
     | Some RecoveryPending \<Rightarrow> rv_config v = Previous \<or> rv_armed v \<or> rv_lost v \<and> rv_config v = Unsure
     | Some StateUnconfirmed \<Rightarrow> rv_unfinalized v))"

section \<open>Weakest preconditions\<close>

named_theorems wp_simps \<open>weakest preconditions of the transaction monad\<close>

definition wp :: "'a tx \<Rightarrow> ('a \<Rightarrow> history \<Rightarrow> bool) \<Rightarrow> history \<Rightarrow> bool" where
  "wp m Q h = (case run_state m h of (x, h') \<Rightarrow> Q x h')"

lemma wp_return [wp_simps]: "wp (State_Monad.return x) Q h = Q x h"
  by (simp add: wp_def State_Monad.return_def)

lemma wp_bind [wp_simps]: "wp (m \<bind> f) Q h = wp m (\<lambda>x. wp (f x) Q) h"
  by (simp add: wp_def State_Monad.bind_def split: prod.split)

lemma wp_ask [wp_simps]: "wp (ask env c) Q h = Q (env h c) (logged h c (env h c))"
  by (simp add: wp_def ask_def)

lemma wp_try_call [wp_simps]: "wp (try_call env c) Q h = Q (map_option Transport (an_err (env h c))) (logged h c (env h c))"
  by (simp add: try_call_def wp_simps)

lemma wp_if [wp_simps]: "wp (if b then m else m') Q h = (if b then wp m Q h else wp m' Q h)"
  by simp

lemma wp_mono: "wp m Q h \<Longrightarrow> (\<And>x h'. Q x h' \<Longrightarrow> R x h') \<Longrightarrow> wp m R h"
  by (auto simp: wp_def split: prod.splits)

lemma router_of_snoc: "router_of (h @ [e]) = router_step (router_of h) e"
  by (simp add: router_of_def)

lemma router_of_logged [simp]: "router_of (logged h c a) = router_step (router_of h) (c, a)"
  by (simp add: router_of_def logged_def)

lemma always_guarded_snoc: "always_guarded (h @ [e]) \<longleftrightarrow> always_guarded h \<and> guarded (router_step (router_of h) e)"
proof
  assume a: "always_guarded (h @ [e])"
  have "guarded (router_of (take n h))" for n
  proof (cases "n \<le> length h")
    case True
    then show ?thesis using a [unfolded always_guarded_def, rule_format, of n] by simp
  next
    case False
    then show ?thesis using a [unfolded always_guarded_def, rule_format, of "length h"] by simp
  qed
  then show "always_guarded h \<and> guarded (router_step (router_of h) e)"
    using a [unfolded always_guarded_def, rule_format, of "Suc (length h)"] by (simp add: always_guarded_def router_of_snoc)
next
  assume a: "always_guarded h \<and> guarded (router_step (router_of h) e)"
  show "always_guarded (h @ [e])"
    unfolding always_guarded_def
  proof
    fix n
    show "guarded (router_of (take n (h @ [e])))"
      using a by (cases "n \<le> length h") (simp_all add: always_guarded_def take_Cons' router_of_snoc)
  qed
qed

lemma always_guarded_logged [simp]:
  "always_guarded (logged h c a) \<longleftrightarrow> always_guarded h \<and> guarded (router_step (router_of h) (c, a))"
  unfolding logged_def by (rule always_guarded_snoc)

lemma always_guarded_Nil [simp]: "always_guarded []" "router_of [] = initial_view"
  by (simp_all add: always_guarded_def router_of_def guarded_def initial_view_def)

section \<open>Every operation keeps the router guarded\<close>

lemma router_step_simps [simp]:
  "router_step v (ArmRollback name delay file, a) =
     (if an_err a = None \<or> an_err a = Some RollbackGuardUnconfirmed \<and> an_lost a then v\<lparr>rv_armed := True\<rparr> else v)"
  "router_step v (DisarmRollback name, a) =
     (if an_err a = None then v\<lparr>rv_armed := False\<rparr> else if an_lost a then v\<lparr>rv_armed := False, rv_lost := True\<rparr> else v)"
  "is_rollback name \<Longrightarrow> router_step v (RunScript name, a) = v\<lparr>rv_config := if an_err a = None then Previous else Unsure\<rparr>"
  "\<not> is_rollback name \<Longrightarrow> router_step v (RunScript name, a) =
     v\<lparr>rv_config := if an_err a = None then Candidate else Unsure, rv_healthy := False\<rparr>"
  "router_step v (BeginSafeMode name, a) = v\<lparr>rv_config := if an_err a = None then Candidate else Unsure, rv_healthy := False,
     rv_floating := an_err a = None \<and> \<not> an_capped a, rv_dropped := False\<rparr>"
  "router_step v (AbortSession, a) = (if an_err a = None then v\<lparr>rv_dropped := True\<rparr> else v)"
  "router_step v (WaitSafeModeSettled timeout, a) =
     (if an_err a = None \<and> rv_floating v \<and> rv_dropped v then v\<lparr>rv_config := Previous, rv_floating := False\<rparr> else v)"
  "router_step v (CommitSession timeout, a) = (if an_err a = None then v\<lparr>rv_floating := False\<rparr> else v\<lparr>rv_config := Unsure\<rparr>)"
  "router_step v (HealthCheck, a) = v\<lparr>rv_healthy := an_err a = None\<rparr>"
  "router_step v (Finalize, a) = (if an_err a = None then v else v\<lparr>rv_unfinalized := True\<rparr>)"
  "router_step v (BeforeApply, a) = v" "router_step v (CleanupImports files, a) = v" "router_step v (Upload role file, a) = v"
  "router_step v (PrepareDirectDelta role file, a) = v" "router_step v (PrepareImportScript role file, a) = v"
  "router_step v (EnsureNoPendingRollbackGuard, a) = v"
  by (simp_all add: router_step_def Let_def)

text \<open>What an undo promises: without an error the old configuration is back, with one the scheduler still watches.\<close>

definition undone :: "tx_error option \<Rightarrow> history \<Rightarrow> bool" where
  "undone err h \<longleftrightarrow> always_guarded h \<and> rv_config (router_of h) \<noteq> Candidate \<and>
     (rv_config (router_of h) = Previous \<or> err \<noteq> None \<and> rv_armed (router_of h))"

lemma cleanup_imports_wp:
  "wp (cleanup_imports env imports) Q h \<longleftrightarrow>
     (if imports = [] then Q None h
      else Q (map_option Transport (an_err (env h (CleanupImports imports)))) (logged h (CleanupImports imports) (env h (CleanupImports imports))))"
  by (simp add: cleanup_imports_def wp_simps)

lemma rollbackCommitted_wp:
  assumes "always_guarded h" and "rv_armed (router_of h)" and "is_rollback name"
  shows "wp (rollbackCommitted env name scheduler imports timeout) undone h"
  using assms
  by (simp add: rollbackCommitted_def wp_simps cleanup_imports_wp undone_def guarded_def)

lemma restoreWhileGuardArmed_wp:
  assumes "always_guarded h" and "rv_armed (router_of h)" and "is_rollback name"
  shows "wp (restoreWhileGuardArmed env name timeout) undone h"
  using assms by (simp add: restoreWhileGuardArmed_def wp_simps undone_def guarded_def)

lemma errors_Join_None [simp]: "errors_Join [a, b] = None \<longleftrightarrow> a = None \<and> b = None"
  by (cases a; cases b) (simp_all add: errors_Join_def List.map_filter_def)

lemma errors_Join_Some [simp]: "(\<exists>e. errors_Join [a, b] = Some e) \<longleftrightarrow> a \<noteq> None \<or> b \<noteq> None"
  using errors_Join_None [of a b] by (cases "errors_Join [a, b]") auto

lemma cleanupAfterAbort_wp:
  assumes "always_guarded h" and "rv_armed (router_of h)" and "is_rollback name"
    and "rv_floating (router_of h) \<longleftrightarrow> \<not> capped"
  shows "wp (cleanupAfterAbort env scheduler name capped timeout imports)
    (\<lambda>err h. always_guarded h \<and> (rv_config (router_of h) = Previous \<or> err \<noteq> None \<and> rv_armed (router_of h))) h"
  using assms
  by (cases capped; cases "an_err (env h AbortSession)")
    (simp_all add: cleanupAfterAbort_def wp_simps cleanup_imports_wp guarded_def Let_def)

abbreviation settled :: "tx_result \<Rightarrow> history \<Rightarrow> bool" where
  "settled r h \<equiv> always_guarded h \<and> honest (snd r) (router_of h)"

lemma failure_states [simp]:
  "transactionFailureStateOf (transactionFailure state errs) = Some state"
  "transactionFailureStateOf (guardedFailure message cause err) = Some (if err \<noteq> None then RecoveryPending else RolledBack)"
  by (simp_all add: transactionFailure_def guardedFailure_def)

lemma honest_pending [simp]:
  "honest (Some (transactionFailure RecoveryPending errs)) v \<longleftrightarrow>
     rv_config v = Previous \<or> rv_armed v \<or> rv_lost v \<and> rv_config v = Unsure"
  by (simp add: honest_def)

lemma finish_apply_wp:
  assumes "always_guarded h" and "rv_armed (router_of h)" and "rv_config (router_of h) = Candidate" and "rv_healthy (router_of h)"
    and "\<not> rv_floating (router_of h)" and "is_rollback (tr_RollbackScript result)"
  shows "wp (finish_apply env result scheduler options imports) settled h"
  using assms
  by (simp add: finish_apply_def restoreWhileGuardArmed_def restoreAfterGuardDisarmed_def wp_simps cleanup_imports_wp guarded_def honest_def)

lemma applyWithSchedulerGuard_wp:
  assumes "always_guarded h" and "rv_armed (router_of h)" and "\<not> rv_floating (router_of h)"
    and "is_rollback (tr_RollbackScript result)" and "\<not> is_rollback (tr_ApplyScript result)"
  shows "wp (applyWithSchedulerGuard env result scheduler options imports) settled h"
proof -
  have undo: "wp (rollbackPrepared env (tr_RollbackScript result) scheduler imports timeout)
      (\<lambda>e. wp (State_Monad.return (result, Some (guardedFailure message cause e))) settled) h"
    if "always_guarded h" "rv_armed (router_of h)" for h timeout message cause
    unfolding rollbackPrepared_def
    by (rule wp_mono [OF rollbackCommitted_wp [OF that assms(4)]]) (auto simp: undone_def honest_def wp_simps)
  show ?thesis
    using assms by (simp add: applyWithSchedulerGuard_def wp_simps undo finish_apply_wp guarded_def)
qed

lemma apply_in_session_wp:
  assumes "always_guarded h" and "rv_armed (router_of h)" and "rv_config (router_of h) = Candidate"
    and "rv_floating (router_of h) \<longleftrightarrow> \<not> tr_HistoryCapReached result" and "\<not> rv_dropped (router_of h)"
    and "is_rollback (tr_RollbackScript result)"
  shows "wp (apply_in_session env result scheduler options imports) settled h"
proof -
  have undo: "wp (cleanupAfterAbort env scheduler (tr_RollbackScript result) (tr_HistoryCapReached result) timeout imports)
      (\<lambda>e. wp (State_Monad.return (result, Some (guardedFailure message cause e))) settled) h"
    if "always_guarded h" "rv_armed (router_of h)" "rv_floating (router_of h) \<longleftrightarrow> \<not> tr_HistoryCapReached result" for h timeout message cause
    by (rule wp_mono [OF cleanupAfterAbort_wp [OF that(1,2) assms(6) that(3)]]) (auto simp: honest_def wp_simps)
  show ?thesis
    using assms by (simp add: apply_in_session_def wp_simps undo finish_apply_wp guarded_def)
qed

lemma applyPrepared_wp:
  assumes "always_guarded h" and "rv_armed (router_of h)" and "\<not> rv_floating (router_of h)"
    and "is_rollback (tr_RollbackScript result)" and "\<not> is_rollback (tr_ApplyScript result)"
  shows "wp (applyPrepared env result scheduler options imports) settled h"
proof -
  have undo: "wp (rollbackPrepared env (tr_RollbackScript result) scheduler imports timeout)
      (\<lambda>e. wp (State_Monad.return (result, Some (guardedFailure message cause e))) settled) h"
    if "always_guarded h" "rv_armed (router_of h)" for h timeout message cause
    unfolding rollbackPrepared_def
    by (rule wp_mono [OF rollbackCommitted_wp [OF that assms(4)]]) (auto simp: undone_def honest_def wp_simps)
  show ?thesis
    using assms
    by (simp add: applyPrepared_def wp_simps undo applyWithSchedulerGuard_wp apply_in_session_wp guarded_def)
qed

lemma script_roles [simp]:
  "is_rollback (managedScriptName sha ''rollback'' source)" "\<not> is_rollback (managedScriptName sha ''apply'' source)"
  by (simp_all add: is_rollback_def managedScriptName_def)

text \<open>Before the guard is armed nothing has touched the configuration.\<close>

abbreviation untouched :: "history \<Rightarrow> bool" where
  "untouched h \<equiv> always_guarded h \<and> router_of h = initial_view"

lemma give_up_wp:
  assumes "untouched h"
  shows "wp (give_up env result (Some (Transport e)) imports) settled h"
  using assms
  by (auto simp: give_up_def cleanupUnarmedImports_def wp_simps initial_view_def guarded_def honest_def errors_Join_def
      List.map_filter_def transactionFailure_def split: option.splits)

lemma arm_failure_settled:
  "untouched h \<Longrightarrow> settled (result, Some (classifyRollbackArmFailure e)) h"
  by (simp add: classifyRollbackArmFailure_def honest_def initial_view_def)

lemma plain_settled: "untouched h \<Longrightarrow> settled (result, Some (Transport e)) h"
  by (simp add: honest_def initial_view_def)

lemma armed_view:
  assumes "untouched h"
  shows "an_err a = Some e \<Longrightarrow> e \<noteq> RollbackGuardUnconfirmed \<Longrightarrow> untouched (logged h (ArmRollback name delay file) a)"
    "always_guarded (logged h (ArmRollback name delay file) a) \<and> rv_config (router_of (logged h (ArmRollback name delay file) a)) = Previous"
    "an_err a = None \<Longrightarrow> always_guarded (logged h (ArmRollback name delay file) a)"
    "an_err a = None \<Longrightarrow> rv_armed (router_of (logged h (ArmRollback name delay file) a))"
    "\<not> rv_floating (router_of (logged h (ArmRollback name delay file) a))"
  using assms by (simp_all add: guarded_def initial_view_def)

definition reads_only :: "call \<Rightarrow> bool" where
  "reads_only c \<longleftrightarrow> (\<forall>v a. router_step v (c, a) = v)"

lemma reads_only_calls:
  "reads_only EnsureNoPendingRollbackGuard" "reads_only (Upload role file)" "reads_only (PrepareDirectDelta role file)"
  "reads_only (PrepareImportScript role file)"
  by (simp_all add: reads_only_def)

lemma wp_passiveI:
  assumes "reads_only c" and "untouched h"
    and "\<And>e h. untouched h \<Longrightarrow> wp (k (Some (Transport e))) settled h"
    and "\<And>h. untouched h \<Longrightarrow> wp m settled h"
  shows "wp (do { err \<leftarrow> try_call env c; if err \<noteq> None then k err else m }) settled h"
proof -
  have u: "untouched (logged h c (env h c))" using assms(1,2) by (simp add: reads_only_def guarded_def initial_view_def)
  show ?thesis using assms(3,4) [OF u] by (cases "an_err (env h c)") (simp_all add: wp_simps)
qed

lemma wp_armI:
  assumes "untouched h"
    and "\<And>e h. untouched h \<Longrightarrow> wp (k e) settled h"
    and "\<And>h. always_guarded h \<Longrightarrow> rv_config (router_of h) = Previous \<Longrightarrow> wp (k RollbackGuardUnconfirmed) settled h"
    and "is_rollback (tr_RollbackScript result)" "\<not> is_rollback (tr_ApplyScript result)"
  shows "wp (do {
      armed \<leftarrow> ask env (ArmRollback name delay file);
      case an_err armed of Some err \<Rightarrow> k err | None \<Rightarrow> applyPrepared env result (an_name armed) options imports
    }) settled h"
proof (cases "an_err (env h (ArmRollback name delay file))")
  case None
  note armed = armed_view(3,4) [OF assms(1) None] armed_view(5) [OF assms(1)]
  then show ?thesis using applyPrepared_wp [OF armed assms(4,5)] by (simp add: wp_simps None)
next
  case (Some e)
  show ?thesis
  proof (cases "e = RollbackGuardUnconfirmed")
    case True
    then show ?thesis using armed_view(2) [OF assms(1)] assms(3) Some by (simp add: wp_simps del: router_of_logged always_guarded_logged)
  next
    case False
    then show ?thesis using armed_view(1) [OF assms(1) Some] assms(2) Some by (simp add: wp_simps del: router_of_logged always_guarded_logged)
  qed
qed

lemma unconfirmed_settled:
  assumes "always_guarded h" "rv_config (router_of h) = Previous"
  shows "wp (State_Monad.return (result, Some (classifyRollbackArmFailure RollbackGuardUnconfirmed))) settled h"
  using assms by (simp add: classifyRollbackArmFailure_def wp_simps)

lemma candidate_unconfirmed:
  assumes "always_guarded h" "rv_config (router_of h) = Previous"
  shows "wp (let failure = classifyRollbackArmFailure RollbackGuardUnconfirmed in
      if transactionFailureStateOf failure \<noteq> None then State_Monad.return (result, Some failure)
      else give_up env result (Some failure) imports) settled h"
  using unconfirmed_settled [OF assms, of result] by (simp add: Let_def classifyRollbackArmFailure_def)

lemma untouched_leaves:
  assumes "untouched h"
  shows "wp (State_Monad.return (result, Some (Transport e))) settled h"
    "wp (State_Monad.return (result, Some (transactionFailure RecoveryPending [Some (Transport e)]))) settled h"
    "wp (State_Monad.return (result, Some (classifyRollbackArmFailure e'))) settled h"
  using assms arm_failure_settled [OF assms, of result e'] plain_settled [OF assms, of result e]
  by (simp_all add: wp_simps initial_view_def)

lemma candidate_arm_failure:
  assumes "untouched h"
  shows "wp (let failure = classifyRollbackArmFailure e in
      if transactionFailureStateOf failure \<noteq> None then State_Monad.return (result, Some failure)
      else give_up env result (Some failure) imports) settled h"
  using give_up_wp [OF assms, of env result e] untouched_leaves(3) [OF assms, of result e]
  by (simp add: Let_def classifyRollbackArmFailure_def split: if_splits)

lemma ApplyCandidate_wp:
  "wp (ApplyCandidate env sha applySource rollbackSource options) settled []"
proof (cases "to_HealthCheck options")
  case False
  then show ?thesis unfolding ApplyCandidate_def missing_check_def using untouched_leaves(1) [of "[]"] by simp
next
  case True
  then have check: "(\<not> to_HealthCheck options) = False" by simp
  have start: "untouched []" by simp
  show ?thesis
    unfolding ApplyCandidate_def check if_False
    apply (simp only: Let_def)
    apply (rule wp_passiveI, rule reads_only_calls(1), rule start, erule untouched_leaves(2))
    apply (rule wp_passiveI, rule reads_only_calls(2), assumption, erule untouched_leaves(1))
    apply (rule wp_passiveI, rule reads_only_calls(2), assumption, erule give_up_wp)
    apply (rule wp_passiveI, rule reads_only_calls(4), assumption, erule give_up_wp)
    apply (rule wp_passiveI, rule reads_only_calls(4), assumption, erule give_up_wp)
    apply (rule wp_armI, assumption, erule candidate_arm_failure [unfolded Let_def], erule (1) candidate_unconfirmed [unfolded Let_def], simp_all)
    done
qed

lemma validateImportedDelta_plain: "validateImportedDelta prohibited source = Some err \<Longrightarrow> \<exists>e. err = Transport e"
  by (auto simp: validateImportedDelta_def split: if_splits)

lemma ApplyDelta_wp:
  "wp (ApplyDelta env sha prohibited applySource rollbackSource options) settled []"
proof -
  have start: "untouched []" by simp
  let ?big = "maxDirectScriptBytes < length applySource \<or> maxDirectScriptBytes < length rollbackSource"
  consider ?big | "\<not> ?big" "\<not> to_HealthCheck options" | "\<not> ?big" "to_HealthCheck options" by blast
  then show ?thesis
  proof cases
    case 1
    then show ?thesis
      unfolding ApplyDelta_def
      using ApplyCandidate_wp [of env sha applySource rollbackSource options] untouched_leaves(1) [OF start, of empty_result]
      by (auto split: option.split dest!: validateImportedDelta_plain)
  next
    case 2
    then show ?thesis unfolding ApplyDelta_def missing_check_def using untouched_leaves(1) [OF start] by simp
  next
    case 3
    then have skip: "?big = False" "(\<not> to_HealthCheck options) = False" by simp_all
    show ?thesis
      unfolding ApplyDelta_def skip if_False
      apply (simp only: Let_def)
      apply (rule wp_passiveI, rule reads_only_calls(3), rule start, erule untouched_leaves(1))
      apply (rule wp_passiveI, rule reads_only_calls(3), assumption, erule untouched_leaves(1))
      apply (rule wp_armI, assumption, erule untouched_leaves(3), erule (1) unconfirmed_settled, simp_all)
      done
  qed
qed

section \<open>Properties\<close>

text \<open>C9: A transaction may die at any point. Whatever the router and the network answer, after every single call of an
  application the router has its old configuration, or its own scheduler is armed to restore it, or the candidate
  in place has passed the health check. Two windows are left: the one after a failed finalization, and the one after a request
  to disarm was carried out although its reply was an error and the script that restores the old configuration failed as well.
  The application of a small delta and of an uploaded candidate both have this property, for a scheduler that does not run
  while the calls are made.\<close>

theorem transaction_always_guarded:
  "(\<forall>n. let v = router_of (take n (snd (run_state (ApplyDelta env sha prohibited applySource rollbackSource options) []))) in
      rv_config v = Previous \<or> rv_armed v \<or> (rv_config v = Candidate \<and> rv_healthy v) \<or> rv_unfinalized v \<or>
      (rv_lost v \<and> rv_config v = Unsure)) \<and>
   (\<forall>n. let v = router_of (take n (snd (run_state (ApplyCandidate env sha applySource rollbackSource options) []))) in
      rv_config v = Previous \<or> rv_armed v \<or> (rv_config v = Candidate \<and> rv_healthy v) \<or> rv_unfinalized v \<or>
      (rv_lost v \<and> rv_config v = Unsure))"
  using ApplyDelta_wp [of env sha prohibited applySource rollbackSource options] ApplyCandidate_wp [of env sha applySource rollbackSource options]
  by (simp add: wp_def case_prod_unfold always_guarded_def guarded_def Let_def)

text \<open>C10: A transaction reports what it did to the router. Success means that the candidate is in place, has passed the
  health check, floats no longer and is no longer guarded; \<open>RolledBack\<close> that the old configuration is back;
  \<open>RecoveryPending\<close> that it is in place or that the scheduler is still armed, except when a disarm was carried out although
  its reply was an error and the restoring script failed; \<open>StateUnconfirmed\<close> that the finalization had failed; and any other
  error that nothing was changed and no scheduler was armed. As before, the scheduler does not run while the calls are made.\<close>

theorem transaction_reports_honestly:
  assumes "run_state (ApplyDelta env sha prohibited applySource rollbackSource options) [] = ((result, err), h)"
  shows "case err of
      None \<Rightarrow> rv_config (router_of h) = Candidate \<and> rv_healthy (router_of h) \<and> \<not> rv_armed (router_of h) \<and> \<not> rv_floating (router_of h)
    | Some e \<Rightarrow> (case transactionFailureStateOf e of
        None \<Rightarrow> rv_config (router_of h) = Previous \<and> \<not> rv_armed (router_of h)
      | Some RolledBack \<Rightarrow> rv_config (router_of h) = Previous
      | Some RecoveryPending \<Rightarrow> rv_config (router_of h) = Previous \<or> rv_armed (router_of h) \<or>
          (rv_lost (router_of h) \<and> rv_config (router_of h) = Unsure)
      | Some StateUnconfirmed \<Rightarrow> rv_unfinalized (router_of h))"
  using ApplyDelta_wp [of env sha prohibited applySource rollbackSource options] assms
  by (simp add: wp_def honest_def)

text \<open>A router on which everything succeeds but the health check.\<close>

definition unhealthy :: environment where
  "unhealthy h c = \<lparr>an_err = (if c = HealthCheck then Some (OtherError ''down'') else None), an_name = ''guard'', an_capped = False, an_lost = False\<rparr>"

definition scheduler_only :: transactionOptions where
  "scheduler_only = \<lparr>to_RollbackDelay = 0, to_SettleTimeout = 0, to_HealthCheck = True, to_BeforeApply = False, to_Finalize = True,
     to_SchedulerGuardOnly = True\<rparr>"

lemmas transaction_runs = ApplyDelta_def applyPrepared_def applyWithSchedulerGuard_def rollbackPrepared_def rollbackCommitted_def
  finish_apply_def restoreWhileGuardArmed_def cleanup_imports_def try_call_def ask_def State_Monad.bind_def State_Monad.return_def
  scheduler_only_def with_settle_def empty_result_def guardedFailure_def transactionFailure_def Let_def

lemma unhealthy_run:
  "\<exists>result es. fst (run_state (ApplyDelta unhealthy (\<lambda>s. s) (\<lambda>_. False) ''a'' ''b'' scheduler_only) []) =
     (result, Some (TransactionFailure RolledBack es))"
  by (simp add: transaction_runs unhealthy_def)

theorem transaction_reports_honestly_witness:
  "rv_config (router_of (snd (run_state (ApplyDelta unhealthy (\<lambda>s. s) (\<lambda>_. False) ''a'' ''b'' scheduler_only) []))) = Previous"
proof -
  obtain result es where r: "fst (run_state (ApplyDelta unhealthy (\<lambda>s. s) (\<lambda>_. False) ''a'' ''b'' scheduler_only) []) =
      (result, Some (TransactionFailure RolledBack es))"
    using unhealthy_run by blast
  have "run_state (ApplyDelta unhealthy (\<lambda>s. s) (\<lambda>_. False) ''a'' ''b'' scheduler_only) [] =
      ((result, Some (TransactionFailure RolledBack es)), snd (run_state (ApplyDelta unhealthy (\<lambda>s. s) (\<lambda>_. False) ''a'' ''b'' scheduler_only) []))"
    using r by (metis prod.collapse)
  from transaction_reports_honestly [OF this] show ?thesis by simp
qed

text \<open>
  The second window is real: the router deletes the scheduler, the reply to that request is lost, and the script that restores the
  old configuration fails. The transaction reports that a recovery is pending, but nothing on the router will perform it.
\<close>

definition lost_reply :: environment where
  "lost_reply h c = \<lparr>an_err = (case c of
       DisarmRollback _ \<Rightarrow> Some (OtherError ''timeout'')
     | RunScript name \<Rightarrow> if is_rollback name then Some (OtherError ''timeout'') else None
     | _ \<Rightarrow> None), an_name = ''guard'', an_capped = False, an_lost = True\<rparr>"

theorem lost_disarm_is_unguarded:
  "case run_state (ApplyDelta lost_reply (\<lambda>s. s) (\<lambda>_. False) ''a'' ''b'' scheduler_only) [] of ((result, err), h) \<Rightarrow>
     map_option transactionFailureStateOf err = Some (Some RecoveryPending) \<and> rv_config (router_of h) = Unsure \<and> \<not> rv_armed (router_of h)"
  by (simp add: transaction_runs lost_reply_def router_of_def router_step_def initial_view_def logged_def is_rollback_def
      managedScriptName_def List.map_filter_def)

end
