(* ===== verification/Routeros_Guard.thy ===== *)
theory Routeros_Guard
  imports Routeros_Transaction
begin

text \<open>
  The scheduler on the router that guards a transaction, \<^verbatim>\<open>internal/routeros/rollback.go\<close>: arming it, refusing a
  second one, disarming and pruning it, and the bounded wait for floating Safe Mode history. What the REST
  client lists and answers is an argument of every operation. The date and time in the payload of a scheduler are
  kept as the instant they format, and the clock of the router as the instant it was parsed to.
\<close>

section \<open>Schedulers\<close>

record scheduler_row =
  sr_id :: string
  sr_name :: string
  sr_comment :: string
  sr_runCount :: string

definition rollbackSchedulerComment :: string where
  "rollbackSchedulerComment = ''SB-GATEWAY Safe Mode rollback fallback''"

definition scheduler_prefix :: string where
  "scheduler_prefix = ''SB-GATEWAY-safe-rollback-''"

definition hex_char :: "char \<Rightarrow> bool" where
  "hex_char c \<longleftrightarrow> is_digit c \<or> (97 \<le> (of_char c :: nat) \<and> (of_char c :: nat) \<le> 102)"

text \<open>The pattern \<^verbatim>\<open>^SB-GATEWAY-safe-rollback-[0-9a-f]{8}$\<close>.\<close>

definition rollbackSchedulerNamePattern :: "string \<Rightarrow> bool" where
  "rollbackSchedulerNamePattern name \<longleftrightarrow>
     hasPrefix name scheduler_prefix \<and> length name = length scheduler_prefix + 8 \<and> list_all hex_char (drop (length scheduler_prefix) name)"

text \<open>The pattern \<^verbatim>\<open>^SB-GATEWAY-(?:apply|rollback)-[0-9a-f]{12}$\<close>, and the one for imports, which ends in \<^verbatim>\<open>.rsc\<close>.\<close>

definition managed_name :: "string \<Rightarrow> string \<Rightarrow> bool" where
  "managed_name suffix name \<longleftrightarrow> list_ex (\<lambda>prefix.
     hasPrefix name prefix \<and> length name = length prefix + 12 + length suffix \<and>
     list_all hex_char (take 12 (drop (length prefix) name)) \<and> drop (length prefix + 12) name = suffix)
     [''SB-GATEWAY-apply-'', ''SB-GATEWAY-rollback-'']"

definition own_guard :: "scheduler_row \<Rightarrow> bool" where
  "own_guard row \<longleftrightarrow> rollbackSchedulerNamePattern (sr_name row) \<and> sr_comment row = rollbackSchedulerComment"

definition pending_guard :: "scheduler_row \<Rightarrow> bool" where
  "pending_guard row \<longleftrightarrow> own_guard row \<and> (case atoi (sr_runCount row) of None \<Rightarrow> True | Some n \<Rightarrow> n = 0)"

section \<open>Operations\<close>

type_synonym 'a listing = "string + 'a list"

definition ensureNoPendingRollbackGuard :: "scheduler_row listing \<Rightarrow> transport_error option" where
  "ensureNoPendingRollbackGuard rows = (case rows of
     Inl err \<Rightarrow> Some (OtherError err)
   | Inr rows \<Rightarrow> if list_ex pending_guard rows then Some RollbackGuardPending else None)"

record rollbackOptions =
  ro_Delay :: nanos
  ro_ResumeWatchdog :: bool
  ro_ManagedImport :: string

definition clamp_delay :: "nanos \<Rightarrow> nanos" where
  "clamp_delay delay =
     (let delay = (if delay = 0 then 10 * minute else delay);
          delay = (if delay < minute then minute else delay)
      in if hour < delay then hour else delay)"

definition quoted :: "string \<Rightarrow> string" where
  "quoted s = [CHR 0x22] @ s @ [CHR 0x22]"

definition guard_commands :: "string \<Rightarrow> rollbackOptions \<Rightarrow> string \<Rightarrow> string list" where
  "guard_commands scriptName options name =
     [''/system script run '' @ scriptName] @
     (if ro_ResumeWatchdog options then [''/system scheduler enable [find where name='' @ quoted ''SB-GATEWAY-health-watchdog'' @ '']''] else []) @
     (if ro_ManagedImport options \<noteq> [] then [''/file remove [find where name='' @ quoted (ro_ManagedImport options) @ '']''] else []) @
     [''/system scheduler remove [find where name='' @ quoted name @ '']'']"

text \<open>The payload that creates a scheduler.\<close>

record scheduler_payload =
  sp_name :: string
  sp_runAt :: nanos
  sp_interval :: nanos
  sp_onEvent :: "string list"
  sp_policy :: string
  sp_comment :: string
  sp_disabled :: bool

text \<open>A failed request: an HTTP status with the mark of an interrupted command, or a failure of the transport.\<close>

datatype request_error = HTTPError int bool | TransportFailure

definition definitiveRequestRejection :: "request_error \<Rightarrow> bool" where
  "definitiveRequestRejection err = (case err of
     HTTPError status interrupted \<Rightarrow> \<not> interrupted \<and> 400 \<le> status \<and> status < 500
   | TransportFailure \<Rightarrow> False)"

text \<open>\<open>clock\<close> is the parsed time of the router, \<open>nonce\<close> four random bytes in hexadecimal, \<open>put\<close> the request that creates.\<close>

definition armRollback ::
  "scheduler_row listing \<Rightarrow> string + nanos \<Rightarrow> (string + string) \<Rightarrow> (scheduler_payload \<Rightarrow> request_error option) \<Rightarrow> string \<Rightarrow> rollbackOptions \<Rightarrow>
   transport_error + scheduler_payload" where
  "armRollback rows clock nonce put scriptName options =
     (if \<not> managed_name [] scriptName \<or> \<not> hasPrefix scriptName ''SB-GATEWAY-rollback-''
      then Inl (OtherError ''managed RouterOS rollback script name is invalid'')
      else if ro_ManagedImport options \<noteq> [] \<and> \<not> managed_name ''.rsc'' (ro_ManagedImport options)
      then Inl (OtherError ''managed RouterOS rollback import name is invalid'')
      else case ensureNoPendingRollbackGuard rows of
        Some err \<Rightarrow> Inl err
      | None \<Rightarrow>
          (case clock of
             Inl err \<Rightarrow> Inl (OtherError err)
           | Inr now \<Rightarrow>
               (case nonce of
                  Inl err \<Rightarrow> Inl (OtherError ''generate RouterOS rollback scheduler name'')
                | Inr random \<Rightarrow>
                    let name = scheduler_prefix @ random;
                        payload = \<lparr>sp_name = name, sp_runAt = now + clamp_delay (ro_Delay options), sp_interval = 0,
                          sp_onEvent = guard_commands scriptName options name,
                          sp_policy = ''ftp,read,write,test,policy'', sp_comment = rollbackSchedulerComment, sp_disabled = False\<rparr>
                    in case put payload of
                         None \<Rightarrow> Inr payload
                       | Some err \<Rightarrow> Inl (if definitiveRequestRejection err then OtherError ''rejected'' else RollbackGuardUnconfirmed))))"

fun disarm_loop :: "string \<Rightarrow> scheduler_row list \<Rightarrow> string \<Rightarrow> string + string" where
  "disarm_loop name [] found = Inr found"
| "disarm_loop name (row # rows) found =
     (if sr_name row \<noteq> name then disarm_loop name rows found
      else if found \<noteq> [] then Inl ''RouterOS rollback scheduler is ambiguous''
      else if sr_comment row \<noteq> rollbackSchedulerComment then Inl ''refusing to remove an unowned RouterOS scheduler''
      else disarm_loop name rows (sr_id row))"

text \<open>Disarming: the identifiers whose deletion is requested, and the error. \<open>delete\<close> is the request and its error.\<close>

definition disarmRollback ::
  "scheduler_row listing \<Rightarrow> (string \<Rightarrow> string option) \<Rightarrow> string \<Rightarrow> string list \<times> string option" where
  "disarmRollback rows delete name =
     (if \<not> rollbackSchedulerNamePattern name then ([], Some ''RouterOS rollback scheduler name is invalid'')
      else case rows of
        Inl err \<Rightarrow> ([], Some err)
      | Inr rows \<Rightarrow>
          (case disarm_loop name rows [] of
             Inl err \<Rightarrow> ([], Some err)
           | Inr found \<Rightarrow> if found = [] then ([], None) else ([found], delete found)))"

text \<open>Pruning: the identifiers deleted, in order, up to the first error. \<open>delete\<close> is the request.\<close>

definition completed_guard :: "scheduler_row \<Rightarrow> bool" where
  "completed_guard row \<longleftrightarrow> own_guard row \<and> 1 \<le> (case atoi (sr_runCount row) of None \<Rightarrow> 0 | Some n \<Rightarrow> n)"

fun prune_loop :: "(string \<Rightarrow> string option) \<Rightarrow> scheduler_row list \<Rightarrow> string list \<times> string option" where
  "prune_loop delete [] = ([], None)"
| "prune_loop delete (row # rows) =
     (if \<not> completed_guard row then prune_loop delete rows
      else if sr_id row = [] then ([], Some ''completed RouterOS rollback scheduler has no identifier'')
      else case delete (sr_id row) of
        Some err \<Rightarrow> ([], Some err)
      | None \<Rightarrow> (case prune_loop delete rows of (removed, err) \<Rightarrow> (sr_id row # removed, err)))"

definition floating_history :: "string list \<Rightarrow> bool" where
  "floating_history rows \<longleftrightarrow> list_ex (\<lambda>value. toLower value = ''true'') rows"

definition pruneCompletedRollbacks ::
  "string listing \<Rightarrow> scheduler_row listing \<Rightarrow> (string \<Rightarrow> string option) \<Rightarrow> string list \<times> string option" where
  "pruneCompletedRollbacks history rows delete = (case history of
     Inl err \<Rightarrow> ([], Some err)
   | Inr values \<Rightarrow>
       if floating_history values then ([], None)
       else (case rows of Inl err \<Rightarrow> ([], Some err) | Inr rows \<Rightarrow> prune_loop delete rows))"

section \<open>Waiting\<close>

text \<open>
  The wait for floating history. The \<open>k\<close>-th poll answers \<open>poll k\<close> and takes \<open>took k\<close>; \<open>cancelled k\<close> tells that the context
  ends during the wait that follows it. The result has the number of polls.
\<close>

function settle_loop ::
  "(nat \<Rightarrow> string listing) \<Rightarrow> (nat \<Rightarrow> nat) \<Rightarrow> (nat \<Rightarrow> bool) \<Rightarrow> nanos \<Rightarrow> nanos \<Rightarrow> nat \<Rightarrow> string option \<times> nat" where
  "settle_loop poll took cancelled deadline now k = (case poll k of
     Inl err \<Rightarrow> (Some err, Suc k)
   | Inr values \<Rightarrow>
       if \<not> floating_history values then (None, Suc k)
       else
         let remaining = deadline - (now + int (took k)) in
         if remaining \<le> 0 then (Some ''RouterOS Safe Mode floating history did not settle'', Suc k)
         else if cancelled k then (Some ''context ended'', Suc k)
         else settle_loop poll took cancelled deadline (now + int (took k) + min (250 * millisecond) remaining) (Suc k))"
  by pat_completeness auto
termination
  by (relation "measure (\<lambda>(_, _, _, deadline, now, _). nat (deadline - now))") auto

declare settle_loop.simps [simp del]

definition waitSafeModeSettled ::
  "(nat \<Rightarrow> string listing) \<Rightarrow> (nat \<Rightarrow> nat) \<Rightarrow> (nat \<Rightarrow> bool) \<Rightarrow> nanos \<Rightarrow> nanos \<Rightarrow> string option \<times> nat" where
  "waitSafeModeSettled poll took cancelled timeout now =
     settle_loop poll took cancelled (now + (if timeout \<le> 0 then 30 * second else timeout)) now 0"

section \<open>Facts\<close>

lemma clamp_delay_bounds: "minute \<le> clamp_delay delay" "clamp_delay delay \<le> hour"
  by (simp_all add: clamp_delay_def Let_def)

lemma hasPrefix_append [simp]: "hasPrefix (p @ s) p"
  by (induction p) auto

lemma scheduler_name: "length random = 8 \<Longrightarrow> list_all hex_char random \<Longrightarrow> rollbackSchedulerNamePattern (scheduler_prefix @ random)"
  by (simp add: rollbackSchedulerNamePattern_def)

lemma disarm_loop_absent: "name \<notin> sr_name ` set rows \<Longrightarrow> disarm_loop name rows found = Inr found"
  by (induction rows) auto

lemma disarm_loop_unique:
  assumes "row \<in> set rows" and "\<And>r. r \<in> set rows \<Longrightarrow> sr_name r = sr_name row \<Longrightarrow> r = row" and "distinct rows"
    and "sr_comment row = rollbackSchedulerComment"
  shows "disarm_loop (sr_name row) rows [] = Inr (sr_id row)"
  using assms(1-3)
proof (induction rows)
  case (Cons r rows)
  show ?case
  proof (cases "sr_name r = sr_name row")
    case True
    then have r: "r = row" using Cons.prems(2) by simp
    then have "sr_name row \<notin> sr_name ` set rows" using Cons.prems(2,3) by force
    then show ?thesis using r assms(4) disarm_loop_absent by simp
  next
    case False
    then show ?thesis using Cons by auto
  qed
qed simp

lemma disarm_loop_sound:
  "disarm_loop name rows found = Inr x \<Longrightarrow> x \<noteq> found \<Longrightarrow>
   \<exists>row \<in> set rows. sr_name row = name \<and> sr_comment row = rollbackSchedulerComment \<and> sr_id row = x"
proof (induction rows arbitrary: found)
  case (Cons row rows)
  show ?case
  proof (cases "sr_name row = name")
    case False
    then show ?thesis using Cons by auto
  next
    case True
    then have step: "found = []" "sr_comment row = rollbackSchedulerComment" "disarm_loop name rows (sr_id row) = Inr x"
      using Cons.prems(1) by (auto split: if_splits)
    show ?thesis using Cons.IH [OF step(3)] step(2) True by (cases "x = sr_id row") auto
  qed
qed simp

lemma prune_loop_completed:
  "set (fst (prune_loop delete rows)) \<subseteq> sr_id ` {row \<in> set rows. completed_guard row}"
proof (induction rows)
  case (Cons row rows)
  then show ?case by (auto split: option.split prod.split)
qed simp

lemma pending_not_completed: "pending_guard row \<Longrightarrow> \<not> completed_guard row"
  by (auto simp: pending_guard_def completed_guard_def split: option.splits)

lemma settle_loop_result:
  assumes "settle_loop poll took cancelled deadline now k = (err, n)"
  shows "k < n \<and> int (n - k) \<le> (max 0 (deadline - now) + 249999999) div (250 * millisecond) + 1 \<and>
    (err = None \<longleftrightarrow> (\<exists>values. poll (n - 1) = Inr values \<and> \<not> floating_history values)) \<and>
    (\<forall>i. k \<le> i \<and> i < n - 1 \<longrightarrow> (\<exists>values. poll i = Inr values \<and> floating_history values))"
  using assms
proof (induction poll took cancelled deadline now k rule: settle_loop.induct)
  case (1 poll took cancelled deadline now k)
  let ?later = "now + int (took k)" let ?remaining = "deadline - ?later"
  let ?next = "?later + min (250 * millisecond) ?remaining"
  show ?case
  proof (cases "\<exists>values. poll k = Inr values \<and> floating_history values \<and> 0 < ?remaining \<and> \<not> cancelled k")
    case False
    then have "n = Suc k" "err = None \<longleftrightarrow> (\<exists>values. poll k = Inr values \<and> \<not> floating_history values)"
      using "1.prems" unfolding settle_loop.simps [of poll took cancelled deadline now k] Let_def
      by (auto split: sum.splits if_splits)
    then show ?thesis by (auto simp: pos_imp_zdiv_nonneg_iff)
  next
    case True
    then obtain vs where v: "poll k = Inr vs" "floating_history vs" "0 < ?remaining" "\<not> cancelled k" by blast
    have "settle_loop poll took cancelled deadline ?next (Suc k) = (err, n)"
      using "1.prems" v unfolding settle_loop.simps [of poll took cancelled deadline now k] Let_def by simp
    note ih = "1.IH" [OF v(1) _ refl _ v(4) this]
    have h: "Suc k < n" "int (n - Suc k) \<le> (max 0 (deadline - ?next) + 249999999) div (250 * millisecond) + 1"
        "err = None \<longleftrightarrow> (\<exists>values. poll (n - 1) = Inr values \<and> \<not> floating_history values)"
        "\<forall>i. Suc k \<le> i \<and> i < n - 1 \<longrightarrow> (\<exists>values. poll i = Inr values \<and> floating_history values)"
      using ih v by auto
    have "int (n - k) \<le> (max 0 (deadline - now) + 249999999) div (250 * millisecond) + 1"
    proof (cases "250 * millisecond \<le> ?remaining")
      case True
      then have "max 0 (deadline - ?next) + 249999999 \<le> (max 0 (deadline - now) + 249999999) + (- 1) * (250 * millisecond)" by simp
      then have "(max 0 (deadline - ?next) + 249999999) div (250 * millisecond) \<le>
          ((max 0 (deadline - now) + 249999999) + (- 1) * (250 * millisecond)) div (250 * millisecond)"
        by (rule zdiv_mono1) simp
      also have "\<dots> = (max 0 (deadline - now) + 249999999) div (250 * millisecond) - 1" by simp
      finally show ?thesis using h(1,2) by linarith
    next
      case False
      then have "deadline - ?next = 0" by simp
      then have "n - Suc k \<le> 1" using h(2) by simp
      moreover have "1 \<le> (max 0 (deadline - now) + 249999999) div (250 * millisecond)" using v(3) by simp
      ultimately show ?thesis by linarith
    qed
    moreover have "\<forall>i. k \<le> i \<and> i < n - 1 \<longrightarrow> (\<exists>values. poll i = Inr values \<and> floating_history values)"
      using h(4) v(1,2) by (metis le_antisym not_less_eq_eq)
    ultimately show ?thesis using h(1,3) by simp
  qed
qed

section \<open>Properties\<close>

text \<open>C23: The wait for Safe Mode ends. It polls at least once and at most once per 250 milliseconds of its timeout, rounded up,
  plus one; it succeeds exactly when its last poll shows no floating history, and every poll before that one
  showed floating history.\<close>

theorem settle_wait_terminates:
  "case waitSafeModeSettled poll took cancelled timeout now of (err, polls) \<Rightarrow>
     0 < polls \<and> int polls \<le> ((if timeout \<le> 0 then 30 * second else timeout) + 249999999) div (250 * millisecond) + 1 \<and>
     (err = None \<longleftrightarrow> (\<exists>values. poll (polls - 1) = Inr values \<and> \<not> floating_history values)) \<and>
     (\<forall>i. i < polls - 1 \<longrightarrow> (\<exists>values. poll i = Inr values \<and> floating_history values))"
proof -
  obtain err n where r: "waitSafeModeSettled poll took cancelled timeout now = (err, n)" by fastforce
  show ?thesis
    using settle_loop_result [OF r [unfolded waitSafeModeSettled_def]] unfolding r by (simp split: if_splits)
qed

theorem settle_wait_terminates_witness:
  "case waitSafeModeSettled (\<lambda>k. Inr [if k < 3 then ''TRUE'' else ''false'']) (\<lambda>_. 1000) (\<lambda>_. False) second 0 of
     (err, polls) \<Rightarrow> 0 < polls \<and> polls \<le> 5"
proof -
  obtain err n where r: "waitSafeModeSettled (\<lambda>k. Inr [if k < 3 then ''TRUE'' else ''false'']) (\<lambda>_. 1000) (\<lambda>_. False) second 0 = (err, n)"
    by fastforce
  show ?thesis
    using settle_wait_terminates [where poll = "\<lambda>k. Inr [if k < 3 then ''TRUE'' else ''false'']" and took = "\<lambda>_. 1000" and
      cancelled = "\<lambda>_. False" and timeout = second and now = 0]
    unfolding r by simp
qed

text \<open>C22: There is at most one rollback guard, and only the owner touches it. Arming succeeds only when no guard is listed as
  pending, for a run between one minute and one hour from the clock of the router that starts with the rollback
  script. While the created scheduler is listed and has not run, arming again is refused, pruning does not delete
  it, and disarming it by its name requests the deletion of exactly it and returns the error of that request.\<close>

theorem rollback_guard_exclusive:
  assumes "armRollback rows (Inr now) (Inr random) put script options = Inr payload"
    and "length random = 8" "list_all hex_char random"
    and "row \<in> set later" "distinct (map sr_name later)" "distinct (map sr_id later)"
    and "sr_name row = sp_name payload" "sr_comment row = sp_comment payload" "sr_runCount row = ''0''" "sr_id row \<noteq> []"
  shows "(\<exists>listed. rows = Inr listed \<and> \<not> list_ex pending_guard listed) \<and>
    minute \<le> sp_runAt payload - now \<and> sp_runAt payload - now \<le> hour \<and> hd (sp_onEvent payload) = ''/system script run '' @ script \<and>
    (\<forall>clock nonce put script options. \<exists>err. armRollback (Inr later) clock nonce put script options = Inl err) \<and>
    sr_id row \<notin> set (fst (pruneCompletedRollbacks history (Inr later) delete)) \<and>
    disarmRollback (Inr later) delete' (sp_name payload) = ([sr_id row], delete' (sr_id row))"
proof -
  have e: "ensureNoPendingRollbackGuard rows = None"
    and p: "payload = \<lparr>sp_name = scheduler_prefix @ random, sp_runAt = now + clamp_delay (ro_Delay options), sp_interval = 0,
      sp_onEvent = guard_commands script options (scheduler_prefix @ random), sp_policy = ''ftp,read,write,test,policy'', sp_comment = rollbackSchedulerComment, sp_disabled = False\<rparr>"
    using assms(1) by (auto simp: armRollback_def Let_def split: if_splits option.splits)
  have name: "rollbackSchedulerNamePattern (sp_name payload)" using scheduler_name [OF assms(2,3)] p by simp
  have "atoi ''0'' = Some 0" by (simp add: parseInt64_def parse_unsigned_def is_digit_def digits_value_def digit_value_def)
  then have pending: "pending_guard row" using assms(7-9) name p by (simp add: pending_guard_def own_guard_def)
  then have "list_ex pending_guard later" using assms(4) by (auto simp: list_ex_iff)
  then have again: "\<exists>err. armRollback (Inr later) clock nonce put script options = Inl err" for clock nonce put script options
    by (simp add: armRollback_def ensureNoPendingRollbackGuard_def)
  have "sr_id row \<notin> sr_id ` {r \<in> set later. completed_guard r}"
    using pending_not_completed [OF pending] assms(4,6) by (auto simp: distinct_map inj_on_def)
  then have prune: "sr_id row \<notin> set (fst (pruneCompletedRollbacks history (Inr later) delete))"
    using prune_loop_completed [of delete later] by (auto simp: pruneCompletedRollbacks_def split: sum.split)
  have "disarm_loop (sr_name row) later [] = Inr (sr_id row)"
    using assms(4,5,8) p by (intro disarm_loop_unique) (auto simp: distinct_map inj_on_def)
  then have "disarmRollback (Inr later) delete' (sp_name payload) = ([sr_id row], delete' (sr_id row))"
    using name assms(7,10) by (simp add: disarmRollback_def)
  then show ?thesis
    using e p again prune clamp_delay_bounds [of "ro_Delay options"]
    by (auto simp: ensureNoPendingRollbackGuard_def guard_commands_def split: sum.splits if_splits)
qed

definition plain_guard :: rollbackOptions where
  "plain_guard = \<lparr>ro_Delay = 0, ro_ResumeWatchdog = False, ro_ManagedImport = []\<rparr>"

theorem rollback_guard_exclusive_witness:
  "\<exists>payload. armRollback (Inr []) (Inr 0) (Inr ''0123abcd'') (\<lambda>_. None) ''SB-GATEWAY-rollback-0123456789ab'' plain_guard = Inr payload \<and>
     sp_runAt payload \<le> hour \<and>
     disarmRollback (Inr [\<lparr>sr_id = ''*1'', sr_name = sp_name payload, sr_comment = sp_comment payload, sr_runCount = ''0''\<rparr>])
       (\<lambda>i. Some (''lost '' @ i)) (sp_name payload) = ([''*1''], Some ''lost *1'')"
proof -
  obtain payload where r: "armRollback (Inr []) (Inr 0) (Inr ''0123abcd'') (\<lambda>_. None) ''SB-GATEWAY-rollback-0123456789ab'' plain_guard = Inr payload"
    by (simp add: armRollback_def managed_name_def hex_char_def is_digit_def plain_guard_def ensureNoPendingRollbackGuard_def Let_def)
  let ?row = "\<lparr>sr_id = ''*1'', sr_name = sp_name payload, sr_comment = sp_comment payload, sr_runCount = ''0''\<rparr>"
  have "sp_runAt payload - 0 \<le> hour \<and> disarmRollback (Inr [?row]) (\<lambda>i. Some (''lost '' @ i)) (sp_name payload) = ([sr_id ?row], Some (''lost '' @ sr_id ?row))"
    using rollback_guard_exclusive [OF r, of ?row "[?row]" _ _ "\<lambda>i. Some (''lost '' @ i)"] by (simp add: hex_char_def is_digit_def)
  then show ?thesis using r by auto
qed

end
