(* ===== verification/Watchdog_Checks.thy ===== *)
theory Watchdog_Checks
  imports Go_Strings
begin

text \<open>
  The parts of the watchdog that decide from one observation: its settings, the classes of failures, the window in
  which a restarted core may recover (\<^verbatim>\<open>core_recovery.go\<close>), the guard of a running application
  (\<^verbatim>\<open>internal/applyguard\<close>), the readiness lease (\<^verbatim>\<open>internal/runtimeproof/lease.go\<close>), the history of restarts, and
  the deep checks that run beside the loop (\<^verbatim>\<open>deep_checks.go\<close>). Files are their contents, \<open>None\<close> for a file that is
  not there.
\<close>

section \<open>Settings\<close>

record settings =
  st_interval :: nanos
  st_failureThreshold :: int
  st_recoveryThreshold :: int
  st_restartBudget :: int
  st_deepInterval :: nanos
  st_startupGrace :: nanos

definition boundedInt :: "string \<Rightarrow> int \<Rightarrow> int \<Rightarrow> int \<Rightarrow> int" where
  "boundedInt value fallback minimum maximum =
     (if 5 < length value then fallback
      else case atoi value of
        None \<Rightarrow> fallback
      | Some parsed \<Rightarrow> if parsed < minimum \<or> maximum < parsed then fallback else parsed)"

text \<open>\<open>strings.Trim(value, "\"'")\<close>.\<close>

definition unquote :: "string \<Rightarrow> string" where
  "unquote s = (let quote = (\<lambda>c. c = CHR 0x22 \<or> c = CHR 0x27) in rev (dropWhile quote (rev (dropWhile quote s))))"

definition setting_line :: "string \<Rightarrow> (string \<times> string) option" where
  "setting_line raw =
     (let line = trimSpace raw in
      if line = [] \<or> hasPrefix line ''#'' then None
      else case after_byte CHR ''='' line of
        None \<Rightarrow> None
      | Some value \<Rightarrow> Some (trimSpace (takeWhile (\<lambda>c. c \<noteq> CHR ''='') line), unquote (trimSpace value)))"

definition parseSettingsFile :: "string \<Rightarrow> string \<rightharpoonup> string" where
  "parseSettingsFile data = map_of (rev (List.map_filter setting_line (split_byte CHR 0x0A data)))"

definition setting_value :: "(string \<rightharpoonup> string) \<Rightarrow> (string \<rightharpoonup> string) \<Rightarrow> string \<Rightarrow> int \<Rightarrow> string" where
  "setting_value environ parsed key fallback =
     (case (if key = ''SB_WATCHDOG_STARTUP_GRACE_SECONDS'' then None else parsed key) of
        Some v \<Rightarrow> v
      | None \<Rightarrow> (case environ key of Some v \<Rightarrow> if v = [] then itoa fallback else v | None \<Rightarrow> itoa fallback))"

text \<open>\<open>environ\<close> is the environment, \<open>file\<close> the settings file when it can be read.\<close>

definition loadSettings :: "(string \<rightharpoonup> string) \<Rightarrow> string option \<Rightarrow> settings" where
  "loadSettings environ file =
     (let parsed = (case file of None \<Rightarrow> Map.empty | Some data \<Rightarrow> parseSettingsFile data);
          get = (\<lambda>key fallback. boundedInt (setting_value environ parsed key fallback) fallback)
      in \<lparr>st_interval = get ''SB_WATCHDOG_INTERVAL_SECONDS'' 5 5 300 * second,
          st_failureThreshold = get ''SB_WATCHDOG_FAILURE_THRESHOLD'' 3 1 20,
          st_recoveryThreshold = get ''SB_WATCHDOG_RECOVERY_THRESHOLD'' 3 1 20,
          st_restartBudget = get ''SB_WATCHDOG_MAX_RESTARTS_PER_HOUR'' 6 1 60,
          st_deepInterval = get ''SB_WATCHDOG_DEEP_PROBE_INTERVAL_SECONDS'' 30 10 300 * second,
          st_startupGrace = get ''SB_WATCHDOG_STARTUP_GRACE_SECONDS'' 210 0 300 * second\<rparr>)"

definition settings_ok :: "settings \<Rightarrow> bool" where
  "settings_ok st \<longleftrightarrow> 5 * second \<le> st_interval st \<and> st_interval st \<le> 300 * second \<and>
     1 \<le> st_failureThreshold st \<and> st_failureThreshold st \<le> 20 \<and> 1 \<le> st_recoveryThreshold st \<and> st_recoveryThreshold st \<le> 20 \<and>
     1 \<le> st_restartBudget st \<and> st_restartBudget st \<le> 60 \<and> 10 * second \<le> st_deepInterval st \<and> st_deepInterval st \<le> 300 * second \<and>
     0 \<le> st_startupGrace st \<and> st_startupGrace st \<le> 300 * second"

lemma boundedInt_range: "minimum \<le> fallback \<Longrightarrow> fallback \<le> maximum \<Longrightarrow>
  minimum \<le> boundedInt value fallback minimum maximum \<and> boundedInt value fallback minimum maximum \<le> maximum"
  by (auto simp: boundedInt_def split: option.split)

lemma loadSettings_ok: "settings_ok (loadSettings environ file)"
  by (simp add: settings_ok_def loadSettings_def Let_def boundedInt_range)

section \<open>Failures\<close>

datatype failureClass = ControlPlane | DataPlane

definition controlPlaneOnlyFailure :: "string list \<Rightarrow> bool" where
  "controlPlaneOnlyFailure reasons \<longleftrightarrow> reasons \<noteq> [] \<and> list_all (\<lambda>r. r = ''api_configured'' \<or> r = ''api_ready'') reasons"

abbreviation controlPlaneThreshold :: int where "controlPlaneThreshold \<equiv> 24"

definition failureThresholdForReasons :: "int \<Rightarrow> string list \<Rightarrow> int" where
  "failureThresholdForReasons base reasons =
     (if \<not> controlPlaneOnlyFailure reasons then base else if base < controlPlaneThreshold then controlPlaneThreshold else base)"

definition classifyFailure :: "string list \<Rightarrow> failureClass" where
  "classifyFailure reasons = (if controlPlaneOnlyFailure reasons then ControlPlane else DataPlane)"

definition nextFailureStreak :: "failureClass option \<Rightarrow> int \<Rightarrow> string list \<Rightarrow> failureClass \<times> int" where
  "nextFailureStreak previous count reasons =
     (let current = classifyFailure reasons in if Some current \<noteq> previous then (current, 1) else (current, count + 1))"

definition recoverySuccessThreshold :: "int \<Rightarrow> bool \<Rightarrow> bool \<Rightarrow> int" where
  "recoverySuccessThreshold configured leasePublished liveLease =
     (if leasePublished \<and> liveLease then 1 else if \<not> leasePublished then 1 else configured)"

section \<open>Recovery of the core\<close>

record coreRecoveryWindow =
  cw_generation :: string
  cw_deadline :: "nanos option"

definition verified :: "string \<Rightarrow> coreRecoveryWindow \<Rightarrow> coreRecoveryWindow" where
  "verified generation w = (if generation = [] then w else w\<lparr>cw_generation := generation, cw_deadline := None\<rparr>)"

definition recoverable :: "string \<Rightarrow> bool" where
  "recoverable reason \<longleftrightarrow> reason \<in> {''core_startup'', ''core_process'', ''tcp_listener'', ''udp_listener'', ''tproxy_policy_rule'',
     ''tproxy_local_route'', ''transparent_nft''}"

definition deferFailures :: "nanos \<Rightarrow> nanos \<Rightarrow> string \<Rightarrow> string list \<Rightarrow> coreRecoveryWindow \<Rightarrow> bool \<times> coreRecoveryWindow" where
  "deferFailures now maximum generation reasons w =
     (if cw_generation w = [] \<or> maximum \<le> 0 \<or> reasons = [] then (False, w)
      else if cw_deadline w = None \<and> generation = cw_generation w then (False, w)
      else
        let deadline = (case cw_deadline w of None \<Rightarrow> now + maximum | Some d \<Rightarrow> d);
            w = w\<lparr>cw_deadline := Some deadline\<rparr>
        in (now < deadline \<and> list_all recoverable reasons, w))"

section \<open>The guard of an application\<close>

definition parseInt32 :: "string \<Rightarrow> int option" where
  "parseInt32 s = (case parseInt64 s of None \<Rightarrow> None | Some v \<Rightarrow> if - (2 ^ 31) \<le> v \<and> v < 2 ^ 31 then Some v else None)"

abbreviation unix_seconds :: "nanos \<Rightarrow> int" where "unix_seconds now \<equiv> now div second"

definition guard_active :: "string \<Rightarrow> nanos \<Rightarrow> (int \<Rightarrow> bool) \<Rightarrow> bool" where
  "guard_active data now alive =
     (let fs = Go_Strings.fields data in
      if length fs < 2 \<or> 3 < length fs then False
      else case (parseInt32 (fs ! 0), parseInt64 (fs ! 1), if length fs = 3 then parseInt64 (fs ! 2) else parseInt64 (fs ! 1)) of
        (Some pid, Some started, Some refreshed) \<Rightarrow>
          let age = unix_seconds now - started; heartbeat = unix_seconds now - refreshed in
          1 \<le> pid \<and> started \<le> refreshed \<and> 0 \<le> age \<and> age \<le> 1800 \<and> 0 \<le> heartbeat \<and> heartbeat \<le> 90 \<and> alive pid
      | _ \<Rightarrow> False)"

section \<open>The readiness lease\<close>

definition ReadinessLeaseTTL :: "int \<Rightarrow> int" where
  "ReadinessLeaseTTL intervalSeconds = (if intervalSeconds \<le> 5 then 15 else if 448 \<le> intervalSeconds then 900 else intervalSeconds * 2 + 5)"

definition ReadinessLeaseAge :: "string option \<Rightarrow> nanos \<Rightarrow> int option" where
  "ReadinessLeaseAge file now = (case file of
     None \<Rightarrow> None
   | Some body \<Rightarrow>
       (let text = trimSpace body in
        if 12 < length text then None
        else case parseInt64 text of
          None \<Rightarrow> None
        | Some issued \<Rightarrow> if unix_seconds now - issued < 0 then None else Some (unix_seconds now - issued)))"

definition liveLease :: "settings \<Rightarrow> nanos \<Rightarrow> string option \<Rightarrow> bool" where
  "liveLease current now file = (case ReadinessLeaseAge file now of
     None \<Rightarrow> False | Some age \<Rightarrow> age \<le> ReadinessLeaseTTL (st_interval current div second))"

definition lease_body :: "nanos \<Rightarrow> string" where
  "lease_body now = itoa (unix_seconds now) @ [CHR 0x0A]"

section \<open>The history of restarts\<close>

definition parse_stamps :: "string \<Rightarrow> int list" where
  "parse_stamps data = List.map_filter (\<lambda>line. parseInt64 (trimSpace line)) (split_byte CHR 0x0A data)"

definition timestampBody :: "int list \<Rightarrow> string" where
  "timestampBody stamps = concat (map (\<lambda>v. itoa v @ [CHR 0x0A]) stamps)"

definition recent_stamps :: "nanos \<Rightarrow> int list \<Rightarrow> int list" where
  "recent_stamps now stamps = filter (\<lambda>v. unix_seconds (now - hour) < v \<and> v \<le> unix_seconds now) stamps"

text \<open>
  \<open>pruneRestarts\<close>: the number of restarts in the last hour and the new file. \<open>readable\<close> tells that an existing file could be
  read, \<open>writable\<close> that it can be replaced; the error is only logged.
\<close>

definition pruneRestarts :: "bool \<Rightarrow> bool \<Rightarrow> nanos \<Rightarrow> int \<Rightarrow> string option \<Rightarrow> int \<times> string option" where
  "pruneRestarts readable writable now restarts file =
     (if \<not> readable then (restarts, file)
      else
        let valid = recent_stamps now (parse_stamps (case file of None \<Rightarrow> [] | Some data \<Rightarrow> data));
            normalized = timestampBody valid
        in (int (length valid),
            if file = None \<and> valid = [] \<or> file = Some normalized \<or> \<not> writable then file else Some normalized))"

definition recordRestart :: "bool \<Rightarrow> bool \<Rightarrow> nanos \<Rightarrow> int \<Rightarrow> string option \<Rightarrow> int \<times> string option" where
  "recordRestart readable writable now restarts file =
     (let stamps = parse_stamps (case file of Some data \<Rightarrow> if readable then data else [] | None \<Rightarrow> []) @ [unix_seconds now]
      in if writable then (restarts + 1, Some (timestampBody stamps)) else (restarts, file))"

section \<open>Deep checks\<close>

text \<open>
  The result of one deep probe. \<open>dp_identity\<close>, the identity of the configuration and core that the worker was started
  for, travels with the result in the code.
\<close>

record deepProbe =
  dp_identity :: string
  dp_healthy :: bool
  dp_reasons :: "string list"
  dp_uncertain :: bool

record deepCheckTask =
  dt_identity :: string
  dt_epoch :: nat
  dt_started :: nanos
  dt_settings :: settings

record deepChecks =
  dc_identity :: string
  dc_epoch :: nat
  dc_proof :: "deepProbe option"
  dc_verifiedAt :: "nanos option"
  dc_next :: "nanos option"
  dc_reasons :: "string list"
  dc_task :: "deepCheckTask option"

abbreviation deepProbeTimeout :: nanos where "deepProbeTimeout \<equiv> 15 * second"

definition newDeepChecks :: deepChecks where
  "newDeepChecks = \<lparr>dc_identity = [], dc_epoch = 0, dc_proof = None, dc_verifiedAt = None, dc_next = None, dc_reasons = [], dc_task = None\<rparr>"

text \<open>A reset cancels the worker but still owes it a receive, so the task stays.\<close>

definition deep_reset :: "deepChecks \<Rightarrow> deepChecks" where
  "deep_reset d = d\<lparr>dc_epoch := Suc (dc_epoch d), dc_identity := [], dc_proof := None, dc_reasons := [], dc_verifiedAt := None, dc_next := None\<rparr>"

definition deep_accept :: "deepProbe \<Rightarrow> nanos \<Rightarrow> deepChecks \<Rightarrow> deepChecks go" where
  "deep_accept result now d = (case dc_task d of
     None \<Rightarrow> None
   | Some task \<Rightarrow>
       let d = d\<lparr>dc_task := None\<rparr> in
       Some (if dt_epoch task \<noteq> dc_epoch d \<or> dp_identity result \<noteq> dc_identity d \<or> dc_identity d = [] then d
         else
           let d = d\<lparr>dc_next := Some (now + st_interval (dt_settings task)), dc_reasons := dp_reasons result\<rparr> in
           if dp_healthy result
           then d\<lparr>dc_proof := Some result, dc_verifiedAt := Some (dt_started task),
                  dc_next := Some (dt_started task + st_deepInterval (dt_settings task))\<rparr>
           else if \<not> dp_uncertain result \<or> dc_proof d = None then d\<lparr>dc_proof := Some result\<rparr>
           else d))"

text \<open>A worker that has finished answers for the task that is waiting.\<close>

definition deep_receive :: "deepProbe option \<Rightarrow> nanos \<Rightarrow> deepChecks \<Rightarrow> deepChecks go" where
  "deep_receive arrived now d = (case (dc_task d, arrived) of
     (Some task, Some result) \<Rightarrow> deep_accept (result\<lparr>dp_identity := dt_identity task\<rparr>) now d
   | _ \<Rightarrow> Some d)"

definition deep_start :: "string \<Rightarrow> settings \<Rightarrow> nanos \<Rightarrow> deepChecks \<Rightarrow> deepChecks" where
  "deep_start identity current now d =
     (if dc_task d = None \<and> (case dc_next d of None \<Rightarrow> True | Some t \<Rightarrow> t \<le> now)
      then d\<lparr>dc_task := Some \<lparr>dt_identity = identity, dt_epoch = dc_epoch d, dt_started = now, dt_settings = current\<rparr>\<rparr>
      else d)"

text \<open>What the loop sees: healthy, reasons, and whether the first probe of this identity is still running.\<close>

definition deep_verdict :: "string \<Rightarrow> settings \<Rightarrow> nanos \<Rightarrow> deepChecks \<Rightarrow> bool \<times> string list \<times> bool" where
  "deep_verdict identity current now d = (case dc_proof d of
     None \<Rightarrow> (False, [], case dc_task d of None \<Rightarrow> False
       | Some task \<Rightarrow> dt_identity task = identity \<and> 0 \<le> now - dt_started task \<and> now - dt_started task < deepProbeTimeout)
   | Some proof \<Rightarrow>
       let fresh = (case dc_verifiedAt d of None \<Rightarrow> False
         | Some t \<Rightarrow> 0 \<le> now - t \<and> now - t < st_deepInterval current + deepProbeTimeout)
       in if dp_healthy proof \<and> fresh then (True, [], False) else (False, dc_reasons d, False))"

definition deep_observe ::
  "string \<Rightarrow> settings \<Rightarrow> nanos \<Rightarrow> deepProbe option \<Rightarrow> deepChecks \<Rightarrow> ((bool \<times> string list \<times> bool) \<times> deepChecks) go" where
  "deep_observe identity current now arrived d = do {
     let d = (if identity \<noteq> dc_identity d then (deep_reset d)\<lparr>dc_identity := identity\<rparr> else d);
     d \<leftarrow> deep_receive arrived now d;
     Some (if identity = [] then ((False, [], False), d)
       else let d = deep_start identity current now d in (deep_verdict identity current now d, d))
   }"

text \<open>
  The invariant: a proof is about the current identity, a healthy proof has its time, and a task of the current epoch was
  started for the current identity.
\<close>

definition deep_ok :: "deepChecks \<Rightarrow> bool" where
  "deep_ok d \<longleftrightarrow>
     (case dc_proof d of None \<Rightarrow> True | Some p \<Rightarrow> dp_identity p = dc_identity d \<and> dc_identity d \<noteq> [] \<and> (dp_healthy p \<longrightarrow> dc_verifiedAt d \<noteq> None)) \<and>
     (case dc_task d of None \<Rightarrow> True | Some task \<Rightarrow> dt_epoch task \<le> dc_epoch d \<and> (dt_epoch task = dc_epoch d \<longrightarrow> dt_identity task = dc_identity d))"

lemma newDeepChecks_ok: "deep_ok newDeepChecks"
  by (simp add: deep_ok_def newDeepChecks_def)

lemma deep_reset_ok: "deep_ok d \<Longrightarrow> deep_ok (deep_reset d)" "deep_ok d \<Longrightarrow> deep_ok ((deep_reset d)\<lparr>dc_identity := identity\<rparr>)"
  by (auto simp: deep_ok_def deep_reset_def split: option.splits)

lemma deep_receive_ok:
  assumes "deep_ok d"
  shows "\<exists>d'. deep_receive arrived now d = Some d' \<and> deep_ok d' \<and> dc_identity d' = dc_identity d \<and> dc_epoch d' = dc_epoch d"
proof (cases "dc_task d")
  case (Some task)
  then show ?thesis
    using assms by (cases arrived) (auto simp: deep_receive_def deep_accept_def deep_ok_def Let_def split: option.splits)
qed (use assms in \<open>simp add: deep_receive_def split: option.split\<close>)

lemma deep_start_ok:
  "deep_ok d \<Longrightarrow> dc_identity d = identity \<Longrightarrow> deep_ok (deep_start identity current now d) \<and> dc_identity (deep_start identity current now d) = identity"
  by (auto simp: deep_ok_def deep_start_def split: option.splits)

lemma deep_start_same [simp]:
  "dc_proof (deep_start identity current now d) = dc_proof d" "dc_verifiedAt (deep_start identity current now d) = dc_verifiedAt d"
  by (simp_all add: deep_start_def)

lemma deep_observe_ok:
  assumes "deep_ok d"
  shows "\<exists>healthy reasons first d'. deep_observe identity current now arrived d = Some ((healthy, reasons, first), d') \<and> deep_ok d' \<and>
    dc_identity d' = identity \<and>
    (healthy \<longrightarrow> reasons = [] \<and> \<not> first \<and> (\<exists>p t. dc_proof d' = Some p \<and> dp_healthy p \<and> dp_identity p = identity \<and> identity \<noteq> [] \<and>
       dc_verifiedAt d' = Some t \<and> 0 \<le> now - t \<and> now - t < st_deepInterval current + deepProbeTimeout)) \<and>
    (first \<longrightarrow> dc_proof d' = None)"
proof -
  define d1 where "d1 = (if identity \<noteq> dc_identity d then (deep_reset d)\<lparr>dc_identity := identity\<rparr> else d)"
  have ok1: "deep_ok d1" "dc_identity d1 = identity" using assms by (auto simp: d1_def deep_reset_ok)
  obtain d2 where d2: "deep_receive arrived now d1 = Some d2" "deep_ok d2" "dc_identity d2 = identity"
    using deep_receive_ok [OF ok1(1)] ok1(2) by metis
  define d3 where "d3 = deep_start identity current now d2"
  have ok3: "deep_ok d3" "dc_identity d3 = identity" using deep_start_ok [OF d2(2,3)] by (auto simp: d3_def)
  have run: "deep_observe identity current now arrived d =
      Some (if identity = [] then ((False, [], False), d2) else (deep_verdict identity current now d3, d3))"
    unfolding deep_observe_def Let_def d1_def [symmetric] d2(1) Option.bind.bind_lunit d3_def [symmetric] ..
  show ?thesis
  proof (cases "identity = []")
    case True
    then show ?thesis using run d2 by auto
  next
    case False
    obtain h r f where v: "deep_verdict identity current now d3 = (h, r, f)" by (metis prod_cases3)
    have "h \<longrightarrow> r = [] \<and> \<not> f \<and> (\<exists>p t. dc_proof d3 = Some p \<and> dp_healthy p \<and> dp_identity p = identity \<and> identity \<noteq> [] \<and>
        dc_verifiedAt d3 = Some t \<and> 0 \<le> now - t \<and> now - t < st_deepInterval current + deepProbeTimeout)"
      using v ok3 False by (auto simp: deep_verdict_def deep_ok_def Let_def split: option.splits if_splits)
    moreover have "f \<longrightarrow> dc_proof d3 = None"
      using v by (auto simp: deep_verdict_def Let_def split: option.splits if_splits)
    ultimately show ?thesis using run False ok3 v by simp
  qed
qed

end
