(* ===== verification/Watchdog_Run.thy ===== *)
theory Watchdog_Run
  imports Watchdog_Checks
begin

text \<open>
  The loop of the watchdog, \<^verbatim>\<open>Run\<close> of \<^verbatim>\<open>internal/watchdog/watchdog.go\<close>, as a function from what one cycle observes (the clock, the
  guard of an application, the readiness answer, the state of the core, the result of a worker, and which files
  could be read and written) to the next state and a verdict, which is the state that the cycle posts. Removing
  the lease file is taken to succeed. The startup wait, the poster and the deep probes themselves, which run
  commands and read \<^verbatim>\<open>/proc\<close>, are not modelled; a probe is its result.
\<close>

section \<open>One cycle\<close>

record readiness =
  rd_Configured :: bool
  rd_Ready :: bool
  rd_ApplyRecoveryPending :: bool

record cycle_input =
  ci_start :: nanos
  ci_now :: nanos
  ci_late :: nanos
  ci_guard :: "string option"
  ci_alive :: "int \<Rightarrow> bool"
  ci_readiness :: "readiness option"
  ci_generation :: string
  ci_coreRunning :: bool
  ci_config :: bool
  ci_identity :: string
  ci_arrived :: "deepProbe option"
  ci_waitArrived :: "deepProbe option"
  ci_waitAt :: nanos
  ci_readable :: bool
  ci_writable :: bool
  ci_published :: bool

record watchdog =
  wd_failures :: int
  wd_successes :: int
  wd_leasePublished :: bool
  wd_class :: "failureClass option"
  wd_recovery :: coreRecoveryWindow
  wd_deep :: deepChecks
  wd_restarts :: int
  wd_lease :: "string option"
  wd_restartFile :: "string option"

datatype verdict =
    Applying | RollbackGuard | AwaitingConfiguration
  | ProbePending | DataplaneReady | Hysteresis | CoreRestartPending
  | Degraded "string list" | BudgetExhausted "string list" | Tripped "string list"

text \<open>The start clears the lease and counts the restarts in the file.\<close>

definition start_watchdog :: "bool \<Rightarrow> bool \<Rightarrow> nanos \<Rightarrow> string option \<Rightarrow> watchdog" where
  "start_watchdog readable writable now file =
     (let (restarts, file) = pruneRestarts readable writable now 0 file
      in \<lparr>wd_failures = 0, wd_successes = 0, wd_leasePublished = False, wd_class = None,
          wd_recovery = \<lparr>cw_generation = [], cw_deadline = None\<rparr>, wd_deep = newDeepChecks, wd_restarts = restarts, wd_lease = None,
          wd_restartFile = file\<rparr>)"

definition forget_lease :: "watchdog \<Rightarrow> watchdog" where
  "forget_lease s = s\<lparr>wd_lease := None, wd_leasePublished := False\<rparr>"

definition forget_streak :: "watchdog \<Rightarrow> watchdog" where
  "forget_streak s = s\<lparr>wd_failures := 0, wd_successes := 0, wd_class := None\<rparr>"

text \<open>The common start of the three cycles that do not judge: no lease, no streak, no proof.\<close>

definition stand_down :: "watchdog \<Rightarrow> watchdog" where
  "stand_down s = (forget_streak (forget_lease s))\<lparr>wd_deep := deep_reset (wd_deep s)\<rparr>"

definition cycle_reasons :: "cycle_input \<Rightarrow> string list" where
  "cycle_reasons i =
     (case ci_readiness i of
        None \<Rightarrow> [''api_configured'', ''api_ready'']
      | Some r \<Rightarrow> (if rd_Configured r then [] else [''api_configured'']) @ (if rd_Ready r then [] else [''api_ready''])) @
     (if ci_coreRunning i then [] else [''core_process'']) @
     (if ci_config i then [] else [''core_config'']) @
     (if ci_generation i = [] then [''core_startup''] else [])"

definition healthy_cycle :: "settings \<Rightarrow> cycle_input \<Rightarrow> watchdog \<Rightarrow> verdict \<times> watchdog" where
  "healthy_cycle current i s =
     (let s = s\<lparr>wd_recovery := verified (ci_generation i) (wd_recovery s), wd_failures := 0, wd_class := None,
                wd_successes := wd_successes s + 1\<rparr>;
          threshold = recoverySuccessThreshold (st_recoveryThreshold current) (wd_leasePublished s) (liveLease current (ci_late i) (wd_lease s))
      in if threshold \<le> wd_successes s
         then (DataplaneReady, if ci_published i then s\<lparr>wd_lease := Some (lease_body (ci_late i)), wd_leasePublished := True\<rparr> else s)
         else (Hysteresis, s))"

definition failing_cycle :: "settings \<Rightarrow> cycle_input \<Rightarrow> string list \<Rightarrow> watchdog \<Rightarrow> verdict \<times> watchdog" where
  "failing_cycle current i reasons s =
     (let (c, failures) = nextFailureStreak (wd_class s) (wd_failures s) reasons;
          s = s\<lparr>wd_successes := 0, wd_class := Some c, wd_failures := failures\<rparr>
      in if failures < failureThresholdForReasons (st_failureThreshold current) reasons then (Degraded reasons, s)
         else
           let (restarts, file) = pruneRestarts (ci_readable i) (ci_writable i) (ci_now i) (wd_restarts s) (wd_restartFile s);
               s = s\<lparr>wd_lease := None, wd_restarts := restarts, wd_restartFile := file\<rparr>
           in if st_restartBudget current \<le> restarts then (BudgetExhausted reasons, s\<lparr>wd_failures := 0\<rparr>)
              else
                let (restarts, file) = recordRestart (ci_readable i) (ci_writable i) (ci_now i) restarts file
                in (Tripped reasons, s\<lparr>wd_restarts := restarts, wd_restartFile := file\<rparr>))"

definition judge_cycle ::
  "settings \<Rightarrow> cycle_input \<Rightarrow> bool \<times> string list \<times> bool \<Rightarrow> watchdog \<Rightarrow> verdict \<times> watchdog" where
  "judge_cycle current i deep s =
     (let (deepHealthy, deepReasons, initialProbe) = deep;
          s = (if \<not> deepHealthy \<and> \<not> initialProbe then s\<lparr>wd_lease := None\<rparr> else s);
          reasons = cycle_reasons i @ (if deepHealthy then [] else if deepReasons = [] then [''deep_probe''] else deepReasons)
      in if initialProbe \<and> reasons = [''deep_probe''] then (ProbePending, s)
         else if reasons = [] then healthy_cycle current i s
         else
           let (deferred, window) = deferFailures (ci_late i) (st_startupGrace current) (ci_generation i) reasons (wd_recovery s);
               s = s\<lparr>wd_recovery := window\<rparr>
           in if deferred then (CoreRestartPending, forget_streak (forget_lease s)) else failing_cycle current i reasons s)"

definition cycle_body :: "settings \<Rightarrow> cycle_input \<Rightarrow> watchdog \<Rightarrow> (verdict \<times> watchdog) go" where
  "cycle_body current i s = do {
     let (restarts, file) = pruneRestarts (ci_readable i) (ci_writable i) (ci_start i) (wd_restarts s) (wd_restartFile s);
     let s = s\<lparr>wd_restarts := restarts, wd_restartFile := file\<rparr>;
     if (case ci_guard i of None \<Rightarrow> False | Some data \<Rightarrow> guard_active data (ci_start i) (ci_alive i)) then Some (Applying, stand_down s)
     else if (case ci_readiness i of None \<Rightarrow> False | Some r \<Rightarrow> rd_ApplyRecoveryPending r) then Some (RollbackGuard, stand_down s)
     else if (case ci_readiness i of None \<Rightarrow> False | Some r \<Rightarrow> \<not> rd_Configured r) then Some (AwaitingConfiguration, stand_down s)
     else do {
       let s = (if ci_generation i \<noteq> cw_generation (wd_recovery s) then forget_lease s else s);
       let s = (if ci_identity i \<noteq> dc_identity (wd_deep s) then forget_lease s else s);
       (deep, checks) \<leftarrow> deep_observe (ci_identity i) current (ci_now i) (ci_arrived i) (wd_deep s);
       Some (judge_cycle current i deep (s\<lparr>wd_deep := checks\<rparr>))
     }
   }"

text \<open>
  The wait at the end of a judging cycle may receive the result of the worker. A cycle that trips ends the process.
\<close>

definition judging :: "verdict \<Rightarrow> bool" where
  "judging v \<longleftrightarrow> v \<notin> {Applying, RollbackGuard, AwaitingConfiguration}"

definition cycle :: "settings \<Rightarrow> cycle_input \<Rightarrow> watchdog \<Rightarrow> (verdict \<times> watchdog) go" where
  "cycle current i s = do {
     (v, s) \<leftarrow> cycle_body current i s;
     checks \<leftarrow> (if judging v then deep_receive (ci_waitArrived i) (ci_waitAt i) (wd_deep s) else Some (wd_deep s));
     Some (v, s\<lparr>wd_deep := checks\<rparr>)
   }"

fun run_watchdog :: "settings \<Rightarrow> cycle_input list \<Rightarrow> watchdog \<Rightarrow> (verdict list \<times> watchdog) go" where
  "run_watchdog current [] s = Some ([], s)"
| "run_watchdog current (i # rest) s = do {
     (v, s) \<leftarrow> cycle current i s;
     case v of
       Tripped reasons \<Rightarrow> Some ([v], s)
     | _ \<Rightarrow> do {
         (vs, s) \<leftarrow> run_watchdog current rest s;
         Some (v # vs, s)
       }
   }"

section \<open>The lease\<close>

lemma deep_receive_keeps: "deep_receive arrived now d = Some d' \<Longrightarrow> dc_proof d \<noteq> None \<Longrightarrow> dc_proof d' \<noteq> None"
  by (auto simp: deep_receive_def deep_accept_def Let_def split: option.splits if_splits)

lemma deep_observe_keeps:
  "deep_observe (dc_identity d) current now arrived d = Some (deep, d') \<Longrightarrow> dc_proof d \<noteq> None \<Longrightarrow> dc_proof d' \<noteq> None"
  using deep_receive_keeps [of arrived now d] by (auto simp: deep_observe_def Let_def split: if_splits)

definition wd_ok :: "watchdog \<Rightarrow> bool" where
  "wd_ok s \<longleftrightarrow> deep_ok (wd_deep s) \<and> (wd_lease s \<noteq> None \<longrightarrow> dc_proof (wd_deep s) \<noteq> None)"

text \<open>A lease that stands after a cycle is backed by a proof that this cycle found fresh, for the core that runs.\<close>

definition backed :: "settings \<Rightarrow> cycle_input \<Rightarrow> watchdog \<Rightarrow> bool" where
  "backed current i s \<longleftrightarrow> (\<exists>p t. dc_proof (wd_deep s) = Some p \<and> dp_healthy p \<and> dp_identity p = ci_identity i \<and> ci_identity i \<noteq> [] \<and>
     dc_verifiedAt (wd_deep s) = Some t \<and> 0 \<le> ci_now i - t \<and> ci_now i - t < st_deepInterval current + deepProbeTimeout) \<and>
     cw_generation (wd_recovery s) = ci_generation i"

lemma deferFailures_generation: "deferFailures now maximum generation reasons w = (b, w') \<Longrightarrow> cw_generation w' = cw_generation w"
  by (auto simp: deferFailures_def Let_def split: if_splits)

abbreviation streak_of :: "watchdog \<Rightarrow> failureClass option \<times> int" where
  "streak_of s \<equiv> (wd_class s, wd_failures s)"

text \<open>The four ways through a judging cycle.\<close>

lemma judge_cycle_cases [consumes 1, case_names quiet ready deferred failing]:
  assumes "judge_cycle current i (healthy, reasons, first) s = (v, s')"
  obtains (quiet) "first" "v = ProbePending" "wd_deep s' = wd_deep s" "wd_lease s' = wd_lease s" "streak_of s' = streak_of s"
      "wd_recovery s' = wd_recovery s"
    | (ready) "healthy" "ci_generation i \<noteq> []" "healthy_cycle current i s = (v, s')"
    | (deferred) s1 w where "wd_deep s1 = wd_deep s" "v = CoreRestartPending" "s' = forget_streak (forget_lease (s1\<lparr>wd_recovery := w\<rparr>))"
    | (failing) s1 w rs where "wd_deep s1 = wd_deep s" "wd_lease s1 = (if \<not> healthy \<and> \<not> first then None else wd_lease s)"
      "streak_of s1 = streak_of s" "cw_generation w = cw_generation (wd_recovery s)"
      "failing_cycle current i rs (s1\<lparr>wd_recovery := w\<rparr>) = (v, s')" "wd_restartFile s1 = wd_restartFile s"
proof -
  define s1 where "s1 = (if \<not> healthy \<and> \<not> first then s\<lparr>wd_lease := None\<rparr> else s)"
  define rs where "rs = cycle_reasons i @ (if healthy then [] else if reasons = [] then [''deep_probe''] else reasons)"
  define quiet where "quiet \<longleftrightarrow> first \<and> rs = [''deep_probe'']"
  obtain d w where d: "deferFailures (ci_late i) (st_startupGrace current) (ci_generation i) rs (wd_recovery s1) = (d, w)" by fastforce
  have w: "cw_generation w = cw_generation (wd_recovery s)" using deferFailures_generation [OF d] by (simp add: s1_def)
  have run: "(v, s') = (if quiet then (ProbePending, s1)
      else if rs = [] then healthy_cycle current i s1
      else if d then (CoreRestartPending, forget_streak (forget_lease (s1\<lparr>wd_recovery := w\<rparr>)))
      else failing_cycle current i rs (s1\<lparr>wd_recovery := w\<rparr>))"
    using assms unfolding judge_cycle_def Let_def prod.case s1_def [symmetric] rs_def [symmetric] quiet_def [symmetric] d by (rule sym)
  have s1: "wd_deep s1 = wd_deep s" "streak_of s1 = streak_of s" "wd_restartFile s1 = wd_restartFile s" "wd_lease s1 = (if \<not> healthy \<and> \<not> first then None else wd_lease s)"
    by (simp_all add: s1_def)
  consider quiet | "\<not> quiet" "rs = []" | "\<not> quiet" "rs \<noteq> []" d | "\<not> quiet" "rs \<noteq> []" "\<not> d" by blast
  then show thesis
  proof cases
    case 1
    then show thesis using run by (intro that(1)) (simp_all add: quiet_def s1_def)
  next
    case 2
    then have h: "healthy" "ci_generation i \<noteq> []" by (auto simp: rs_def cycle_reasons_def split: if_splits)
    then show thesis using run 2 by (intro that(2)) (simp_all add: s1_def)
  next
    case 3
    then show thesis using run s1 by (intro that(3) [of s1 w]) simp_all
  next
    case 4
    then show thesis using run s1 w by (intro that(4) [of s1 w rs]) simp_all
  qed
qed

lemma failing_cycle_frame:
  assumes "failing_cycle current i reasons s = (v, s')"
  shows "wd_deep s' = wd_deep s" "wd_recovery s' = wd_recovery s" "wd_lease s' = None \<or> wd_lease s' = wd_lease s"
  using assms by (auto simp: failing_cycle_def Let_def split: prod.splits if_splits)

lemma healthy_cycle_frame:
  assumes "healthy_cycle current i s = (v, s')"
  shows "wd_deep s' = wd_deep s" "wd_recovery s' = verified (ci_generation i) (wd_recovery s)"
  using assms by (auto simp: healthy_cycle_def Let_def split: if_splits)

lemma judge_cycle_lease:
  assumes "judge_cycle current i (healthy, reasons, first) s = (v, s')"
    and "wd_lease s \<noteq> None \<longrightarrow> cw_generation (wd_recovery s) = ci_generation i \<and> \<not> first"
  shows "wd_deep s' = wd_deep s" "wd_lease s' \<noteq> None \<Longrightarrow> healthy \<and> cw_generation (wd_recovery s') = ci_generation i"
proof -
  have "wd_deep s' = wd_deep s \<and> (wd_lease s' \<noteq> None \<longrightarrow> healthy \<and> cw_generation (wd_recovery s') = ci_generation i)"
    using assms(1)
  proof (cases rule: judge_cycle_cases)
    case quiet
    then show ?thesis using assms(2) by auto
  next
    case ready
    then show ?thesis using healthy_cycle_frame [OF ready(3)] by (simp add: verified_def)
  next
    case (deferred s1 w)
    then show ?thesis by (simp add: forget_streak_def forget_lease_def)
  next
    case (failing s1 w rs)
    note frame = failing_cycle_frame [OF failing(5)]
    have "wd_lease s' \<noteq> None \<longrightarrow> wd_lease s1 \<noteq> None" using frame(3) by auto
    then show ?thesis using failing(1-4) frame(1,2) assms(2) by (auto split: if_splits)
  qed
  then show "wd_deep s' = wd_deep s" "wd_lease s' \<noteq> None \<Longrightarrow> healthy \<and> cw_generation (wd_recovery s') = ci_generation i" by blast+
qed

lemma stand_down_ok: "wd_ok s \<Longrightarrow> wd_ok (stand_down s)" "wd_lease (stand_down s) = None"
  by (simp_all add: stand_down_def forget_streak_def forget_lease_def wd_ok_def deep_reset_ok)

lemma cycle_body_cases [consumes 1, case_names idle judged]:
  assumes "cycle_body current i s = Some (v, s')"
  obtains (idle) "v \<in> {Applying, RollbackGuard, AwaitingConfiguration}" "wd_failures s' = 0"
    | (judged) h r f s1 where "judge_cycle current i (h, r, f) s1 = (v, s')" "streak_of s1 = streak_of s"
      "wd_restartFile s1 = snd (pruneRestarts (ci_readable i) (ci_writable i) (ci_start i) (wd_restarts s) (wd_restartFile s))"
proof -
  obtain restarts stamps where p: "pruneRestarts (ci_readable i) (ci_writable i) (ci_start i) (wd_restarts s) (wd_restartFile s) = (restarts, stamps)"
    by fastforce
  define s0 where "s0 = s\<lparr>wd_restarts := restarts, wd_restartFile := stamps\<rparr>"
  define sa where "sa = (if ci_generation i \<noteq> cw_generation (wd_recovery s0) then forget_lease s0 else s0)"
  define sb where "sb = (if ci_identity i \<noteq> dc_identity (wd_deep sa) then forget_lease sa else sa)"
  have same: "streak_of (sb\<lparr>wd_deep := d\<rparr>) = streak_of s" "wd_restartFile (sb\<lparr>wd_deep := d\<rparr>) = stamps" for d
    by (simp_all add: sb_def sa_def s0_def forget_lease_def)
  have "v \<in> {Applying, RollbackGuard, AwaitingConfiguration} \<and> s' = stand_down s0 \<or>
      (\<exists>h r f d. judge_cycle current i (h, r, f) (sb\<lparr>wd_deep := d\<rparr>) = (v, s'))"
    using assms unfolding cycle_body_def p Let_def prod.case s0_def [symmetric] sa_def [symmetric] sb_def [symmetric]
    by (auto split: if_splits)
  then show thesis
  proof (elim disjE exE)
    fix h r f d assume "judge_cycle current i (h, r, f) (sb\<lparr>wd_deep := d\<rparr>) = (v, s')"
    then show thesis using that(2) same p by simp
  next
    assume "v \<in> {Applying, RollbackGuard, AwaitingConfiguration} \<and> s' = stand_down s0"
    then show thesis using that(1) by (simp add: stand_down_def forget_streak_def)
  qed
qed

lemma cycle_body_lease:
  assumes "wd_ok s"
  shows "\<exists>v s'. cycle_body current i s = Some (v, s') \<and> wd_ok s' \<and> (wd_lease s' \<noteq> None \<longrightarrow> backed current i s')"
proof -
  obtain restarts stamps where p: "pruneRestarts (ci_readable i) (ci_writable i) (ci_start i) (wd_restarts s) (wd_restartFile s) = (restarts, stamps)"
    by fastforce
  define s0 where "s0 = s\<lparr>wd_restarts := restarts, wd_restartFile := stamps\<rparr>"
  have s0: "wd_ok s0" using assms by (simp add: s0_def wd_ok_def)
  define idle where "idle \<longleftrightarrow> (case ci_guard i of None \<Rightarrow> False | Some data \<Rightarrow> guard_active data (ci_start i) (ci_alive i)) \<or>
      (case ci_readiness i of None \<Rightarrow> False | Some r \<Rightarrow> rd_ApplyRecoveryPending r) \<or>
      (case ci_readiness i of None \<Rightarrow> False | Some r \<Rightarrow> \<not> rd_Configured r)"
  define s1 where "s1 = (if ci_generation i \<noteq> cw_generation (wd_recovery s0) then forget_lease s0 else s0)"
  define s2 where "s2 = (if ci_identity i \<noteq> dc_identity (wd_deep s1) then forget_lease s1 else s1)"
  have deep: "wd_deep s2 = wd_deep s0" "wd_recovery s2 = wd_recovery s0" by (simp_all add: s2_def s1_def forget_lease_def)
  have dok2: "deep_ok (wd_deep s2)" using s0 deep(1) by (simp add: wd_ok_def)
  obtain h r f d where o: "deep_observe (ci_identity i) current (ci_now i) (ci_arrived i) (wd_deep s2) = Some ((h, r, f), d)" and dok: "deep_ok d"
      and fresh: "h \<Longrightarrow> \<exists>p t. dc_proof d = Some p \<and> dp_healthy p \<and> dp_identity p = ci_identity i \<and> ci_identity i \<noteq> [] \<and>
        dc_verifiedAt d = Some t \<and> 0 \<le> ci_now i - t \<and> ci_now i - t < st_deepInterval current + deepProbeTimeout"
      and first: "f \<Longrightarrow> dc_proof d = None"
    using deep_observe_ok [OF dok2, of "ci_identity i" current "ci_now i" "ci_arrived i"] by blast
  obtain v s' where j: "judge_cycle current i (h, r, f) (s2\<lparr>wd_deep := d\<rparr>) = (v, s')" by fastforce
  have run: "cycle_body current i s = (if idle then Some (fst (the (cycle_body current i s)), stand_down s0) else Some (v, s'))"
    unfolding cycle_body_def p Let_def prod.case s0_def [symmetric] s1_def [symmetric] s2_def [symmetric] o Option.bind.bind_lunit j
    by (auto simp: idle_def)
  show ?thesis
  proof (cases idle)
    case True
    have "cycle_body current i s = Some (fst (the (cycle_body current i s)), stand_down s0)" using run True by simp
    then show ?thesis
      using stand_down_ok(1) [OF s0] stand_down_ok(2) [of s0] by (intro exI [of _ "fst (the (cycle_body current i s))"] exI [of _ "stand_down s0"]) simp
  next
    case False
    have kept: "cw_generation (wd_recovery s0) = ci_generation i \<and> dc_identity (wd_deep s2) = ci_identity i \<and> dc_proof (wd_deep s2) \<noteq> None"
      if "wd_lease s2 \<noteq> None"
      using that s0 deep by (auto simp: s2_def s1_def forget_lease_def wd_ok_def split: if_splits)
    have nofirst: "\<not> f" if "wd_lease s2 \<noteq> None"
      using deep_observe_keeps [of "wd_deep s2" current "ci_now i" "ci_arrived i" "(h, r, f)" d] kept [OF that] o first by metis
    have pre: "wd_lease (s2\<lparr>wd_deep := d\<rparr>) \<noteq> None \<longrightarrow> cw_generation (wd_recovery (s2\<lparr>wd_deep := d\<rparr>)) = ci_generation i \<and> \<not> f"
      using kept nofirst deep(2) by simp
    have j1: "wd_deep s' = d" using judge_cycle_lease(1) [OF j pre] by simp
    note j2 = judge_cycle_lease(2) [OF j pre]
    have "backed current i s'" if "wd_lease s' \<noteq> None"
      using j1 j2 [OF that] fresh unfolding backed_def by simp
    moreover have "dc_proof d \<noteq> None" if "wd_lease s' \<noteq> None" using j2 [OF that] fresh by auto
    then have "wd_ok s'" using j1 dok by (simp add: wd_ok_def)
    moreover have "cycle_body current i s = Some (v, s')" using run False by simp
    ultimately show ?thesis by blast
  qed
qed

lemma cycle_ok:
  assumes "wd_ok s"
  shows "\<exists>v s'. cycle current i s = Some (v, s') \<and> wd_ok s'"
proof -
  obtain v s1 where b: "cycle_body current i s = Some (v, s1)" "wd_ok s1" using cycle_body_lease [OF assms] by blast
  show ?thesis
  proof (cases "judging v")
    case True
    obtain d where d: "deep_receive (ci_waitArrived i) (ci_waitAt i) (wd_deep s1) = Some d" "deep_ok d"
      using deep_receive_ok b(2) by (metis wd_ok_def)
    then show ?thesis using b True deep_receive_keeps [OF d(1)] by (simp add: cycle_def wd_ok_def)
  next
    case False
    then show ?thesis using b by (simp add: cycle_def wd_ok_def)
  qed
qed

lemma cycle_body_ready:
  assumes "cycle_body current i s = Some (DataplaneReady, s')" and "ci_published i"
  shows "wd_lease s' = Some (lease_body (ci_late i))"
  using assms(1)
proof (cases rule: cycle_body_cases)
  case (judged h r f s1)
  from judged(1) show ?thesis
  proof (cases rule: judge_cycle_cases)
    case ready
    then show ?thesis using assms(2) by (auto simp: healthy_cycle_def Let_def split: if_splits)
  next
    case (failing s2 w rs)
    then show ?thesis by (auto simp: failing_cycle_def Let_def split: prod.splits if_splits)
  qed simp_all
qed simp

lemma run_watchdog_ok: "wd_ok s \<Longrightarrow> \<exists>vs s'. run_watchdog current inputs s = Some (vs, s') \<and> wd_ok s'"
proof (induction inputs arbitrary: s)
  case (Cons i rest)
  obtain v s1 where c: "cycle current i s = Some (v, s1)" "wd_ok s1" using cycle_ok [OF Cons.prems] by blast
  obtain vs s2 where r: "run_watchdog current rest s1 = Some (vs, s2)" "wd_ok s2" using Cons.IH [OF c(2)] by blast
  show ?case using c r by (cases v) auto
qed simp

lemma start_watchdog_ok: "wd_ok (start_watchdog readable writable now stamps)"
  by (simp add: wd_ok_def start_watchdog_def newDeepChecks_ok split: prod.split)

section \<open>Streaks\<close>

text \<open>What a cycle does to the streak of failures, from the streak before it.\<close>

definition streak_step :: "settings \<Rightarrow> failureClass option \<times> int \<Rightarrow> verdict \<Rightarrow> failureClass option \<times> int \<Rightarrow> bool" where
  "streak_step current before v after = (case v of
     ProbePending \<Rightarrow> after = before
   | Degraded reasons \<Rightarrow> after = apfst Some (nextFailureStreak (fst before) (snd before) reasons)
   | BudgetExhausted reasons \<Rightarrow> snd after = 0
   | Tripped reasons \<Rightarrow> failureThresholdForReasons (st_failureThreshold current) reasons \<le>
       snd (nextFailureStreak (fst before) (snd before) reasons)
   | _ \<Rightarrow> snd after = 0)"

lemma failing_cycle_streak:
  assumes "failing_cycle current i reasons s = (v, s')"
  shows "streak_step current (streak_of s) v (streak_of s')"
  using assms by (auto simp: failing_cycle_def streak_step_def Let_def split: prod.splits if_splits)

lemma judge_cycle_streak:
  assumes "judge_cycle current i (healthy, reasons, first) s = (v, s')"
  shows "streak_step current (streak_of s) v (streak_of s')"
  using assms
proof (cases rule: judge_cycle_cases)
  case quiet
  then show ?thesis by (simp add: streak_step_def)
next
  case ready
  then show ?thesis by (auto simp: healthy_cycle_def streak_step_def Let_def split: if_splits)
next
  case (deferred s1 w)
  then show ?thesis by (simp add: streak_step_def forget_streak_def)
next
  case (failing s1 w rs)
  have "streak_of (s1\<lparr>wd_recovery := w\<rparr>) = streak_of s" using failing(3) by simp
  with failing_cycle_streak [OF failing(5)] show ?thesis by simp
qed

lemma cycle_streak:
  assumes "cycle current i s = Some (v, s')"
  shows "streak_step current (streak_of s) v (streak_of s')"
proof -
  obtain s1 where b: "cycle_body current i s = Some (v, s1)" and s': "streak_of s' = streak_of s1"
    using assms by (auto simp: cycle_def split: if_splits)
  from b show ?thesis
  proof (cases rule: cycle_body_cases)
    case idle
    then show ?thesis using s' by (auto simp: streak_step_def)
  next
    case (judged h r f s2)
    then show ?thesis using judge_cycle_streak [OF judged(1)] s' by simp
  qed
qed

text \<open>The last failures that count: all of one class, as many as the streak.\<close>

definition counted_streak :: "verdict list \<Rightarrow> watchdog \<Rightarrow> bool" where
  "counted_streak vs s \<longleftrightarrow> (\<exists>rest rs. filter (\<lambda>v. v \<noteq> ProbePending) vs = rest @ map Degraded rs \<and> int (length rs) = wd_failures s \<and>
     (\<forall>r \<in> set rs. wd_class s = Some (classifyFailure r)))"

lemma counted_streak_step:
  assumes "counted_streak vs s" and "streak_step current (streak_of s) v (streak_of s')" and "\<forall>r. v \<noteq> Tripped r"
  shows "counted_streak (vs @ [v]) s'"
proof -
  obtain rest rs where h: "filter (\<lambda>v. v \<noteq> ProbePending) vs = rest @ map Degraded rs" "int (length rs) = wd_failures s"
      "\<forall>r \<in> set rs. wd_class s = Some (classifyFailure r)"
    using assms(1) by (auto simp: counted_streak_def)
  have reset: "counted_streak (vs @ [v]) s'" if "wd_failures s' = 0"
    using that unfolding counted_streak_def by (intro exI [of _ "filter (\<lambda>v. v \<noteq> ProbePending) (vs @ [v])"] exI [of _ "[]"]) simp
  show ?thesis
  proof (cases v)
    case ProbePending
    then show ?thesis using h assms(2) by (auto simp: counted_streak_def streak_step_def)
  next
    case (Degraded r)
    show ?thesis
    proof (cases "wd_class s = Some (classifyFailure r)")
      case True
      then have s': "wd_class s' = wd_class s" "wd_failures s' = wd_failures s + 1"
        using assms(2) Degraded by (simp_all add: streak_step_def nextFailureStreak_def Let_def)
      then show ?thesis
        unfolding counted_streak_def using h Degraded True by (intro exI [of _ rest] exI [of _ "rs @ [r]"]) auto
    next
      case False
      then have s': "wd_class s' = Some (classifyFailure r)" "wd_failures s' = 1"
        using assms(2) Degraded by (auto simp: streak_step_def nextFailureStreak_def Let_def split: if_splits)
      then show ?thesis
        unfolding counted_streak_def using h Degraded by (intro exI [of _ "rest @ map Degraded rs"] exI [of _ "[r]"]) auto
    qed
  qed (use assms(2,3) reset in \<open>auto simp: streak_step_def\<close>)
qed

lemma tripped_streak:
  assumes "counted_streak vs s" and "streak_step current (streak_of s) (Tripped r) after" and "1 \<le> st_failureThreshold current"
  shows "\<exists>rest rs. filter (\<lambda>v. v \<noteq> ProbePending) vs = rest @ map Degraded rs \<and>
     int (length rs) = failureThresholdForReasons (st_failureThreshold current) r - 1 \<and> (\<forall>q \<in> set rs. classifyFailure q = classifyFailure r)"
proof -
  obtain rest rs where h: "filter (\<lambda>v. v \<noteq> ProbePending) vs = rest @ map Degraded rs" "int (length rs) = wd_failures s"
      "\<forall>r \<in> set rs. wd_class s = Some (classifyFailure r)"
    using assms(1) by (auto simp: counted_streak_def)
  let ?T = "failureThresholdForReasons (st_failureThreshold current) r"
  have T: "1 \<le> ?T" using assms(3) by (simp add: failureThresholdForReasons_def)
  have t: "?T \<le> snd (nextFailureStreak (wd_class s) (wd_failures s) r)" using assms(2) by (simp add: streak_step_def)
  show ?thesis
  proof (cases "wd_class s = Some (classifyFailure r)")
    case True
    then have n: "?T \<le> int (length rs) + 1" using t h(2) by (simp add: nextFailureStreak_def Let_def)
    let ?k = "length rs - nat (?T - 1)"
    have "filter (\<lambda>v. v \<noteq> ProbePending) vs = (rest @ map Degraded (take ?k rs)) @ map Degraded (drop ?k rs)"
      using h(1) by (simp flip: map_append)
    moreover have "int (length (drop ?k rs)) = ?T - 1" using n T by simp
    moreover have "\<forall>q \<in> set (drop ?k rs). classifyFailure q = classifyFailure r" using h(3) True by (auto dest: in_set_dropD)
    ultimately show ?thesis by blast
  next
    case False
    then have "?T \<le> 1" using t by (auto simp: nextFailureStreak_def Let_def)
    then show ?thesis using T by (intro exI [of _ "filter (\<lambda>v. v \<noteq> ProbePending) vs"] exI [of _ "[]"]) simp
  qed
qed

lemma run_streak:
  assumes "run_watchdog current inputs s = Some (ws @ [Tripped r], s')" and "counted_streak vs s" and "1 \<le> st_failureThreshold current"
  shows "\<exists>rest rs. filter (\<lambda>v. v \<noteq> ProbePending) (vs @ ws) = rest @ map Degraded rs \<and>
     int (length rs) = failureThresholdForReasons (st_failureThreshold current) r - 1 \<and> (\<forall>q \<in> set rs. classifyFailure q = classifyFailure r)"
  using assms
proof (induction inputs arbitrary: s vs ws)
  case (Cons i inputs)
  obtain v s1 where c: "cycle current i s = Some (v, s1)" using Cons.prems(1) by (auto split: prod.splits)
  note step = cycle_streak [OF c]
  show ?case
  proof (cases "\<exists>q. v = Tripped q")
    case True
    then have "ws = []" "v = Tripped r" using Cons.prems(1) c by (auto simp: Cons_eq_append_conv)
    then show ?thesis using tripped_streak [OF Cons.prems(2) _ Cons.prems(3)] step by auto
  next
    case False
    then obtain us where r: "run_watchdog current inputs s1 = Some (us, s')" "ws @ [Tripped r] = v # us"
      using Cons.prems(1) c by (cases v) auto
    then obtain ws' where ws: "ws = v # ws'" "us = ws' @ [Tripped r]" using False by (cases ws) auto
    show ?thesis
      using Cons.IH [OF r(1) [unfolded ws(2)] counted_streak_step [OF Cons.prems(2) step] Cons.prems(3)] False ws(1) by auto
  qed
qed simp

section \<open>Restarts\<close>

lemma split_byte_line: "c \<notin> set line \<Longrightarrow> split_byte c (line @ c # rest) = line # split_byte c rest"
  by (induction line) auto

lemma itoa_plain: "list_all (\<lambda>c. \<not> is_space c) (itoa v)"
proof -
  have "list_all (\<lambda>c. \<not> is_space c) (digits n)" for n
    using digits_parse [of n] by (auto simp: list_all_iff is_digit_def is_space_def)
  then show ?thesis by (auto simp: itoa_def is_space_def)
qed

lemma trimSpace_plain: "list_all (\<lambda>c. \<not> is_space c) s \<Longrightarrow> trimSpace s = s"
proof -
  assume "list_all (\<lambda>c. \<not> is_space c) s"
  then have rev: "list_all (\<lambda>c. \<not> is_space c) (rev s)" by simp
  have "list_all (\<lambda>c. \<not> is_space c) xs \<Longrightarrow> dropWhile is_space xs = xs" for xs
    by (cases xs) simp_all
  then have "dropWhile is_space s = s" "dropWhile is_space (rev s) = rev s"
    using \<open>list_all (\<lambda>c. \<not> is_space c) s\<close> rev by blast+
  then show ?thesis by (simp add: trimSpace_def)
qed

lemma parse_stamps_body:
  assumes "list_all (\<lambda>v. - (2 ^ 63) \<le> v \<and> v < 2 ^ 63) stamps"
  shows "parse_stamps (timestampBody stamps) = stamps"
  using assms
proof (induction stamps)
  case Nil
  then show ?case by (simp add: parse_stamps_def timestampBody_def trimSpace_def List.map_filter_def parseInt64_def parse_unsigned_def)
next
  case (Cons v stamps)
  have "CHR 0x0A \<notin> set (itoa v)" using itoa_plain [of v] by (auto simp: list_all_iff is_space_def)
  then have "split_byte CHR 0x0A (timestampBody (v # stamps)) = itoa v # split_byte CHR 0x0A (timestampBody stamps)"
    by (simp add: timestampBody_def split_byte_line)
  moreover have "parseInt64 (trimSpace (itoa v)) = Some v"
    using Cons.prems parseInt64_itoa [of v] by (simp add: trimSpace_plain itoa_plain)
  ultimately show ?case using Cons by (simp add: parse_stamps_def List.map_filter_def)
qed

lemma parse_stamps_range: "list_all (\<lambda>v. - (2 ^ 63) \<le> v \<and> v < 2 ^ 63) (parse_stamps data)"
proof -
  have "parseInt64 s = Some v \<Longrightarrow> - (2 ^ 63) \<le> v \<and> v < 2 ^ 63" for s v
    by (auto simp: parseInt64_def Let_def split: list.splits if_splits option.splits prod.splits)
  then show ?thesis by (auto simp: parse_stamps_def List.map_filter_def list_all_iff)
qed

text \<open>The stamps in a restart file.\<close>

definition stamps_in :: "string option \<Rightarrow> int list" where
  "stamps_in file = parse_stamps (case file of None \<Rightarrow> [] | Some data \<Rightarrow> data)"

lemma stamps_in_range: "list_all (\<lambda>v. - (2 ^ 63) \<le> v \<and> v < 2 ^ 63) (recent_stamps now (stamps_in file))"
  using parse_stamps_range [of "case file of None \<Rightarrow> [] | Some data \<Rightarrow> data"]
  by (auto simp: stamps_in_def recent_stamps_def list_all_iff)

lemma prune_stamps:
  assumes "pruneRestarts True True now restarts file = (n, stamps)"
  shows "stamps_in stamps = recent_stamps now (stamps_in file)" "n = int (length (stamps_in stamps))"
proof -
  let ?valid = "recent_stamps now (stamps_in file)"
  have body: "parse_stamps (timestampBody ?valid) = ?valid" by (rule parse_stamps_body [OF stamps_in_range])
  have n: "n = int (length ?valid)" and st: "stamps = Some (timestampBody ?valid) \<or> stamps = file \<and> file = None \<and> ?valid = []"
    using assms unfolding pruneRestarts_def stamps_in_def [symmetric] Let_def by (simp_all split: if_splits, blast)
  show s: "stamps_in stamps = ?valid"
    using st
  proof
    assume "stamps = Some (timestampBody ?valid)"
    then show ?thesis using body by (simp add: stamps_in_def)
  next
    assume none: "stamps = file \<and> file = None \<and> ?valid = []"
    have "stamps_in None = []" by (simp add: stamps_in_def parse_stamps_def List.map_filter_def trimSpace_def parseInt64_def parse_unsigned_def)
    with none show ?thesis by metis
  qed
  show "n = int (length (stamps_in stamps))" using n s by simp
qed

lemma record_stamps:
  assumes "recordRestart True True now restarts file = (n, stamps)" and "- (2 ^ 63) \<le> unix_seconds now" "unix_seconds now < 2 ^ 63"
  shows "stamps_in stamps = stamps_in file @ [unix_seconds now]"
proof -
  have "stamps = Some (timestampBody (stamps_in file @ [unix_seconds now]))"
    using assms(1) by (auto simp: recordRestart_def stamps_in_def Let_def split: option.splits)
  moreover have "list_all (\<lambda>v. - (2 ^ 63) \<le> v \<and> v < 2 ^ 63) (stamps_in file @ [unix_seconds now])"
    using parse_stamps_range assms(2,3) by (simp add: stamps_in_def)
  ultimately show ?thesis using parse_stamps_body by (simp add: stamps_in_def)
qed

lemma tripped_records:
  assumes "failing_cycle current i reasons s = (Tripped r, s')" and "ci_readable i" "ci_writable i"
    and "- (2 ^ 63) \<le> unix_seconds (ci_now i)" "unix_seconds (ci_now i) < 2 ^ 63"
  shows "stamps_in (wd_restartFile s') = recent_stamps (ci_now i) (stamps_in (wd_restartFile s)) @ [unix_seconds (ci_now i)]"
    "int (length (stamps_in (wd_restartFile s'))) \<le> st_restartBudget current"
proof -
  obtain n stamps where p: "pruneRestarts True True (ci_now i) (wd_restarts s) (wd_restartFile s) = (n, stamps)" by fastforce
  obtain m stamps' where q: "recordRestart True True (ci_now i) n stamps = (m, stamps')" by fastforce
  have n: "n < st_restartBudget current" "wd_restartFile s' = stamps'"
    using assms(1-3) p q by (auto simp: failing_cycle_def Let_def split: prod.splits if_splits)
  note prune = prune_stamps [OF p]
  show "stamps_in (wd_restartFile s') = recent_stamps (ci_now i) (stamps_in (wd_restartFile s)) @ [unix_seconds (ci_now i)]"
    using record_stamps [OF q assms(4,5)] prune(1) n(2) by simp
  show "int (length (stamps_in (wd_restartFile s'))) \<le> st_restartBudget current"
    using record_stamps [OF q assms(4,5)] prune(2) n by simp
qed

section \<open>Properties of the watchdog\<close>

text \<open>A cycle without a core, and a cycle with a core whose deep probe, if it ran, found all well.\<close>

definition sick_input :: "nanos \<Rightarrow> cycle_input" where
  "sick_input now = \<lparr>ci_start = now, ci_now = now, ci_late = now, ci_guard = None, ci_alive = (\<lambda>pid. False),
     ci_readiness = Some \<lparr>rd_Configured = True, rd_Ready = True, rd_ApplyRecoveryPending = False\<rparr>, ci_generation = [], ci_coreRunning = False,
     ci_config = True, ci_identity = [], ci_arrived = None, ci_waitArrived = None, ci_waitAt = now, ci_readable = True, ci_writable = True,
     ci_published = True\<rparr>"

definition well_input :: "nanos \<Rightarrow> cycle_input" where
  "well_input now = (sick_input now)\<lparr>ci_generation := ''7'', ci_coreRunning := True, ci_identity := ''7:42'',
     ci_waitArrived := Some \<lparr>dp_identity = [], dp_healthy = True, dp_reasons = [], dp_uncertain = False\<rparr>\<rparr>"

text \<open>C11: Whatever the cycles of a run of the watchdog observe, no cycle panics, and a readiness lease that stands after the next
  cycle is backed by that cycle: the deep checks hold a healthy proof for the identity (core and configuration) that the cycle saw,
  started no longer ago than the deep interval and the probe timeout, and the verified core generation is the one
  that runs. A cycle that finds the dataplane ready and can write the file leaves a lease with its own time.\<close>

theorem lease_is_backed:
  "\<exists>vs s v s'. run_watchdog current inputs (start_watchdog readable writable now stamps) = Some (vs, s) \<and> cycle_body current i s = Some (v, s') \<and>
     (wd_lease s' = None \<or> backed current i s') \<and>
     (v = DataplaneReady \<and> ci_published i \<longrightarrow> wd_lease s' = Some (lease_body (ci_late i)))"
proof -
  obtain vs s where r: "run_watchdog current inputs (start_watchdog readable writable now stamps) = Some (vs, s)" "wd_ok s"
    using run_watchdog_ok [OF start_watchdog_ok] by blast
  obtain v s' where b: "cycle_body current i s = Some (v, s')" "wd_lease s' \<noteq> None \<longrightarrow> backed current i s'"
    using cycle_body_lease [OF r(2)] by blast
  have "(wd_lease s' = None \<or> backed current i s') \<and> (v = DataplaneReady \<and> ci_published i \<longrightarrow> wd_lease s' = Some (lease_body (ci_late i)))"
    using cycle_body_ready b by blast
  then show ?thesis using r(1) b(1) by blast
qed

theorem lease_is_backed_witness:
  "\<exists>s s'. run_watchdog (loadSettings Map.empty None) [well_input 0] (start_watchdog True True 0 None) = Some ([ProbePending], s) \<and>
     cycle_body (loadSettings Map.empty None) (well_input (5 * second)) s = Some (DataplaneReady, s') \<and> wd_lease s' = Some (lease_body (5 * second))"
proof -
  let ?run = "run_watchdog (loadSettings Map.empty None) [well_input 0] (start_watchdog True True 0 None)"
  have "(case ?run of Some (ws, s) \<Rightarrow> ws = [ProbePending] \<and>
      (case cycle_body (loadSettings Map.empty None) (well_input (5 * second)) s of Some (v, s') \<Rightarrow> v = DataplaneReady | None \<Rightarrow> False) | None \<Rightarrow> False)"
    by code_simp
  then obtain s s' where run: "?run = Some ([ProbePending], s)"
      "cycle_body (loadSettings Map.empty None) (well_input (5 * second)) s = Some (DataplaneReady, s')"
    by (auto split: option.splits)
  have input: "ci_published (well_input (5 * second))" "ci_late (well_input (5 * second)) = 5 * second" by (simp_all add: well_input_def sick_input_def)
  obtain vs1 s1 v1 s1' where l: "?run = Some (vs1, s1)" "cycle_body (loadSettings Map.empty None) (well_input (5 * second)) s1 = Some (v1, s1')"
      "v1 = DataplaneReady \<and> ci_published (well_input (5 * second)) \<longrightarrow> wd_lease s1' = Some (lease_body (ci_late (well_input (5 * second))))"
    using lease_is_backed [of "loadSettings Map.empty None" "[well_input 0]" True True 0 None "well_input (5 * second)"] by blast
  have "Some (vs1, s1) = Some ([ProbePending], s)" using l(1) run(1) by (rule trans [OF sym])
  then have "Some (v1, s1') = Some (DataplaneReady, s')" using l(2) run(2) by (metis option.inject prod.inject)
  then have "wd_lease s' = Some (lease_body (5 * second))" using l(3) input by simp
  then show ?thesis using run by blast
qed

text \<open>C12: The watchdog restarts the gateway only for a confirmed failure. When a run from its start, with the settings that it loads,
  ends by tripping, then the cycles before it, those that only wait for the first deep probe left out, end with as many degraded
  cycles as the threshold asks for, less the tripping one, and every one of them failed in the same way: in the control plane
  only, which means that it had reasons and that all of them are a configuration or a readiness answer of the API, or not. The
  threshold is the configured one, and at least 24 for a failure of the control plane only.\<close>

theorem restart_needs_confirmed_failure:
  assumes "run_watchdog (loadSettings environ conf) inputs (start_watchdog readable writable now stamps) = Some (ws @ [Tripped r], s')"
  shows "\<exists>rest rs. filter (\<lambda>v. v \<noteq> ProbePending) ws = rest @ map Degraded rs \<and>
     int (length rs) + 1 = (if r \<noteq> [] \<and> set r \<subseteq> {''api_configured'', ''api_ready''}
       then max 24 (st_failureThreshold (loadSettings environ conf)) else st_failureThreshold (loadSettings environ conf)) \<and>
     list_all (\<lambda>q. (q \<noteq> [] \<and> set q \<subseteq> {''api_configured'', ''api_ready''}) = (r \<noteq> [] \<and> set r \<subseteq> {''api_configured'', ''api_ready''})) rs"
proof -
  have plane: "controlPlaneOnlyFailure q \<longleftrightarrow> q \<noteq> [] \<and> set q \<subseteq> {''api_configured'', ''api_ready''}" for q
    by (auto simp: controlPlaneOnlyFailure_def list_all_iff)
  have threshold: "failureThresholdForReasons base q =
      (if q \<noteq> [] \<and> set q \<subseteq> {''api_configured'', ''api_ready''} then max 24 base else base)" for base q
    unfolding failureThresholdForReasons_def plane by simp
  have same: "classifyFailure q = classifyFailure r \<longleftrightarrow>
      (q \<noteq> [] \<and> set q \<subseteq> {''api_configured'', ''api_ready''}) = (r \<noteq> [] \<and> set r \<subseteq> {''api_configured'', ''api_ready''})" for q
    unfolding classifyFailure_def plane by (simp split: if_split)
  have "counted_streak [] (start_watchdog readable writable now stamps)" by (simp add: counted_streak_def start_watchdog_def split: prod.split)
  moreover have "1 \<le> st_failureThreshold (loadSettings environ conf)" using loadSettings_ok by (simp add: settings_ok_def)
  ultimately obtain rest rs where streak: "filter (\<lambda>v. v \<noteq> ProbePending) ([] @ ws) = rest @ map Degraded rs"
      "int (length rs) = failureThresholdForReasons (st_failureThreshold (loadSettings environ conf)) r - 1"
      "\<forall>q \<in> set rs. classifyFailure q = classifyFailure r"
    using run_streak [OF assms] by blast
  show ?thesis
    by (rule exI [of _ rest], rule exI [of _ rs], intro conjI)
      (use streak(1) in simp, use streak(2) [unfolded threshold] in linarith, use streak(3) [unfolded same] in \<open>simp only: list_all_iff\<close>)
qed

theorem restart_needs_confirmed_failure_witness:
  "\<exists>s' r rest rs. run_watchdog (loadSettings Map.empty None) [sick_input 0, sick_input (5 * second), sick_input (10 * second)] (start_watchdog True True 0 None) =
       Some ([Degraded r, Degraded r] @ [Tripped r], s') \<and>
     filter (\<lambda>v. v \<noteq> ProbePending) [Degraded r, Degraded r] = rest @ map Degraded rs \<and> int (length rs) + 1 = 3"
proof -
  let ?run = "run_watchdog (loadSettings Map.empty None) [sick_input 0, sick_input (5 * second), sick_input (10 * second)] (start_watchdog True True 0 None)"
  let ?r = "[''core_process'', ''core_startup'', ''deep_probe'']"
  have "(case ?run of Some (ws, s') \<Rightarrow> ws = [Degraded ?r, Degraded ?r] @ [Tripped ?r] | None \<Rightarrow> False)" by code_simp
  then obtain s' where run: "?run = Some ([Degraded ?r, Degraded ?r] @ [Tripped ?r], s')" by (auto split: option.splits)
  have threshold: "st_failureThreshold (loadSettings Map.empty None) = 3" by code_simp
  obtain rest rs where "filter (\<lambda>v. v \<noteq> ProbePending) [Degraded ?r, Degraded ?r] = rest @ map Degraded rs" "int (length rs) + 1 = 3"
    using restart_needs_confirmed_failure [OF run] unfolding threshold by auto
  with run show ?thesis by (intro exI [of _ s'] exI [of _ ?r] exI [of _ rest] exI [of _ rs] conjI)
qed

text \<open>C24: The restart budget. When a cycle trips, with a restart history that can be read and written (otherwise the code logs the
  error and restarts unrecorded), the file afterwards holds the restarts that were in it and lie in the hour before the start of
  the cycle and in the hour before the restart, with the new one as the last, and there are no more of them than the budget allows.\<close>

theorem restart_budget_respected:
  assumes "cycle_body current i s = Some (Tripped r, s')" and "ci_readable i" "ci_writable i"
    and "- (2 ^ 63) \<le> unix_seconds (ci_now i)" "unix_seconds (ci_now i) < 2 ^ 63"
  shows "stamps_in (wd_restartFile s') =
      filter (\<lambda>v. unix_seconds (ci_start i - 3600 * second) < v \<and> v \<le> unix_seconds (ci_start i) \<and>
          unix_seconds (ci_now i - 3600 * second) < v \<and> v \<le> unix_seconds (ci_now i)) (stamps_in (wd_restartFile s)) @
        [unix_seconds (ci_now i)] \<and>
    int (length (stamps_in (wd_restartFile s'))) \<le> st_restartBudget current"
proof -
  have both: "recent_stamps (ci_now i) (recent_stamps (ci_start i) stamps) =
      filter (\<lambda>v. unix_seconds (ci_start i - 3600 * second) < v \<and> v \<le> unix_seconds (ci_start i) \<and>
          unix_seconds (ci_now i - 3600 * second) < v \<and> v \<le> unix_seconds (ci_now i)) stamps" for stamps
    by (simp add: recent_stamps_def conj_ac cong: filter_cong)
  from assms(1) show ?thesis
  proof (cases rule: cycle_body_cases)
    case (judged h q f s1)
    obtain n stamps where p: "pruneRestarts True True (ci_start i) (wd_restarts s) (wd_restartFile s) = (n, stamps)" by fastforce
    have s1: "stamps_in (wd_restartFile s1) = recent_stamps (ci_start i) (stamps_in (wd_restartFile s))"
      using judged(3) p prune_stamps(1) [OF p] assms(2,3) by simp
    from judged(1) show ?thesis
    proof (cases rule: judge_cycle_cases)
      case ready
      then show ?thesis by (auto simp: healthy_cycle_def Let_def split: if_splits)
    next
      case (failing s2 w rs)
      then show ?thesis using tripped_records [OF failing(5) assms(2-5)] s1 both by simp
    qed simp_all
  qed simp
qed

theorem restart_budget_respected_witness:
  "\<exists>r s'. cycle_body (loadSettings [''SB_WATCHDOG_FAILURE_THRESHOLD'' \<mapsto> ''1''] None) (sick_input (20 * second)) (start_watchdog True True (20 * second) (Some ''-9999\<newline>7\<newline>30\<newline>'')) = Some (Tripped r, s') \<and>
     stamps_in (wd_restartFile s') = [7, 20] \<and> int (length (stamps_in (wd_restartFile s'))) \<le> 6"
proof -
  let ?run = "cycle_body (loadSettings [''SB_WATCHDOG_FAILURE_THRESHOLD'' \<mapsto> ''1''] None) (sick_input (20 * second)) (start_watchdog True True (20 * second) (Some ''-9999\<newline>7\<newline>30\<newline>''))"
  let ?r = "[''core_process'', ''core_startup'', ''deep_probe'']"
  have "(case ?run of Some (v, s') \<Rightarrow> v = Tripped ?r | None \<Rightarrow> False)" by code_simp
  then obtain s' where run: "?run = Some (Tripped ?r, s')" by (auto split: option.splits)
  have old: "filter (\<lambda>v. unix_seconds (20 * second - 3600 * second) < v \<and> v \<le> unix_seconds (20 * second) \<and>
        unix_seconds (20 * second - 3600 * second) < v \<and> v \<le> unix_seconds (20 * second))
      (stamps_in (wd_restartFile (start_watchdog True True (20 * second) (Some ''-9999\<newline>7\<newline>30\<newline>'')))) = [7]" by code_simp
  have budget: "st_restartBudget (loadSettings [''SB_WATCHDOG_FAILURE_THRESHOLD'' \<mapsto> ''1''] None) = 6" by code_simp
  have input: "ci_now (sick_input t) = t" "ci_start (sick_input t) = t" "ci_readable (sick_input t)" "ci_writable (sick_input t)" for t
    by (simp_all add: sick_input_def)
  have "stamps_in (wd_restartFile s') = [7, 20] \<and> int (length (stamps_in (wd_restartFile s'))) \<le> 6"
    using restart_budget_respected [OF run input(3,4)] unfolding input budget old by simp
  with run show ?thesis by blast
qed

end
