(* ===== verification/Appliance_Supervisor.thy ===== *)
theory Appliance_Supervisor
  imports Gateway_Prelude
begin

text \<open>
  The supervisor of the programs in the container, \<^verbatim>\<open>internal/appliance/supervisor.go\<close>. Every program has a goroutine,
  \<^verbatim>\<open>runProgram\<close>, and a child that runs the program; callers of \<^verbatim>\<open>Restart\<close> talk to the goroutines over unbuffered
  channels and wait for an acknowledgement. The model is a step relation on the state of all of them: a step of a
  goroutine is what it does between two points at which it can wait, and the goroutine of a program is at one of
  the points of \<open>position\<close>. What a program or a reload returns, and when a context ends, is left open. Probes are an argument.
\<close>

section \<open>Programs\<close>

datatype sup_error = Canceled | DeadlineExceeded | Message string | Wrapped string sup_error

fun is_canceled :: "sup_error \<Rightarrow> bool" where
  "is_canceled Canceled = True"
| "is_canceled (Wrapped text err) = is_canceled err"
| "is_canceled _ = False"

record program =
  pg_Name :: string
  pg_Run :: bool
  pg_Probe :: bool
  pg_Reload :: bool

text \<open>
  Where a goroutine is: at the head of its loop, with the request that it will acknowledge; in the select; in a reload; waiting
  for the child to stop for a planned restart; in the delay after a failure; waiting for the child at the end; gone. Before
  \<^verbatim>\<open>Run\<close> there is no goroutine.
\<close>

datatype position = Absent | AtLoop "nat option" | Serving | Reloading nat | Stopping nat | Backoff | Draining | Ended

text \<open>The child: none, running, or its result not yet received.\<close>

datatype child = NoChild | Alive | Result "sup_error option"

record programState =
  ps_program :: program
  ps_generation :: nat
  ps_running :: bool
  ps_lastError :: "sup_error option"
  ps_failures :: int
  ps_at :: position
  ps_child :: child

definition new_state :: "program \<Rightarrow> programState" where
  "new_state p = \<lparr>ps_program = p, ps_generation = 0, ps_running = False, ps_lastError = None, ps_failures = 0, ps_at = Absent, ps_child = NoChild\<rparr>"

abbreviation ps_name :: "programState \<Rightarrow> string" where "ps_name st \<equiv> pg_Name (ps_program st)"

text \<open>A caller of \<^verbatim>\<open>Restart\<close>: before the supervisor is ready, offering a request, waiting for its acknowledgement, or back.\<close>

datatype caller_phase = Calling | Offering | Waiting | Returned "sup_error option"

record caller =
  ca_names :: "string list"
  ca_todo :: "string list"
  ca_phase :: caller_phase
  ca_ack :: "sup_error option option"

record supervisor =
  su_programs :: "programState list"
  su_started :: bool
  su_ctx :: "sup_error option"
  su_callers :: "caller list"

fun new_programs :: "program list \<Rightarrow> programState list \<Rightarrow> sup_error + programState list" where
  "new_programs [] states = Inr states"
| "new_programs (p # ps) states =
     (if pg_Name p = [] \<or> \<not> pg_Run p then Inl (Message ''appliance program requires name and runner'')
      else if pg_Name p \<in> ps_name ` set states then Inl (Message ''duplicate appliance program'')
      else new_programs ps (states @ [new_state p]))"

definition NewSupervisor :: "program list \<Rightarrow> sup_error + supervisor" where
  "NewSupervisor programs = (case new_programs programs [] of
     Inl err \<Rightarrow> Inl err
   | Inr states \<Rightarrow>
       if states = [] then Inl (Message ''appliance supervisor requires at least one program'')
       else Inr \<lparr>su_programs = states, su_started = False, su_ctx = None, su_callers = []\<rparr>)"

definition setStarted :: "programState \<Rightarrow> programState" where
  "setStarted st = st\<lparr>ps_generation := Suc (ps_generation st), ps_running := True, ps_lastError := None\<rparr>"

definition setStopped :: "sup_error option \<Rightarrow> programState \<Rightarrow> programState" where
  "setStopped err st = st\<lparr>ps_running := False, ps_lastError := err\<rparr>"

definition restartDelay :: "int \<Rightarrow> nanos" where
  "restartDelay failures =
     (if failures < 1 then 0
      else let failures = (if 5 < failures then 5 else failures) in push_bit (nat (failures - 1)) 1 * second)"

definition expectedStopError :: "sup_error option \<Rightarrow> sup_error option" where
  "expectedStopError err = (case err of None \<Rightarrow> None | Some e \<Rightarrow> if is_canceled e then None else err)"

definition unexpectedStopError :: "sup_error option \<Rightarrow> sup_error option" where
  "unexpectedStopError err = (case err of None \<Rightarrow> Some (Message ''program stopped without an error'') | Some e \<Rightarrow> err)"

section \<open>The goroutine of a program\<close>

text \<open>An acknowledgement: the caller and what it is told.\<close>

type_synonym ack = "nat \<times> sup_error option"

definition start_generation :: "nat option \<Rightarrow> programState \<Rightarrow> programState \<times> ack option" where
  "start_generation restarted st =
     ((setStarted st)\<lparr>ps_child := Alive, ps_at := Serving\<rparr>, map_option (\<lambda>c. (c, None)) restarted)"

definition planned_stop :: "sup_error option \<Rightarrow> nat \<Rightarrow> sup_error option \<Rightarrow> programState \<Rightarrow> programState \<times> ack option" where
  "planned_stop ctx c err st =
     (let st = st\<lparr>ps_child := NoChild\<rparr> in
      if ctx \<noteq> None then (st\<lparr>ps_at := Ended\<rparr>, Some (c, ctx))
      else ((setStopped (expectedStopError err) st)\<lparr>ps_failures := 0, ps_at := AtLoop (Some c)\<rparr>, None))"

definition unexpected_stop :: "sup_error option \<Rightarrow> sup_error option \<Rightarrow> programState \<Rightarrow> programState \<times> ack option" where
  "unexpected_stop ctx err st =
     (let st = st\<lparr>ps_child := NoChild\<rparr> in
      if ctx \<noteq> None then ((setStopped None st)\<lparr>ps_at := Ended\<rparr>, None)
      else ((setStopped (unexpectedStopError err) st)\<lparr>ps_failures := ps_failures st + 1, ps_at := Backoff\<rparr>, None))"

inductive worker_step :: "sup_error option \<Rightarrow> programState \<Rightarrow> programState \<times> ack option \<Rightarrow> bool" for ctx where
  start: "ps_at st = AtLoop restarted \<Longrightarrow> ctx = None \<Longrightarrow> worker_step ctx st (start_generation restarted st)"
| leave: "ps_at st = AtLoop restarted \<Longrightarrow> ctx \<noteq> None \<Longrightarrow> worker_step ctx st (st\<lparr>ps_at := Ended\<rparr>, None)"
| exits: "ps_child st = Alive \<Longrightarrow> worker_step ctx st (st\<lparr>ps_child := Result err\<rparr>, None)"
| reloaded: "ps_at st = Reloading c \<Longrightarrow> worker_step ctx st (st\<lparr>ps_at := Serving\<rparr>, Some (c, err))"
| planned: "ps_at st = Stopping c \<Longrightarrow> ps_child st = Result err \<Longrightarrow> worker_step ctx st (planned_stop ctx c err st)"
| failed: "ps_at st = Serving \<Longrightarrow> ps_child st = Result err \<Longrightarrow> worker_step ctx st (unexpected_stop ctx err st)"
| delayed: "ps_at st = Backoff \<Longrightarrow> worker_step ctx st (st\<lparr>ps_at := AtLoop None\<rparr>, None)"
| abandoned: "ps_at st = Backoff \<Longrightarrow> ctx \<noteq> None \<Longrightarrow> worker_step ctx st (st\<lparr>ps_at := Ended\<rparr>, None)"
| cancelled: "ps_at st = Serving \<Longrightarrow> ctx \<noteq> None \<Longrightarrow> worker_step ctx st (st\<lparr>ps_at := Draining\<rparr>, None)"
| drained: "ps_at st = Draining \<Longrightarrow> ps_child st = Result err \<Longrightarrow>
    worker_step ctx st ((setStopped None st)\<lparr>ps_child := NoChild, ps_at := Ended\<rparr>, None)"

inductive_cases worker_stepE: "worker_step ctx st (st', ack)"

section \<open>Callers\<close>

fun selected_loop :: "programState list \<Rightarrow> string list \<Rightarrow> string list \<Rightarrow> sup_error + string list" where
  "selected_loop states [] seen = Inr seen"
| "selected_loop states (n # ns) seen =
     (if n \<in> set seen then selected_loop states ns seen
      else if n \<notin> ps_name ` set states then Inl (Message ''unknown appliance program'')
      else selected_loop states ns (seen @ [n]))"

definition selected :: "programState list \<Rightarrow> string list \<Rightarrow> sup_error + string list" where
  "selected states names = selected_loop states names []"

text \<open>The next request, or the return when none is left.\<close>

definition next_request :: "string list \<Rightarrow> caller \<Rightarrow> caller" where
  "next_request todo ca = ca\<lparr>ca_todo := todo, ca_phase := if todo = [] then Returned None else Offering\<rparr>"

definition admit :: "programState list \<Rightarrow> caller \<Rightarrow> caller" where
  "admit states ca = (case selected states (ca_names ca) of
     Inl err \<Rightarrow> ca\<lparr>ca_phase := Returned (Some err)\<rparr>
   | Inr todo \<Rightarrow> next_request todo ca)"

definition take_ack :: "sup_error option \<Rightarrow> caller \<Rightarrow> caller" where
  "take_ack r ca = (let ca = ca\<lparr>ca_ack := None\<rparr> in
     if r \<noteq> None then ca\<lparr>ca_phase := Returned r\<rparr> else next_request (tl (ca_todo ca)) ca)"

definition take_request :: "nat \<Rightarrow> programState \<Rightarrow> programState" where
  "take_request c st = st\<lparr>ps_at := if pg_Reload (ps_program st) then Reloading c else Stopping c\<rparr>"

definition deliver :: "ack option \<Rightarrow> caller list \<Rightarrow> caller list" where
  "deliver ack callers = (case ack of
     None \<Rightarrow> callers
   | Some (c, r) \<Rightarrow> if c < length callers then callers[c := (callers ! c)\<lparr>ca_ack := Some r\<rparr>] else callers)"

section \<open>The system\<close>

definition start_supervisor :: "supervisor \<Rightarrow> sup_error + supervisor" where
  "start_supervisor s =
     (if su_started s then Inl (Message ''appliance supervisor is already running'')
      else Inr (s\<lparr>su_started := True, su_programs := map (\<lambda>st. st\<lparr>ps_at := AtLoop None\<rparr>) (su_programs s)\<rparr>))"

text \<open>
  The steps of \<^verbatim>\<open>Run\<close>, of the goroutine of each program and of the callers of \<^verbatim>\<open>Restart\<close>. A step of a goroutine reaches to its next
  wait, so a moment inside it, as between the result of a child and \<^verbatim>\<open>setStopped\<close>, is not a state of its own.
\<close>

inductive su_step :: "supervisor \<Rightarrow> supervisor \<Rightarrow> bool" where
  run: "start_supervisor s = Inr s' \<Longrightarrow> su_step s s'"
| cancel: "su_ctx s = None \<Longrightarrow> su_step s (s\<lparr>su_ctx := Some err\<rparr>)"
| worker: "i < length (su_programs s) \<Longrightarrow> worker_step (su_ctx s) (su_programs s ! i) (st, ack) \<Longrightarrow>
    su_step s (s\<lparr>su_programs := (su_programs s)[i := st], su_callers := deliver ack (su_callers s)\<rparr>)"
| restart: "su_step s (s\<lparr>su_callers := su_callers s @ [\<lparr>ca_names = names, ca_todo = [], ca_phase = Calling, ca_ack = None\<rparr>]\<rparr>)"
| ready: "c < length (su_callers s) \<Longrightarrow> ca_phase (su_callers s ! c) = Calling \<Longrightarrow> su_started s \<Longrightarrow>
    su_step s (s\<lparr>su_callers := (su_callers s)[c := admit (su_programs s) (su_callers s ! c)]\<rparr>)"
| request: "c < length (su_callers s) \<Longrightarrow> ca_phase (su_callers s ! c) = Offering \<Longrightarrow> i < length (su_programs s) \<Longrightarrow>
    ca_todo (su_callers s ! c) = ps_name (su_programs s ! i) # rest \<Longrightarrow> ps_at (su_programs s ! i) = Serving \<Longrightarrow>
    su_step s (s\<lparr>su_programs := (su_programs s)[i := take_request c (su_programs s ! i)],
      su_callers := (su_callers s)[c := (su_callers s ! c)\<lparr>ca_phase := Waiting\<rparr>]\<rparr>)"
| answered: "c < length (su_callers s) \<Longrightarrow> ca_phase (su_callers s ! c) = Waiting \<Longrightarrow> ca_ack (su_callers s ! c) = Some r \<Longrightarrow>
    su_step s (s\<lparr>su_callers := (su_callers s)[c := take_ack r (su_callers s ! c)]\<rparr>)"
| gave_up: "c < length (su_callers s) \<Longrightarrow> ca_phase (su_callers s ! c) \<in> {Calling, Offering, Waiting} \<Longrightarrow>
    su_step s (s\<lparr>su_callers := (su_callers s)[c := (su_callers s ! c)\<lparr>ca_phase := Returned (Some err)\<rparr>]\<rparr>)"

inductive_cases su_stepE: "su_step s s'"

record status =
  st_Name :: string
  st_Generation :: nat
  st_Running :: bool
  st_LastError :: "sup_error option"

definition Status :: "supervisor \<Rightarrow> status list" where
  "Status s = sort_key st_Name (map (\<lambda>st. \<lparr>st_Name = ps_name st, st_Generation = ps_generation st, st_Running = ps_running st,
     st_LastError = ps_lastError st\<rparr>) (su_programs s))"

text \<open>The programs that the error of a shutdown timeout names.\<close>

definition unresponsive :: "supervisor \<Rightarrow> string list" where
  "unresponsive s = map st_Name (filter st_Running (Status s))"

definition probe_one :: "(string \<Rightarrow> sup_error option) \<Rightarrow> programState \<Rightarrow> sup_error option" where
  "probe_one probe st =
     (if \<not> pg_Probe (ps_program st) then
        if \<not> ps_running st then
          Some (case ps_lastError st of Some e \<Rightarrow> Wrapped (''probe '' @ ps_name st) e | None \<Rightarrow> Message (''probe '' @ ps_name st @ '': program is not running''))
        else None
      else map_option (Wrapped (''probe '' @ ps_name st)) (probe (ps_name st)))"

text \<open>The probes of a list of names, up to the first error.\<close>

fun probe_all :: "programState list \<Rightarrow> (string \<Rightarrow> sup_error option) \<Rightarrow> string list \<Rightarrow> sup_error option" where
  "probe_all states probe [] = None"
| "probe_all states probe (n # ns) = (case List.find (\<lambda>st. ps_name st = n) states of
     None \<Rightarrow> Some (Message ''unknown appliance program'')
   | Some st \<Rightarrow> (case probe_one probe st of Some e \<Rightarrow> Some e | None \<Rightarrow> probe_all states probe ns))"

definition Probe :: "supervisor \<Rightarrow> (string \<Rightarrow> sup_error option) \<Rightarrow> string list \<Rightarrow> sup_error option" where
  "Probe s probe names = (case selected (su_programs s) names of
     Inl err \<Rightarrow> Some err
   | Inr names \<Rightarrow> probe_all (su_programs s) probe names)"

section \<open>Programs and their children\<close>

definition idle :: "position \<Rightarrow> bool" where
  "idle pos = (case pos of Absent \<Rightarrow> True | AtLoop _ \<Rightarrow> True | Backoff \<Rightarrow> True | Ended \<Rightarrow> True | _ \<Rightarrow> False)"

text \<open>The request that a goroutine has taken and not yet acknowledged.\<close>

definition held :: "position \<Rightarrow> nat option" where
  "held pos = (case pos of AtLoop r \<Rightarrow> r | Reloading c \<Rightarrow> Some c | Stopping c \<Rightarrow> Some c | _ \<Rightarrow> None)"

definition worker_ok :: "bool \<Rightarrow> sup_error option \<Rightarrow> programState \<Rightarrow> bool" where
  "worker_ok started ctx st \<longleftrightarrow>
     (ps_at st = Absent \<longleftrightarrow> \<not> started) \<and> (idle (ps_at st) \<longleftrightarrow> ps_child st = NoChild) \<and> (\<not> idle (ps_at st) \<longrightarrow> ps_running st) \<and>
     (idle (ps_at st) \<and> ps_at st \<noteq> Ended \<longrightarrow> \<not> ps_running st) \<and> (ps_at st \<in> {Draining, Ended} \<longrightarrow> ctx \<noteq> None) \<and>
     (\<forall>c. ps_at st = Reloading c \<longrightarrow> pg_Reload (ps_program st))"

lemmas worker_defs = start_generation_def planned_stop_def unexpected_stop_def setStarted_def setStopped_def Let_def

lemma worker_step_ok:
  assumes "worker_step ctx st r" and "worker_ok started ctx st"
  shows "worker_ok started ctx (fst r)"
  using assms by (induction rule: worker_step.induct) (simp_all add: worker_ok_def idle_def worker_defs)

lemma worker_step_frame:
  assumes "worker_step ctx st r"
  shows "ps_program (fst r) = ps_program st \<and> ps_generation st \<le> ps_generation (fst r)"
  using assms by (induction rule: worker_step.induct) (simp_all add: worker_defs)

text \<open>An acknowledgement goes to the request that was held, which is then no longer held; success means a new generation or a reload.\<close>

lemma worker_step_ack:
  assumes "worker_step ctx st r" and "worker_ok started ctx st"
  shows "case snd r of
      Some (c, e) \<Rightarrow> held (ps_at st) = Some c \<and> held (ps_at (fst r)) = None \<and>
        (e = None \<longrightarrow> pg_Reload (ps_program st) \<or> ps_generation st < ps_generation (fst r))
    | None \<Rightarrow> held (ps_at (fst r)) = held (ps_at st) \<or> held (ps_at (fst r)) = None \<and> ps_at (fst r) = Ended \<and> ctx \<noteq> None"
  using assms by (induction rule: worker_step.induct) (auto simp: worker_ok_def held_def worker_defs split: option.split)

lemma worker_step_not_ended: "worker_step ctx st r \<Longrightarrow> worker_ok started ctx st \<Longrightarrow> ps_at st \<noteq> Ended"
  by (induction rule: worker_step.induct) (auto simp: worker_ok_def idle_def)

section \<open>Requests\<close>

abbreviation pst :: "supervisor \<Rightarrow> nat \<Rightarrow> programState" where "pst s i \<equiv> su_programs s ! i"
abbreviation cst :: "supervisor \<Rightarrow> nat \<Rightarrow> caller" where "cst s c \<equiv> su_callers s ! c"

definition gone :: "caller \<Rightarrow> bool" where
  "gone ca \<longleftrightarrow> (\<exists>e. ca_phase ca = Returned (Some e))"

text \<open>A request that a program holds is the one its caller waits for, unless the caller has given up.\<close>

definition holds_ok :: "caller list \<Rightarrow> programState \<Rightarrow> bool" where
  "holds_ok callers st \<longleftrightarrow> (\<forall>c. held (ps_at st) = Some c \<longrightarrow> c < length callers \<and>
     (gone (callers ! c) \<or> ca_phase (callers ! c) = Waiting \<and> ca_ack (callers ! c) = None \<and> (\<exists>rest. ca_todo (callers ! c) = ps_name st # rest)))"

text \<open>A caller that waits has its acknowledgement, or a program holds its request, or that program has ended.\<close>

definition waits_ok :: "programState list \<Rightarrow> nat \<Rightarrow> caller \<Rightarrow> bool" where
  "waits_ok programs c ca \<longleftrightarrow>
     (ca_phase ca = Waiting \<longrightarrow> ca_todo ca \<noteq> []) \<and> (ca_ack ca \<noteq> None \<longrightarrow> ca_phase ca = Waiting \<or> gone ca) \<and>
     (ca_phase ca = Waiting \<and> ca_ack ca = None \<longrightarrow>
       (\<exists>i < length programs. ps_name (programs ! i) = hd (ca_todo ca) \<and> (held (ps_at (programs ! i)) = Some c \<or> ps_at (programs ! i) = Ended)))"

definition su_ok :: "supervisor \<Rightarrow> bool" where
  "su_ok s \<longleftrightarrow> distinct (map ps_name (su_programs s)) \<and>
     (\<forall>i < length (su_programs s). worker_ok (su_started s) (su_ctx s) (pst s i) \<and> holds_ok (su_callers s) (pst s i)) \<and>
     (\<forall>c < length (su_callers s). waits_ok (su_programs s) c (cst s c))"

lemma same_name: "su_ok s \<Longrightarrow> i < length (su_programs s) \<Longrightarrow> j < length (su_programs s) \<Longrightarrow> ps_name (pst s i) = ps_name (pst s j) \<Longrightarrow> i = j"
  unfolding su_ok_def by (metis length_map nth_eq_iff_index_eq nth_map)

lemma names_update: "i < length ps \<Longrightarrow> ps_program st = ps_program (ps ! i) \<Longrightarrow> map ps_name (ps[i := st]) = map ps_name ps"
  by (simp add: map_update list_update_same_conv)

lemma waits_ok_mono:
  assumes "waits_ok ps c ca" and "length ps' = length ps"
    and "\<And>j. j < length ps \<Longrightarrow> held (ps_at (ps ! j)) = Some c \<or> ps_at (ps ! j) = Ended \<Longrightarrow>
      ps_name (ps' ! j) = ps_name (ps ! j) \<and> (held (ps_at (ps' ! j)) = Some c \<or> ps_at (ps' ! j) = Ended)"
  shows "waits_ok ps' c ca"
proof -
  have "\<exists>i < length ps'. ps_name (ps' ! i) = hd (ca_todo ca) \<and> (held (ps_at (ps' ! i)) = Some c \<or> ps_at (ps' ! i) = Ended)"
    if "ca_phase ca = Waiting" "ca_ack ca = None"
  proof -
    obtain i where i: "i < length ps" "ps_name (ps ! i) = hd (ca_todo ca)" "held (ps_at (ps ! i)) = Some c \<or> ps_at (ps ! i) = Ended"
      using assms(1) \<open>ca_phase ca = Waiting\<close> \<open>ca_ack ca = None\<close> unfolding waits_ok_def by blast
    then show ?thesis using assms(2) assms(3) [OF i(1,3)] by (intro exI [of _ i]) simp
  qed
  then show ?thesis using assms(1) by (simp add: waits_ok_def)
qed

text \<open>A step that changes one caller, whose request no program holds, keeps the rest.\<close>

lemma caller_update_ok:
  assumes "su_ok s" and "c < length (su_callers s)" and "waits_ok (su_programs s) c ca"
    and "gone ca \<or> ca_phase (cst s c) \<noteq> Waiting \<and> \<not> gone (cst s c) \<or> ca_ack (cst s c) \<noteq> None \<and> ca_phase (cst s c) = Waiting"
  shows "su_ok (s\<lparr>su_callers := (su_callers s)[c := ca]\<rparr>)"
proof -
  have "holds_ok ((su_callers s)[c := ca]) (pst s i)" if "i < length (su_programs s)" for i
  proof -
    have h: "holds_ok (su_callers s) (pst s i)" using assms(1) that by (simp add: su_ok_def)
    show ?thesis
    proof (cases "held (ps_at (pst s i)) = Some c \<and> \<not> gone ca")
      case True
      then have False using h assms(4) by (auto simp: holds_ok_def gone_def)
      then show ?thesis ..
    next
      case False
      then show ?thesis using h assms(2) by (auto simp: holds_ok_def nth_list_update)
    qed
  qed
  then show ?thesis using assms(1-3) by (simp add: su_ok_def nth_list_update)
qed

lemma worker_update_ok:
  assumes "su_ok s" and "i < length (su_programs s)" and "worker_step (su_ctx s) (pst s i) (st, ack)"
  shows "su_ok (s\<lparr>su_programs := (su_programs s)[i := st], su_callers := deliver ack (su_callers s)\<rparr>)"
proof -
  let ?ps = "(su_programs s)[i := st]" and ?cs = "deliver ack (su_callers s)"
  have ok: "worker_ok (su_started s) (su_ctx s) (pst s k)" "holds_ok (su_callers s) (pst s k)" if "k < length (su_programs s)" for k
    using assms(1) that by (simp_all add: su_ok_def)
  note w = ok(1) [OF assms(2)]
  have st: "ps_program st = ps_program (pst s i)" "worker_ok (su_started s) (su_ctx s) st"
    using worker_step_frame [OF assms(3)] worker_step_ok [OF assms(3) w] by simp_all
  have live: "ps_at (pst s i) \<noteq> Ended" by (rule worker_step_not_ended [OF assms(3) w])
  note acked = worker_step_ack [OF assms(3) w, unfolded fst_conv snd_conv]
  have waits: "waits_ok (su_programs s) c (cst s c)" if "c < length (su_callers s)" for c
    using assms(1) that by (simp add: su_ok_def)
  have len: "length ?cs = length (su_callers s)" by (simp add: deliver_def split: option.split)
  have "holds_ok ?cs (?ps ! k) \<and> worker_ok (su_started s) (su_ctx s) (?ps ! k)" if k: "k < length (su_programs s)" for k
  proof (cases ack)
    case None
    then show ?thesis
      using acked ok [OF k] ok(2) [OF assms(2)] st assms(2) by (auto simp: holds_ok_def deliver_def nth_list_update)
  next
    case (Some a)
    then obtain c e where a: "ack = Some (c, e)" by (cases a) auto
    then have c: "held (ps_at (pst s i)) = Some c" "held (ps_at st) = None" using acked by auto
    show ?thesis
    proof (cases "k = i")
      case True
      then show ?thesis using st c(2) k by (simp add: holds_ok_def)
    next
      case False
      then have "gone (cst s c)" if "held (ps_at (pst s k)) = Some c"
        using that c(1) ok(2) [OF k] ok(2) [OF assms(2)] same_name [OF assms(1) k assms(2)] by (auto simp: holds_ok_def)
      then show ?thesis
        using False ok [OF k] a by (auto simp: holds_ok_def deliver_def nth_list_update gone_def)
    qed
  qed
  moreover have "waits_ok ?ps c (?cs ! c)" if c: "c < length (su_callers s)" for c
  proof (cases ack)
    case None
    have "held (ps_at st) = Some c \<or> ps_at st = Ended" if "held (ps_at (pst s i)) = Some c"
      using acked None that by auto
    then have "ps_name (?ps ! j) = ps_name (pst s j) \<and> (held (ps_at (?ps ! j)) = Some c \<or> ps_at (?ps ! j) = Ended)"
      if "held (ps_at (pst s j)) = Some c \<or> ps_at (pst s j) = Ended" for j
      using that live assms(2) st(1) by (cases "j = i") auto
    then have "waits_ok ?ps c (cst s c)" using waits_ok_mono [OF waits [OF c]] by simp
    then show ?thesis using None by (simp add: deliver_def)
  next
    case (Some a)
    then obtain d e where a: "ack = Some (d, e)" by (cases a) auto
    then have d: "held (ps_at (pst s i)) = Some d" using acked by auto
    show ?thesis
    proof (cases "c = d")
      case True
      have "ca_phase (cst s c) = Waiting \<or> gone (cst s c)" using ok(2) [OF assms(2)] d True by (auto simp: holds_ok_def)
      then show ?thesis using waits [OF c] a True c by (auto simp: waits_ok_def deliver_def gone_def)
    next
      case False
      then have "ps_name (?ps ! j) = ps_name (pst s j) \<and> (held (ps_at (?ps ! j)) = Some c \<or> ps_at (?ps ! j) = Ended)"
        if "held (ps_at (pst s j)) = Some c \<or> ps_at (pst s j) = Ended" for j
        using that live d by (cases "j = i") simp_all
      then have "waits_ok ?ps c (cst s c)" using waits_ok_mono [OF waits [OF c]] by simp
      then show ?thesis using a False by (simp add: deliver_def)
    qed
  qed
  moreover have "distinct (map ps_name ?ps)"
    using assms(1) names_update [OF assms(2) st(1)] by (simp add: su_ok_def)
  ultimately show ?thesis using len by (simp add: su_ok_def)
qed

lemma request_ok:
  assumes "su_ok s" and "c < length (su_callers s)" "ca_phase (cst s c) = Offering" and "i < length (su_programs s)"
    and "ca_todo (cst s c) = ps_name (pst s i) # rest" "ps_at (pst s i) = Serving"
  shows "su_ok (s\<lparr>su_programs := (su_programs s)[i := take_request c (pst s i)],
    su_callers := (su_callers s)[c := (cst s c)\<lparr>ca_phase := Waiting\<rparr>]\<rparr>)"
proof -
  let ?ps = "(su_programs s)[i := take_request c (pst s i)]" and ?cs = "(su_callers s)[c := (cst s c)\<lparr>ca_phase := Waiting\<rparr>]"
  have ok: "worker_ok (su_started s) (su_ctx s) (pst s k)" "holds_ok (su_callers s) (pst s k)" if "k < length (su_programs s)" for k
    using assms(1) that by (simp_all add: su_ok_def)
  have waits: "waits_ok (su_programs s) d (cst s d)" if "d < length (su_callers s)" for d
    using assms(1) that by (simp add: su_ok_def)
  have none: "ca_ack (cst s c) = None" using waits [OF assms(2)] assms(3) by (auto simp: waits_ok_def gone_def)
  have "worker_ok (su_started s) (su_ctx s) (?ps ! k) \<and> holds_ok ?cs (?ps ! k)" if k: "k < length (su_programs s)" for k
  proof (cases "k = i")
    case True
    have "worker_ok (su_started s) (su_ctx s) (take_request c (pst s i))"
      using ok(1) [OF assms(4)] assms(6) by (auto simp: worker_ok_def take_request_def idle_def)
    moreover have "holds_ok ?cs (take_request c (pst s i))"
      using none assms(2,5) by (auto simp: holds_ok_def take_request_def held_def)
    ultimately show ?thesis using True assms(4) by simp
  next
    case False
    have "held (ps_at (pst s k)) \<noteq> Some c" using ok(2) [OF k] assms(3) by (auto simp: holds_ok_def gone_def)
    then show ?thesis using False ok [OF k] assms(2) by (auto simp: holds_ok_def nth_list_update)
  qed
  moreover have "waits_ok ?ps d (?cs ! d)" if d: "d < length (su_callers s)" for d
  proof (cases "d = c")
    case True
    then show ?thesis
      using assms(2,4,5) none unfolding waits_ok_def by (auto simp: take_request_def held_def intro!: exI [of _ i])
  next
    case False
    have "ps_name (?ps ! j) = ps_name (pst s j) \<and> (held (ps_at (?ps ! j)) = Some d \<or> ps_at (?ps ! j) = Ended)"
      if "held (ps_at (pst s j)) = Some d \<or> ps_at (pst s j) = Ended" for j
      using that assms(6) by (cases "j = i") (auto simp: held_def)
    then have "waits_ok ?ps d (cst s d)" using waits_ok_mono [OF waits [OF d]] by simp
    then show ?thesis using False by simp
  qed
  moreover have "distinct (map ps_name ?ps)"
    using assms(1) names_update [OF assms(4), of "take_request c (pst s i)"] by (simp add: su_ok_def take_request_def)
  ultimately show ?thesis by (simp add: su_ok_def)
qed

lemma su_step_ok: "su_step s s' \<Longrightarrow> su_ok s \<Longrightarrow> su_ok s'"
proof (induction rule: su_step.induct)
  case (run s s')
  then have new: "\<not> su_started s" "s' = s\<lparr>su_started := True, su_programs := map (\<lambda>st. st\<lparr>ps_at := AtLoop None\<rparr>) (su_programs s)\<rparr>"
    by (auto simp: start_supervisor_def split: if_splits)
  then have absent: "ps_at (pst s i) = Absent" if "i < length (su_programs s)" for i
    using run.prems that by (simp add: su_ok_def worker_ok_def)
  have "waits_ok (su_programs s') c (cst s c)" if "c < length (su_callers s)" for c
    using waits_ok_mono [of "su_programs s" c "cst s c" "su_programs s'"] run.prems that absent new(2) by (simp add: su_ok_def held_def)
  moreover have "map ps_name (su_programs s') = map ps_name (su_programs s)" using new(2) by simp
  ultimately show ?case
    using run.prems new absent by (simp add: su_ok_def worker_ok_def holds_ok_def held_def idle_def comp_def)
next
  case (cancel s err)
  then show ?case by (simp add: su_ok_def worker_ok_def)
next
  case (worker i s st ack)
  then show ?case by (intro worker_update_ok)
next
  case (restart s names)
  have "holds_ok (su_callers s @ [ca]) st" if "holds_ok (su_callers s) st" for ca st
    using that by (auto simp: holds_ok_def nth_append)
  then show ?case using restart by (auto simp: su_ok_def nth_append waits_ok_def less_Suc_eq)
next
  case (ready c s)
  then have "ca_ack (cst s c) = None" by (auto simp: su_ok_def waits_ok_def gone_def)
  then have "waits_ok (su_programs s) c (admit (su_programs s) (cst s c))"
    by (simp add: waits_ok_def admit_def next_request_def gone_def split: sum.split)
  then show ?case using ready by (intro caller_update_ok) (auto simp: gone_def)
next
  case (request c s i rest)
  then show ?case by (intro request_ok)
next
  case (answered c s r)
  have "waits_ok (su_programs s) c (take_ack r (cst s c))"
    by (simp add: waits_ok_def take_ack_def next_request_def Let_def)
  then show ?case using answered by (intro caller_update_ok) auto
next
  case (gave_up c s err)
  then show ?case by (intro caller_update_ok) (auto simp: waits_ok_def gone_def)
qed

lemma new_programs_fresh:
  assumes "new_programs ps states = Inr states'" and "list_all (\<lambda>st. ps_at st = Absent \<and> ps_child st = NoChild \<and> \<not> ps_running st) states"
    and "distinct (map ps_name states)"
  shows "list_all (\<lambda>st. ps_at st = Absent \<and> ps_child st = NoChild \<and> \<not> ps_running st) states' \<and> distinct (map ps_name states')"
  using assms by (induction ps states rule: new_programs.induct) (auto simp: new_state_def split: if_splits)

lemma NewSupervisor_ok: "NewSupervisor programs = Inr s \<Longrightarrow> su_ok s"
  using new_programs_fresh [of programs "[]" "su_programs s"]
  by (auto simp: NewSupervisor_def su_ok_def worker_ok_def holds_ok_def held_def idle_def list_all_length split: sum.splits if_splits)

lemma reachable_ok:
  assumes "su_step\<^sup>*\<^sup>* s0 s" and "su_ok s0"
  shows "su_ok s"
  using assms by (induction rule: rtranclp_induct) (auto intro: su_step_ok)

section \<open>What a successful restart means\<close>

text \<open>Since \<open>s0\<close> every named program that cannot reload has started a new generation.\<close>

definition renewed :: "supervisor \<Rightarrow> supervisor \<Rightarrow> string set \<Rightarrow> bool" where
  "renewed s0 s names \<longleftrightarrow> (\<forall>i < length (su_programs s0). ps_name (pst s0 i) \<in> names \<and> \<not> pg_Reload (ps_program (pst s0 i)) \<longrightarrow>
     ps_generation (pst s0 i) < ps_generation (pst s i))"

definition later :: "supervisor \<Rightarrow> supervisor \<Rightarrow> bool" where
  "later s s' \<longleftrightarrow> length (su_programs s') = length (su_programs s) \<and>
     (\<forall>i < length (su_programs s). ps_program (pst s' i) = ps_program (pst s i) \<and> ps_generation (pst s i) \<le> ps_generation (pst s' i))"

lemma later_refl [simp]: "later s s"
  by (simp add: later_def)

lemma later_trans: "later s s' \<Longrightarrow> later s' s'' \<Longrightarrow> later s s''"
  unfolding later_def by (metis order_trans)

lemma later_update:
  assumes "i < length (su_programs s)" and "su_programs s' = (su_programs s)[i := st]" and "ps_program st = ps_program (pst s i)"
    and "ps_generation (pst s i) \<le> ps_generation st"
  shows "later s s'"
  using assms by (simp add: later_def nth_list_update)

lemma su_step_later: "su_step s s' \<Longrightarrow> later s s'"
proof (induction rule: su_step.induct)
  case (run s s')
  then show ?case by (auto simp: start_supervisor_def later_def split: if_splits)
next
  case (worker i s st ack)
  then show ?case using worker_step_frame [OF worker(2)] by (intro later_update [of i s _ st]) simp_all
next
  case (request c s i rest)
  then show ?case by (intro later_update [of i s _ "take_request c (pst s i)"]) (simp_all add: take_request_def)
qed (simp_all add: later_def)

lemma renewed_later: "renewed s0 s names \<Longrightarrow> later s0 s \<Longrightarrow> later s s' \<Longrightarrow> renewed s0 s' names"
  unfolding renewed_def later_def by (metis order_less_le_trans)

lemma renewed_mono: "renewed s0 s names \<Longrightarrow> names' \<subseteq> names \<Longrightarrow> renewed s0 s names'"
  by (auto simp: renewed_def)

lemma renewed_Un: "renewed s0 s (names \<union> names') \<longleftrightarrow> renewed s0 s names \<and> renewed s0 s names'"
  by (auto simp: renewed_def)

definition call_ok :: "supervisor \<Rightarrow> supervisor \<Rightarrow> string list \<Rightarrow> caller \<Rightarrow> bool" where
  "call_ok s0 s names ca = (case ca_phase ca of
     Calling \<Rightarrow> ca_names ca = names
   | Offering \<Rightarrow> renewed s0 s (set names - set (ca_todo ca))
   | Waiting \<Rightarrow> renewed s0 s (set names - set (ca_todo ca)) \<and> (ca_ack ca = Some None \<longrightarrow> renewed s0 s {hd (ca_todo ca)})
   | Returned r \<Rightarrow> r \<noteq> None \<or> renewed s0 s (set names))"

lemma call_ok_later: "call_ok s0 s names ca \<Longrightarrow> later s0 s \<Longrightarrow> later s s' \<Longrightarrow> call_ok s0 s' names ca"
  by (auto simp: call_ok_def renewed_later split: caller_phase.splits)

lemma selected_loop_set: "selected_loop states ns seen = Inr todo \<Longrightarrow> set todo = set seen \<union> set ns \<and> length todo \<le> length seen + length ns"
  by (induction states ns seen rule: selected_loop.induct) (auto split: if_splits)

lemma selected_set: "selected states ns = Inr todo \<Longrightarrow> set todo = set ns \<and> length todo \<le> length ns"
  using selected_loop_set [of states ns "[]" todo] by (simp add: selected_def)

lemma renewed_empty [simp]: "renewed s0 s {}"
  by (simp add: renewed_def)

lemma admit_call:
  assumes "call_ok s0 s names ca" and "ca_phase ca = Calling"
  shows "call_ok s0 s names (admit states ca)"
proof -
  have n: "ca_names ca = names" using assms by (simp add: call_ok_def)
  show ?thesis
    using selected_set [of states names] by (auto simp: admit_def next_request_def call_ok_def n split: sum.split)
qed

lemma take_ack_call:
  assumes "call_ok s0 s names ca" and "ca_phase ca = Waiting" "ca_ack ca = Some r" "ca_todo ca \<noteq> []"
  shows "call_ok s0 s names (take_ack r ca)"
proof (cases r)
  case None
  obtain n rest where todo: "ca_todo ca = n # rest" using assms(4) by (cases "ca_todo ca") auto
  have "renewed s0 s ((set names - set (n # rest)) \<union> {n})"
    using assms None todo unfolding renewed_Un by (simp add: call_ok_def)
  then have "renewed s0 s (set names - set rest)" by (rule renewed_mono) auto
  then show ?thesis using None todo by (cases rest) (simp_all add: take_ack_def next_request_def call_ok_def)
qed (simp add: take_ack_def call_ok_def)

lemma delivered_call:
  assumes "su_ok s" and "later s0 s" and "i < length (su_programs s)" and "worker_step (su_ctx s) (pst s i) (st, Some (c, e))"
    and "su_programs s' = (su_programs s)[i := st]" and "call_ok s0 s' names (cst s c)"
  shows "call_ok s0 s' names ((cst s c)\<lparr>ca_ack := Some e\<rparr>)"
proof -
  have w: "worker_ok (su_started s) (su_ctx s) (pst s i)" "holds_ok (su_callers s) (pst s i)" using assms(1,3) by (simp_all add: su_ok_def)
  have a: "held (ps_at (pst s i)) = Some c" "e = None \<longrightarrow> pg_Reload (ps_program (pst s i)) \<or> ps_generation (pst s i) < ps_generation st"
    using worker_step_ack [OF assms(4) w(1)] by simp_all
  have "renewed s0 s' {ps_name (pst s i)}" if "e = None"
    unfolding renewed_def
  proof (intro allI impI)
    fix j assume j: "j < length (su_programs s0)" "ps_name (pst s0 j) \<in> {ps_name (pst s i)} \<and> \<not> pg_Reload (ps_program (pst s0 j))"
    then have l: "j < length (su_programs s)" "ps_program (pst s j) = ps_program (pst s0 j)" "ps_generation (pst s0 j) \<le> ps_generation (pst s j)"
      using assms(2) by (simp_all add: later_def)
    then have "j = i" using same_name [OF assms(1) l(1) assms(3)] j(2) by simp
    then show "ps_generation (pst s0 j) < ps_generation (pst s' j)" using a(2) that l j(2) assms(3,5) by auto
  qed
  moreover have "gone (cst s c) \<or> ca_phase (cst s c) = Waiting \<and> hd (ca_todo (cst s c)) = ps_name (pst s i)"
    using w(2) a(1) by (auto simp: holds_ok_def)
  ultimately show ?thesis using assms(6) by (auto simp: call_ok_def gone_def)
qed

lemma call_step:
  assumes "su_step s s'" and "su_ok s" and "later s0 s" and "c < length (su_callers s)" and "call_ok s0 s names (cst s c)"
  shows "c < length (su_callers s') \<and> call_ok s0 s' names (cst s' c)"
proof -
  have keep: "call_ok s0 s' names (cst s c)" by (rule call_ok_later [OF assms(5,3) su_step_later [OF assms(1)]])
  have waits: "waits_ok (su_programs s) c (cst s c)" using assms(2,4) by (simp add: su_ok_def)
  from assms(1) show ?thesis
  proof (cases rule: su_step.cases)
    case run
    then show ?thesis using keep assms(4) by (auto simp: start_supervisor_def split: if_splits)
  next
    case (cancel err)
    then show ?thesis using keep assms(4) by simp
  next
    case (worker i st ack)
    show ?thesis
    proof (cases "\<exists>e. ack = Some (c, e)")
      case True
      then obtain e where e: "ack = Some (c, e)" by blast
      then have "call_ok s0 s' names ((cst s c)\<lparr>ca_ack := Some e\<rparr>)"
        using delivered_call [OF assms(2,3), of i st c e s'] worker keep by simp
      then show ?thesis using e worker assms(4) by (simp add: deliver_def)
    next
      case False
      then have "cst s' c = cst s c" using worker by (auto simp: deliver_def split: option.split)
      then show ?thesis using keep worker assms(4) by (auto simp: deliver_def split: option.split)
    qed
  next
    case (restart ns)
    then show ?thesis using keep assms(4) by (simp add: nth_append)
  next
    case (ready d)
    then show ?thesis using keep assms(4) admit_call [OF keep] by (cases "d = c") auto
  next
    case (request d i rest)
    have "call_ok s0 s' names ((cst s c)\<lparr>ca_phase := Waiting\<rparr>)" if "d = c"
      using keep waits request that by (auto simp: call_ok_def waits_ok_def gone_def)
    then show ?thesis using keep assms(4) request by (cases "d = c") auto
  next
    case (answered d r)
    then show ?thesis using keep assms(4) take_ack_call [OF keep] waits by (cases "d = c") (auto simp: waits_ok_def)
  next
    case (gave_up d err)
    then show ?thesis using keep assms(4) by (cases "d = c") (auto simp: call_ok_def)
  qed
qed

section \<open>Shutdown\<close>

fun position_rank :: "position \<Rightarrow> nat" where
  "position_rank Ended = 0"
| "position_rank (AtLoop r) = 1"
| "position_rank Draining = 1"
| "position_rank Absent = 2"
| "position_rank Backoff = 2"
| "position_rank (Stopping c) = 2"
| "position_rank Serving = 3"
| "position_rank (Reloading c) = 4"

definition program_work :: "programState \<Rightarrow> nat" where
  "program_work st = position_rank (ps_at st) + (if ps_child st = Alive then 1 else 0)"

definition caller_work :: "caller \<Rightarrow> nat" where
  "caller_work ca = (case ca_phase ca of
     Calling \<Rightarrow> 4 * length (ca_names ca) + 4
   | Offering \<Rightarrow> 4 * length (ca_todo ca) + 3
   | Waiting \<Rightarrow> 4 * length (ca_todo ca) + 1
   | Returned r \<Rightarrow> 0)"

text \<open>A bound for the steps that are left once the context has ended.\<close>

definition work :: "supervisor \<Rightarrow> nat" where
  "work s = sum_list (map program_work (su_programs s)) + sum_list (map caller_work (su_callers s)) + (if su_started s then 0 else 1)"

text \<open>A step that is not a new call.\<close>

definition quiet_step :: "supervisor \<Rightarrow> supervisor \<Rightarrow> bool" where
  "quiet_step s s' \<longleftrightarrow> su_step s s' \<and> length (su_callers s') = length (su_callers s)"

lemma sum_list_update_nat:
  "i < length xs \<Longrightarrow> sum_list (map f (xs[i := x])) + f (xs ! i) = sum_list (map f xs) + (f x :: nat)"
  by (induction xs arbitrary: i) (auto split: nat.split)

lemma worker_work:
  assumes "worker_step ctx st r" and "ctx \<noteq> None" and "worker_ok started ctx st"
  shows "program_work (fst r) < program_work st"
  using assms by (induction rule: worker_step.induct) (auto simp: program_work_def worker_defs)

lemma caller_work_ack [simp]: "caller_work (ca\<lparr>ca_ack := r\<rparr>) = caller_work ca"
  by (cases "ca_phase ca") (simp_all add: caller_work_def)

lemma deliver_work: "sum_list (map caller_work (deliver ack callers)) = sum_list (map caller_work callers)"
proof -
  have "sum_list (map caller_work (callers[c := (callers ! c)\<lparr>ca_ack := r\<rparr>])) = sum_list (map caller_work callers)" if "c < length callers" for c r
    using sum_list_update_nat [OF that, of caller_work "(callers ! c)\<lparr>ca_ack := r\<rparr>"] by simp
  then show ?thesis by (auto simp: deliver_def split: option.split)
qed

lemma admit_work: "ca_phase ca = Calling \<Longrightarrow> caller_work (admit states ca) < caller_work ca"
  using selected_set [of states "ca_names ca"] by (fastforce simp: admit_def caller_work_def next_request_def split: sum.split)

lemma take_ack_work: "ca_phase ca = Waiting \<Longrightarrow> ca_todo ca \<noteq> [] \<Longrightarrow> caller_work (take_ack r ca) < caller_work ca"
  by (cases "ca_todo ca") (auto simp: take_ack_def caller_work_def next_request_def Let_def)

lemma caller_update_work:
  "c < length (su_callers s) \<Longrightarrow> caller_work ca < caller_work (cst s c) \<Longrightarrow> work (s\<lparr>su_callers := (su_callers s)[c := ca]\<rparr>) < work s"
  using sum_list_update_nat [of c "su_callers s" caller_work ca] by (simp add: work_def)

lemma quiet_work:
  assumes "su_step s s'" and "length (su_callers s') = length (su_callers s)" and "su_ctx s \<noteq> None" and "su_ok s"
  shows "work s' < work s"
  using assms
proof (induction rule: su_step.induct)
  case (run s s')
  then have new: "\<not> su_started s" "s' = s\<lparr>su_started := True, su_programs := map (\<lambda>st. st\<lparr>ps_at := AtLoop None\<rparr>) (su_programs s)\<rparr>"
    by (auto simp: start_supervisor_def split: if_splits)
  have "program_work (st\<lparr>ps_at := AtLoop None\<rparr>) \<le> program_work st" if "st \<in> set (su_programs s)" for st
    using run.prems(3) new(1) that by (auto simp: su_ok_def worker_ok_def program_work_def in_set_conv_nth)
  then have "sum_list (map program_work (su_programs s')) \<le> sum_list (map program_work (su_programs s))"
    unfolding new(2) by (simp add: comp_def sum_list_mono)
  then show ?case using new by (simp add: work_def)
next
  case (worker i s st ack)
  have "worker_ok (su_started s) (su_ctx s) (pst s i)" using worker.prems(3) worker(1) by (simp add: su_ok_def)
  then have "program_work st < program_work (pst s i)" using worker_work [OF worker(2) worker.prems(2)] by simp
  then show ?case
    using sum_list_update_nat [OF worker(1), of program_work st] by (simp add: work_def deliver_work)
next
  case (ready c s)
  then show ?case by (intro caller_update_work admit_work)
next
  case (request c s i rest)
  have "program_work (take_request c (pst s i)) \<le> program_work (pst s i) + 1"
    using request(5) by (simp add: program_work_def take_request_def)
  moreover have "caller_work ((cst s c)\<lparr>ca_phase := Waiting\<rparr>) + 2 = caller_work (cst s c)"
    using request(2) by (simp add: caller_work_def)
  ultimately show ?case
    using sum_list_update_nat [OF request(3), of program_work "take_request c (pst s i)"]
      sum_list_update_nat [OF request(1), of caller_work "(cst s c)\<lparr>ca_phase := Waiting\<rparr>"] by (simp add: work_def)
next
  case (answered c s r)
  then have "ca_todo (cst s c) \<noteq> []" by (simp add: su_ok_def waits_ok_def)
  then show ?case using answered by (intro caller_update_work take_ack_work)
next
  case (gave_up c s err)
  then show ?case by (intro caller_update_work) (auto simp: caller_work_def)
qed simp_all

lemma quiet_ctx: "quiet_step s s' \<Longrightarrow> su_ctx s \<noteq> None \<Longrightarrow> su_ctx s' \<noteq> None"
  unfolding quiet_step_def by (auto elim!: su_step.cases simp: start_supervisor_def split: if_splits)

lemma quiet_steps_bounded:
  "(quiet_step ^^ n) s s' \<Longrightarrow> su_ctx s \<noteq> None \<Longrightarrow> su_ok s \<Longrightarrow> n + work s' \<le> work s"
proof (induction n arbitrary: s)
  case (Suc n)
  obtain s1 where s1: "quiet_step s s1" "(quiet_step ^^ n) s1 s'" using Suc.prems(1) by (metis relpowp_Suc_D2)
  have "su_ok s1" "work s1 < work s" using s1(1) su_step_ok quiet_work Suc.prems(2,3) by (auto simp: quiet_step_def)
  then show ?case using Suc.IH [OF s1(2) quiet_ctx [OF s1(1) Suc.prems(2)]] by simp
qed simp

lemma worker_progress:
  assumes "worker_ok True (Some e) st" and "ps_at st \<noteq> Ended"
  shows "\<exists>r. worker_step (Some e) st r"
proof -
  have child: "\<not> idle (ps_at st) \<Longrightarrow> ps_child st = Alive \<or> (\<exists>err. ps_child st = Result err)"
    using assms(1) by (cases "ps_child st") (auto simp: worker_ok_def)
  have alive: "ps_child st = Alive \<Longrightarrow> ?thesis" using worker_step.exits by blast
  show ?thesis
  proof (cases "ps_at st")
    case (Stopping c)
    then have "\<not> idle (ps_at st)" by (simp add: idle_def)
    then show ?thesis using child alive worker_step.planned [OF Stopping] by blast
  next
    case Draining
    then have "\<not> idle (ps_at st)" by (simp add: idle_def)
    then show ?thesis using child alive worker_step.drained [OF Draining] by blast
  next
    case (AtLoop r)
    then show ?thesis using worker_step.leave [OF AtLoop, of "Some e"] by auto
  next
    case Serving
    then show ?thesis using worker_step.cancelled [OF Serving, of "Some e"] by auto
  next
    case Backoff
    then show ?thesis using worker_step.delayed [OF Backoff] by blast
  next
    case (Reloading c)
    then show ?thesis using worker_step.reloaded [OF Reloading] by blast
  qed (use assms in \<open>simp_all add: worker_ok_def\<close>)
qed

section \<open>An example\<close>

text \<open>One program that cannot reload, and one call that restarts it.\<close>

definition one_program :: program where
  "one_program = \<lparr>pg_Name = ''a'', pg_Run = True, pg_Probe = False, pg_Reload = False\<rparr>"

definition pa :: "position \<Rightarrow> child \<Rightarrow> nat \<Rightarrow> bool \<Rightarrow> programState" where
  "pa pos child generation running = \<lparr>ps_program = one_program, ps_generation = generation, ps_running = running, ps_lastError = None,
     ps_failures = 0, ps_at = pos, ps_child = child\<rparr>"

definition sys :: "programState \<Rightarrow> sup_error option \<Rightarrow> caller list \<Rightarrow> supervisor" where
  "sys st ctx callers = \<lparr>su_programs = [st], su_started = (ps_at st \<noteq> Absent), su_ctx = ctx, su_callers = callers\<rparr>"

definition one_call :: "string list \<Rightarrow> caller_phase \<Rightarrow> sup_error option option \<Rightarrow> caller" where
  "one_call todo ph ack = \<lparr>ca_names = [''a''], ca_todo = todo, ca_phase = ph, ca_ack = ack\<rparr>"

lemmas sys_defs = sys_def pa_def one_call_def one_program_def deliver_def worker_defs expectedStopError_def

lemma sys_new: "NewSupervisor [one_program] = Inr (sys (pa Absent NoChild 0 False) None [])"
  by (simp add: NewSupervisor_def new_state_def sys_defs)

lemma sys_worker:
  assumes "worker_step ctx st r" and "ps_at st \<noteq> Absent" "ps_at (fst r) \<noteq> Absent"
  shows "su_step (sys st ctx callers) (sys (fst r) ctx (deliver (snd r) callers))"
  using su_step.worker [of 0 "sys st ctx callers" "fst r" "snd r"] assms by (simp add: sys_def)

lemma sys_cancel: "su_step (sys st None callers) (sys st (Some e) callers)"
  using su_step.cancel [of "sys st None callers" e] by (simp add: sys_def)

lemma sys_called: "su_step\<^sup>*\<^sup>* (sys (pa Absent NoChild 0 False) None []) (sys (pa (AtLoop None) NoChild 0 False) None [one_call [] Calling None])"
proof -
  have "su_step (sys (pa Absent NoChild 0 False) None []) (sys (pa (AtLoop None) NoChild 0 False) None [])"
    by (rule su_step.run) (simp add: start_supervisor_def sys_defs)
  moreover have "su_step (sys (pa (AtLoop None) NoChild 0 False) None []) (sys (pa (AtLoop None) NoChild 0 False) None [one_call [] Calling None])"
    using su_step.restart [of "sys (pa (AtLoop None) NoChild 0 False) None []" "[''a'']"] by (simp add: sys_defs)
  ultimately show ?thesis by (rule converse_rtranclp_into_rtranclp [OF _ r_into_rtranclp])
qed

lemma sys_stopping:
  "su_step\<^sup>*\<^sup>* (sys (pa (AtLoop None) NoChild 0 False) None [one_call [] Calling None])
     (sys (pa (Stopping 0) Alive 1 True) None [one_call [''a''] Waiting None])"
proof -
  have "su_step (sys (pa (AtLoop None) NoChild 0 False) None [one_call [] Calling None]) (sys (pa Serving Alive 1 True) None [one_call [] Calling None])"
    using sys_worker [OF worker_step.start [of "pa (AtLoop None) NoChild 0 False" None None]] by (simp add: sys_defs)
  moreover have "su_step (sys (pa Serving Alive 1 True) None [one_call [] Calling None]) (sys (pa Serving Alive 1 True) None [one_call [''a''] Offering None])"
    using su_step.ready [of 0 "sys (pa Serving Alive 1 True) None [one_call [] Calling None]"]
    by (simp add: sys_defs admit_def selected_def next_request_def)
  moreover have "su_step (sys (pa Serving Alive 1 True) None [one_call [''a''] Offering None]) (sys (pa (Stopping 0) Alive 1 True) None [one_call [''a''] Waiting None])"
    using su_step.request [of 0 "sys (pa Serving Alive 1 True) None [one_call [''a''] Offering None]" 0 "[]"]
    by (simp add: sys_defs take_request_def)
  ultimately show ?thesis by simp
qed

text \<open>The program has stopped for the restart and goes back to the head of its loop.\<close>

lemma sys_restarting:
  "su_step\<^sup>*\<^sup>* (sys (pa (Stopping 0) Alive 1 True) None [one_call [''a''] Waiting None])
     (sys (pa (AtLoop (Some 0)) NoChild 1 False) None [one_call [''a''] Waiting None])"
proof -
  have "su_step (sys (pa (Stopping 0) Alive 1 True) None [one_call [''a''] Waiting None]) (sys (pa (Stopping 0) (Result None) 1 True) None [one_call [''a''] Waiting None])"
    using sys_worker [OF worker_step.exits [of "pa (Stopping 0) Alive 1 True" None None]] by (simp add: sys_defs)
  moreover have "su_step (sys (pa (Stopping 0) (Result None) 1 True) None [one_call [''a''] Waiting None])
      (sys (pa (AtLoop (Some 0)) NoChild 1 False) None [one_call [''a''] Waiting None])"
    using sys_worker [OF worker_step.planned [of "pa (Stopping 0) (Result None) 1 True" 0 None None]] by (simp add: sys_defs)
  ultimately show ?thesis by simp
qed

lemma sys_restarted:
  "su_step\<^sup>*\<^sup>* (sys (pa (AtLoop (Some 0)) NoChild 1 False) None [one_call [''a''] Waiting None])
     (sys (pa Serving Alive 2 True) None [one_call [] (Returned None) None])"
proof -
  have "su_step (sys (pa (AtLoop (Some 0)) NoChild 1 False) None [one_call [''a''] Waiting None]) (sys (pa Serving Alive 2 True) None [one_call [''a''] Waiting (Some None)])"
    using sys_worker [OF worker_step.start [of "pa (AtLoop (Some 0)) NoChild 1 False" "Some 0" None], where callers = "[one_call [''a''] Waiting None]"]
    by (simp add: sys_defs numeral_2_eq_2)
  moreover have "su_step (sys (pa Serving Alive 2 True) None [one_call [''a''] Waiting (Some None)]) (sys (pa Serving Alive 2 True) None [one_call [] (Returned None) None])"
    using su_step.answered [of 0 "sys (pa Serving Alive 2 True) None [one_call [''a''] Waiting (Some None)]" None]
    by (simp add: sys_defs take_ack_def next_request_def)
  ultimately show ?thesis by simp
qed

text \<open>The supervisor is cancelled before the new generation starts: the request stays without an answer.\<close>

lemma sys_request_lost:
  "su_step\<^sup>*\<^sup>* (sys (pa (AtLoop (Some 0)) NoChild 1 False) None [one_call [''a''] Waiting None])
     (sys (pa Ended NoChild 1 False) (Some Canceled) [one_call [''a''] Waiting None])"
proof -
  have "su_step (sys (pa (AtLoop (Some 0)) NoChild 1 False) (Some Canceled) [one_call [''a''] Waiting None])
      (sys (pa Ended NoChild 1 False) (Some Canceled) [one_call [''a''] Waiting None])"
    using sys_worker [OF worker_step.leave [of "pa (AtLoop (Some 0)) NoChild 1 False" "Some 0" "Some Canceled"]] by (simp add: sys_defs)
  moreover have "su_step (sys (pa (AtLoop (Some 0)) NoChild 1 False) None [one_call [''a''] Waiting None])
      (sys (pa (AtLoop (Some 0)) NoChild 1 False) (Some Canceled) [one_call [''a''] Waiting None])"
    by (rule sys_cancel)
  ultimately show ?thesis by (meson converse_rtranclp_into_rtranclp r_into_rtranclp)
qed

text \<open>The supervisor is cancelled while a program stops for a restart: the program ends and is still reported as running.\<close>

lemma sys_ended_running:
  "su_step\<^sup>*\<^sup>* (sys (pa (Stopping 0) Alive 1 True) None [one_call [''a''] Waiting None])
     (sys (pa Ended NoChild 1 True) (Some Canceled) [one_call [''a''] Waiting (Some (Some Canceled))])"
proof -
  have "su_step (sys (pa (Stopping 0) Alive 1 True) None [one_call [''a''] Waiting None])
      (sys (pa (Stopping 0) Alive 1 True) (Some Canceled) [one_call [''a''] Waiting None])"
    by (rule sys_cancel)
  moreover have "su_step (sys (pa (Stopping 0) Alive 1 True) (Some Canceled) [one_call [''a''] Waiting None])
      (sys (pa (Stopping 0) (Result None) 1 True) (Some Canceled) [one_call [''a''] Waiting None])"
    using sys_worker [OF worker_step.exits [of "pa (Stopping 0) Alive 1 True" "Some Canceled" None]] by (simp add: sys_defs)
  moreover have "su_step (sys (pa (Stopping 0) (Result None) 1 True) (Some Canceled) [one_call [''a''] Waiting None])
      (sys (pa Ended NoChild 1 True) (Some Canceled) [one_call [''a''] Waiting (Some (Some Canceled))])"
    using sys_worker [OF worker_step.planned [of "pa (Stopping 0) (Result None) 1 True" 0 None "Some Canceled"], where callers = "[one_call [''a''] Waiting None]"]
    by (simp add: sys_defs)
  ultimately show ?thesis by simp
qed

lemma sys_drains:
  "(quiet_step ^^ 3) (sys (pa Serving Alive 1 True) (Some Canceled) []) (sys (pa Ended NoChild 1 False) (Some Canceled) [])"
proof -
  have "quiet_step (sys (pa Serving Alive 1 True) (Some Canceled) []) (sys (pa Draining Alive 1 True) (Some Canceled) [])"
    using sys_worker [OF worker_step.cancelled [of "pa Serving Alive 1 True" "Some Canceled"], where callers = "[]"] by (simp add: quiet_step_def sys_defs)
  moreover have "quiet_step (sys (pa Draining Alive 1 True) (Some Canceled) []) (sys (pa Draining (Result None) 1 True) (Some Canceled) [])"
    using sys_worker [OF worker_step.exits [of "pa Draining Alive 1 True" "Some Canceled" None], where callers = "[]"]
    by (simp add: quiet_step_def sys_defs)
  moreover have "quiet_step (sys (pa Draining (Result None) 1 True) (Some Canceled) []) (sys (pa Ended NoChild 1 False) (Some Canceled) [])"
    using sys_worker [OF worker_step.drained [of "pa Draining (Result None) 1 True" None "Some Canceled"], where callers = "[]"]
    by (simp add: quiet_step_def sys_defs)
  ultimately show ?thesis by (auto simp: numeral_3_eq_3 intro!: relcomppI)
qed

section \<open>Properties of the supervisor\<close>

text \<open>C25: A program never runs twice, and its status is right. In every state that the supervisor can reach from its start, with
  any requests, failures and cancellation, a program at the head of its loop, in its delay or ended has no child, so
  that a new generation never overlaps the old one. A program that has a child is reported as running and is
  named by the error of a shutdown that takes too long. A program that is reported as running without a child has ended in a cancelled supervisor.\<close>

theorem supervisor_one_instance:
  assumes "NewSupervisor programs = Inr s0" and "su_step\<^sup>*\<^sup>* s0 s" and "i < length (su_programs s)"
  shows "(idle (ps_at (pst s i)) \<longrightarrow> ps_child (pst s i) = NoChild) \<and>
    (ps_child (pst s i) \<noteq> NoChild \<longrightarrow> ps_running (pst s i) \<and> ps_name (pst s i) \<in> set (unresponsive s)) \<and>
    (ps_running (pst s i) \<and> ps_child (pst s i) = NoChild \<longrightarrow> ps_at (pst s i) = Ended \<and> su_ctx s \<noteq> None)"
proof -
  have w: "worker_ok (su_started s) (su_ctx s) (pst s i)"
    using reachable_ok [OF assms(2) NewSupervisor_ok [OF assms(1)]] assms(3) by (simp add: su_ok_def)
  have "ps_name (pst s i) \<in> set (unresponsive s)" if "ps_running (pst s i)"
    using that assms(3) by (force simp: unresponsive_def Status_def)
  then show ?thesis using w by (auto simp: worker_ok_def)
qed

theorem supervisor_one_instance_witness:
  "\<exists>s. su_step\<^sup>*\<^sup>* (sys (pa Absent NoChild 0 False) None []) s \<and> ps_running (pst s 0) \<and> ps_child (pst s 0) = NoChild \<and>
     ps_at (pst s 0) = Ended \<and> su_ctx s \<noteq> None"
proof -
  let ?s = "sys (pa Ended NoChild 1 True) (Some Canceled) [one_call [''a''] Waiting (Some (Some Canceled))]"
  have r: "su_step\<^sup>*\<^sup>* (sys (pa Absent NoChild 0 False) None []) ?s" using sys_called sys_stopping sys_ended_running by (meson rtranclp_trans)
  show ?thesis using supervisor_one_instance [OF sys_new r, of 0] r by (intro exI [of _ ?s]) (simp add: sys_def pa_def)
qed

text \<open>C13: A restart that succeeds has restarted. If a call of \<open>Restart\<close> that begins in a reachable state returns without an error, every
  program that it named and that cannot reload its configuration has started a new generation since the call began.\<close>

theorem restart_renews_generation:
  assumes "NewSupervisor programs = Inr s0" and "su_step\<^sup>*\<^sup>* s0 s1" and "c < length (su_callers s1)" "ca_phase (cst s1 c) = Calling"
    and "su_step\<^sup>*\<^sup>* s1 s2" and "ca_phase (cst s2 c) = Returned None"
    and "i < length (su_programs s1)" "ps_name (pst s1 i) \<in> set (ca_names (cst s1 c))" "\<not> pg_Reload (ps_program (pst s1 i))"
  shows "ps_generation (pst s1 i) < ps_generation (pst s2 i)"
proof -
  have ok: "su_ok s1" by (rule reachable_ok [OF assms(2) NewSupervisor_ok [OF assms(1)]])
  from assms(5) have "su_ok s2 \<and> later s1 s2 \<and> c < length (su_callers s2) \<and> call_ok s1 s2 (ca_names (cst s1 c)) (cst s2 c)"
  proof (induction rule: rtranclp_induct)
    case base
    then show ?case using ok assms(3,4) by (simp add: call_ok_def)
  next
    case (step s s')
    then show ?case
      using su_step_ok [OF step(2)] later_trans su_step_later [OF step(2)] call_step [OF step(2)] by blast
  qed
  then show ?thesis using assms(6-9) by (simp add: call_ok_def renewed_def)
qed

theorem restart_renews_generation_witness:
  "\<exists>s. su_step\<^sup>*\<^sup>* (sys (pa (AtLoop None) NoChild 0 False) None [one_call [] Calling None]) s \<and> ca_phase (cst s 0) = Returned None \<and> 0 < ps_generation (pst s 0)"
proof -
  let ?s1 = "sys (pa (AtLoop None) NoChild 0 False) None [one_call [] Calling None]"
  let ?s = "sys (pa Serving Alive 2 True) None [one_call [] (Returned None) None]"
  have r: "su_step\<^sup>*\<^sup>* ?s1 ?s" using sys_stopping sys_restarting sys_restarted by (meson rtranclp_trans)
  have "ps_generation (pst ?s1 0) < ps_generation (pst ?s 0)"
    by (rule restart_renews_generation [OF sys_new sys_called _ _ r, of 0]) (simp_all add: sys_def pa_def one_call_def one_program_def)
  then show ?thesis using r by (intro exI [of _ ?s]) (simp add: sys_def pa_def one_call_def)
qed

text \<open>C26: No accepted restart request is forgotten while the supervisor runs. A caller whose request was taken and that has no answer yet is
  held by the program that it named, or the supervisor was cancelled and that program has ended.\<close>

theorem restart_request_held:
  assumes "NewSupervisor programs = Inr s0" and "su_step\<^sup>*\<^sup>* s0 s" and "c < length (su_callers s)"
    and "ca_phase (cst s c) = Waiting" "ca_ack (cst s c) = None"
  shows "\<exists>i < length (su_programs s). ps_name (pst s i) = hd (ca_todo (cst s c)) \<and>
    (held (ps_at (pst s i)) = Some c \<or> su_ctx s \<noteq> None \<and> ps_at (pst s i) = Ended)"
proof -
  have ok: "su_ok s" by (rule reachable_ok [OF assms(2) NewSupervisor_ok [OF assms(1)]])
  then obtain i where i: "i < length (su_programs s)" "ps_name (pst s i) = hd (ca_todo (cst s c))"
      "held (ps_at (pst s i)) = Some c \<or> ps_at (pst s i) = Ended"
    using assms(3-5) by (auto simp: su_ok_def waits_ok_def)
  then show ?thesis using ok by (auto simp: su_ok_def worker_ok_def)
qed

theorem restart_request_held_witness:
  "\<exists>s. su_step\<^sup>*\<^sup>* (sys (pa Absent NoChild 0 False) None []) s \<and> ca_phase (cst s 0) = Waiting \<and> ca_ack (cst s 0) = None \<and>
     (\<exists>i. held (ps_at (pst s i)) = Some 0 \<or> su_ctx s \<noteq> None \<and> ps_at (pst s i) = Ended) \<and> ps_at (pst s 0) = Ended"
proof -
  let ?s = "sys (pa Ended NoChild 1 False) (Some Canceled) [one_call [''a''] Waiting None]"
  have r: "su_step\<^sup>*\<^sup>* (sys (pa Absent NoChild 0 False) None []) ?s"
    using sys_called sys_stopping sys_restarting sys_request_lost by (meson rtranclp_trans)
  have w: "ca_phase (cst ?s 0) = Waiting" "ca_ack (cst ?s 0) = None" "0 < length (su_callers ?s)" "ps_at (pst ?s 0) = Ended"
    by (simp_all add: sys_def pa_def one_call_def)
  show ?thesis using restart_request_held [OF sys_new r w(3,1,2)] r w by (intro exI [of _ ?s]) blast
qed

text \<open>C27: A shutdown comes to an end. Once the context has ended, every sequence of steps without new calls is bounded, and when no such step is
  left every program has ended and none of their children runs.\<close>

theorem shutdown_drains:
  assumes "NewSupervisor programs = Inr s0" and "su_step\<^sup>*\<^sup>* s0 s" and "su_started s" "su_ctx s \<noteq> None"
  shows "((quiet_step ^^ n) s s' \<longrightarrow> n \<le> work s) \<and>
    ((\<forall>s'. \<not> quiet_step s s') \<longrightarrow> list_all (\<lambda>st. ps_at st = Ended \<and> ps_child st = NoChild) (su_programs s))"
proof -
  have ok: "su_ok s" by (rule reachable_ok [OF assms(2) NewSupervisor_ok [OF assms(1)]])
  obtain e where e: "su_ctx s = Some e" using assms(4) by blast
  have "ps_at (pst s i) = Ended \<and> ps_child (pst s i) = NoChild" if "i < length (su_programs s)" and stuck: "\<forall>s'. \<not> quiet_step s s'" for i
  proof -
    have w: "worker_ok True (Some e) (pst s i)" using ok that(1) assms(3) e by (auto simp: su_ok_def)
    have len: "length (deliver ack (su_callers s)) = length (su_callers s)" for ack by (simp add: deliver_def split: option.split)
    have "ps_at (pst s i) = Ended"
    proof (rule ccontr)
      assume "ps_at (pst s i) \<noteq> Ended"
      then obtain st ack where step: "worker_step (su_ctx s) (pst s i) (st, ack)" using worker_progress [OF w] e by auto
      have "quiet_step s (s\<lparr>su_programs := (su_programs s)[i := st], su_callers := deliver ack (su_callers s)\<rparr>)"
        using su_step.worker [OF that(1) step] len by (simp add: quiet_step_def)
      then show False using stuck by blast
    qed
    then show ?thesis using w by (auto simp: worker_ok_def idle_def)
  qed
  moreover have "(quiet_step ^^ n) s s' \<longrightarrow> n \<le> work s" using quiet_steps_bounded [OF _ assms(4) ok] by fastforce
  ultimately show ?thesis by (auto simp: list_all_length)
qed


theorem shutdown_drains_witness:
  "\<exists>s s'. su_ctx s \<noteq> None \<and> (quiet_step ^^ 3) s s' \<and> 3 \<le> work s \<and> ps_at (pst s' 0) = Ended"
proof -
  let ?s = "sys (pa Serving Alive 1 True) (Some Canceled) []" and ?s' = "sys (pa Ended NoChild 1 False) (Some Canceled) []"
  have "su_step (sys (pa Absent NoChild 0 False) None []) (sys (pa (AtLoop None) NoChild 0 False) None [])"
    by (rule su_step.run) (simp add: start_supervisor_def sys_defs)
  moreover have "su_step (sys (pa (AtLoop None) NoChild 0 False) None []) (sys (pa Serving Alive 1 True) None [])"
    using sys_worker [OF worker_step.start [of "pa (AtLoop None) NoChild 0 False" None None], where callers = "[]"] by (simp add: sys_defs)
  moreover have "su_step (sys (pa Serving Alive 1 True) None []) ?s" by (rule sys_cancel)
  ultimately have r: "su_step\<^sup>*\<^sup>* (sys (pa Absent NoChild 0 False) None []) ?s" by simp
  have "su_started ?s" "su_ctx ?s \<noteq> None" "ps_at (pst ?s' 0) = Ended" by (simp_all add: sys_def pa_def)
  then show ?thesis using shutdown_drains [OF sys_new r, of 3 ?s'] sys_drains by blast
qed
end
