(* ===== verification/Spec2Isabelle.thy ===== *)
theory Spec2Isabelle
  imports Dns_Server Memory_Loan Health_Tick Routeros_Guard Watchdog_Run Appliance_Supervisor
begin

text \<open>
  \<^bold>\<open>The program.\<close> sb-gateway is a network appliance that runs in a container on a RouterOS router. It steers the traffic
  of its clients through proxy paths of an Xray core. Six of its parts decide what happens to live traffic, and they are
  the subject of this development:

  \<^item> the policy DNS service (\<^verbatim>\<open>internal/policydns\<close>, with the domain sets of \<^verbatim>\<open>internal/domainset\<close>), which answers the queries
    of clients according to ordered rules;
  \<^item> the memory budgets (\<^verbatim>\<open>internal/memorybudget\<close>), which divide the memory of the container and lend the share of the
    ACME helper;
  \<^item> the health agent (\<^verbatim>\<open>internal/agent\<close>, with \<^verbatim>\<open>internal/healthcontract\<close>), which probes the paths of every routing policy and
    selects one of them;
  \<^item> the router transaction (\<^verbatim>\<open>internal/routeros\<close>), which applies a candidate configuration under a rollback guard;
  \<^item> the watchdog (\<^verbatim>\<open>internal/watchdog\<close>, with \<^verbatim>\<open>internal/applyguard\<close> and \<^verbatim>\<open>internal/runtimeproof\<close>), which publishes the
    readiness lease that the router relies on and restarts a container that has failed;
  \<^item> the supervisor (\<^verbatim>\<open>internal/appliance\<close>), which runs the programs of the container and restarts them on request or after a failure.

  The agent writes the selectors of the core, the DNS service hands the names of each lane to the upstream of that lane, the
  transaction changes the router while its scheduler stands guard, and the watchdog stands down while an application
  runs and restarts the container within a budget.

  \<^bold>\<open>How the code is modelled.\<close> Every function of the source becomes a function of the same name where the name is free, with the same
  branches and early returns. A Go call returns \<open>'a go\<close>, where \<open>None\<close> is a panic (\<open>Gateway_Prelude\<close>); errors are values.
  Structures are records, and a method that changes its receiver returns the new record. Bytes of messages are 8-bit words, times are integers in nanoseconds,
  strings are lists of characters with the functions of \<open>Go_Strings\<close>, and maps are partial functions, or lists where the code depends on the order. Goroutines that share a lock become the steps of an inductive
  relation, so that a theorem about reachable states covers every interleaving. What the code gets from outside (clocks,
  random numbers, sockets, the Xray runtime, the router, files, the third-party packages) is an argument, and a theorem
  holds for every value of it unless a hypothesis says otherwise. Loops without structural
  recursion have a termination proof; the wait for a first configuration, which may last for ever, is a partial function, and no definition runs on fuel.

  \<^bold>\<open>The theories.\<close>

  \<^item> \<open>Gateway_Prelude\<close> and \<open>Go_Strings\<close>: outcomes, bounded channels with the interface \<open>semaphore\<close>, and the parts of the \<^verbatim>\<open>strings\<close> and
    \<^verbatim>\<open>strconv\<close> packages in use, with the round trip of decimal numbers.
  \<^item> \<open>Dns_Wire\<close>, \<open>Dns_Question\<close> (\<^verbatim>\<open>cache.go\<close>, \<^verbatim>\<open>resolver.go\<close>): the walk over the records of a message, cacheable life times, ageing, and the key of a query. No
    sequence of octets makes them panic; ageing changes only life times; keys separate queries; encoded names parse back.
  \<^item> \<open>Dns_Cache\<close> (\<^verbatim>\<open>cache.go\<close>): the cache with its list order and byte limit. Every reachable cache is
    consistent and bounded, the most recent entries stay, and stale answers are served only in their window. The interface \<open>response_store\<close> carries the laws that the resolver uses.
  \<^item> \<open>Dns_Flights\<close> (\<^verbatim>\<open>flightGroup\<close>): the interleavings of equal queries; one owner per key, and every waiter gets its outcome.
  \<^item> \<open>Domain_Sets\<close> (\<^verbatim>\<open>internal/domainset\<close>) and \<open>Dns_Lanes\<close> (\<^verbatim>\<open>config.go\<close>, \<^verbatim>\<open>config_stream.go\<close>): shared membership and the rules of a lane. The compiled lookup
    is the first matching rule, for both implementations of the interface \<open>membership_index\<close>; the one on the matcher group of xray-core under the documented
    behaviour of that group (\<open>mph_documented\<close>).
  \<^item> \<open>Dns_Upstream\<close> (\<^verbatim>\<open>resolver.go\<close>): UDP, TCP, DNS over TLS and DNS over HTTPS with their pools, the interface \<open>connection_pool\<close>, framing, and what is
    accepted from the network. No connection is lost or kept after an error.
  \<^item> \<open>Dns_Resolver\<close> (\<^verbatim>\<open>resolver.go\<close>, \<^verbatim>\<open>config.go\<close>): loading a runtime and the path of a query. Policy decides before the cache, a repeated
    question is served from the cache, and an answer has the identifier of its query.
  \<^item> \<open>Dns_Admission\<close>, \<open>Dns_Server\<close> (\<^verbatim>\<open>admission.go\<close>, \<^verbatim>\<open>server.go\<close>): limits of work, sessions and bytes under every interleaving, handlers that
    give back what they took, the order of a TCP session, and the startup.
  \<^item> \<open>Memory_Budget\<close>, \<open>Memory_Loan\<close> (\<^verbatim>\<open>budget.go\<close>, \<^verbatim>\<open>acme_loan.go\<close>, \<^verbatim>\<open>pressure.go\<close>): the division of the ceiling, and the loan, which never overcommits and is verified
    or given back.
  \<^item> \<open>Health_State\<close>, \<open>Health_Selection\<close> (\<^verbatim>\<open>health_logic.go\<close>, \<^verbatim>\<open>health_failover.go\<close>, \<^verbatim>\<open>health_pair.go\<close>): histories, statistics, ranking and the choice of a path. A planned switch needs
    two wins, a failed path is left, and the cached statistics are those of the samples.
  \<^item> \<open>Health_Schedule\<close>, \<open>Health_Budget\<close>, \<open>Health_Liveness\<close> (\<^verbatim>\<open>health_schedule.go\<close>, \<^verbatim>\<open>health_probe_budget.go\<close>, \<^verbatim>\<open>health_liveness.go\<close>): which paths are probed next, the slots that policies share,
    and the fast check of the active path.
  \<^item> \<open>Health_Tick\<close> (\<^verbatim>\<open>tickPolicy\<close> of \<^verbatim>\<open>health.go\<close>, from the evidence of the probes on): evaluation, decision, calls of the runtime and publication. With the
    committed dates the rotation of the schedule reaches every candidate.
  \<^item> \<open>Routeros_Transaction\<close>, \<open>Routeros_Guard\<close> (\<^verbatim>\<open>transaction.go\<close>, \<^verbatim>\<open>rollback.go\<close>): the application of a candidate as a state monad over the history of its calls, with a calculus of
    weakest preconditions; it is guarded after every call and reports what it did, but for two windows that the theorems name, of which the second is shown
    to be real (\<open>lost_disarm_is_unguarded\<close>); the armed scheduler is taken not to run during the calls. The guard is exclusive, and the wait for Safe Mode ends.
  \<^item> \<open>Watchdog_Checks\<close>, \<open>Watchdog_Run\<close> (\<^verbatim>\<open>watchdog.go\<close>, \<^verbatim>\<open>deep_checks.go\<close>, \<^verbatim>\<open>core_recovery.go\<close>, \<^verbatim>\<open>guard.go\<close>, \<^verbatim>\<open>lease.go\<close>): settings, failures, restart history and the cycle. A lease is
    backed by a fresh proof, a restart needs a confirmed failure, and restarts stay within the budget.
  \<^item> \<open>Appliance_Supervisor\<close> (\<^verbatim>\<open>supervisor.go\<close>): the goroutines of the programs, their children and the callers of \<^verbatim>\<open>Restart\<close> as a step relation. A program never runs twice, a
    restart that succeeds has started a new generation, an accepted request is held or answered while the supervisor runs, and a shutdown comes to an end.

  \<^bold>\<open>Not modelled.\<close> The first half of \<^verbatim>\<open>tickPolicy\<close> and the fast recovery around it, which read files and the runtime on every
  step; the Xray runtime with its gRPC and HTTP probes; the REST and SSH clients of the router, whose answers are arbitrary here; the deep probes of the
  watchdog, which run commands and read \<^verbatim>\<open>/proc\<close>. The control plane (\<^verbatim>\<open>internal/controlplane\<close>) and the renderers (\<^verbatim>\<open>internal/runtimeconfig\<close>) handle untyped JSON
  documents and produce text whose meaning is that of other programs; rule sets, GeoIP assets, subscriptions and ACME decode third-party formats and use the
  network; the commands, and the rest of the appliance around its supervisor, start processes and send signals. The panel is a web application and is outside the scope. Integer overflow is modelled where a
  value can reach the limits of its type; counters of requests and the sums of durations are taken as unbounded.
\<close>

end
